(* ===== verification/Prelude.thy ===== *)
theory Prelude
  imports Main "HOL-Library.Word" "HOL-Library.Signed_Division" "HOL-Library.Monad_Syntax"
begin

text \<open>
  Shared vocabulary of the development: machine integers of C++ (fixed-width ranges, checked
  signed arithmetic, whose overflow is undefined behaviour in the language), addresses, the
  outcome of a call that may sleep on a condition variable, and reachability of transition
  systems with the proof rule for their invariants.
\<close>

section \<open>Theorem collections\<close>

named_theorems machine_simps \<open>unfolding rules of the fixed-width arithmetic\<close>

section \<open>Addresses\<close>

text \<open>
  A pointer (\<open>void *\<close>, \<open>Element *\<close>) is a number; \<open>NULL\<close> is 0.
\<close>

type_synonym addr = nat

abbreviation (input) NULL :: addr where "NULL \<equiv> 0"

section \<open>Fixed-width signed integers\<close>

text \<open>
  Signed values are read as \<open>int\<close>. Arithmetic on them is checked: a result outside the type
  is \<open>None\<close>, since signed overflow is undefined in C++. Division truncates towards zero
  (\<open>sdiv\<close>, \<open>smod\<close>).
\<close>

definition INT32_MAX :: int where "INT32_MAX = 2147483647"
definition INT32_MIN :: int where "INT32_MIN = - 2147483648"
definition INT64_MAX :: int where "INT64_MAX = 9223372036854775807"
definition INT64_MIN :: int where "INT64_MIN = - 9223372036854775808"

definition in_i32 :: "int \<Rightarrow> bool" where
  "in_i32 n \<longleftrightarrow> INT32_MIN \<le> n \<and> n \<le> INT32_MAX"

definition in_i64 :: "int \<Rightarrow> bool" where
  "in_i64 n \<longleftrightarrow> INT64_MIN \<le> n \<and> n \<le> INT64_MAX"

definition i32_add :: "int \<Rightarrow> int \<Rightarrow> int option" where
  "i32_add a b = (if in_i32 (a + b) then Some (a + b) else None)"

definition i64_sub :: "int \<Rightarrow> int \<Rightarrow> int option" where
  "i64_sub a b = (if in_i64 (a - b) then Some (a - b) else None)"

definition i32_mul :: "int \<Rightarrow> int \<Rightarrow> int option" where
  "i32_mul a b = (if in_i32 (a * b) then Some (a * b) else None)"

definition i64_mul :: "int \<Rightarrow> int \<Rightarrow> int option" where
  "i64_mul a b = (if in_i64 (a * b) then Some (a * b) else None)"

definition i64_add :: "int \<Rightarrow> int \<Rightarrow> int option" where
  "i64_add a b = (if in_i64 (a + b) then Some (a + b) else None)"

text \<open>
  Conversions are not undefined: they reduce modulo the width, into the signed or the
  unsigned range.
\<close>

definition to_i32 :: "int \<Rightarrow> int" where
  "to_i32 n = (n + 2147483648) mod 4294967296 - 2147483648"

definition to_u32 :: "int \<Rightarrow> int" where
  "to_u32 n = n mod 4294967296"

lemmas machine_limits [machine_simps] =
  INT32_MAX_def INT32_MIN_def INT64_MAX_def INT64_MIN_def in_i32_def in_i64_def

lemmas machine_ops [machine_simps] =
  i32_mul_def i64_mul_def i64_add_def to_i32_def to_u32_def

lemma to_i32_in_range: "in_i32 (to_i32 n)"
proof -
  have "0 \<le> (n + 2147483648) mod 4294967296" "(n + 2147483648) mod 4294967296 < 4294967296"
    by simp_all
  then show ?thesis unfolding machine_simps by linarith
qed

lemma to_i32_id: "in_i32 n \<Longrightarrow> to_i32 n = n"
  unfolding machine_simps by simp

lemma i64_add_Some [simp]: "i64_add a b = Some c \<longleftrightarrow> in_i64 (a + b) \<and> c = a + b"
  by (auto simp: i64_add_def)

lemma i64_mul_Some [simp]: "i64_mul a b = Some c \<longleftrightarrow> in_i64 (a * b) \<and> c = a * b"
  by (auto simp: i64_mul_def)

lemma i32_mul_Some [simp]: "i32_mul a b = Some c \<longleftrightarrow> in_i32 (a * b) \<and> c = a * b"
  by (auto simp: i32_mul_def)

lemma sdiv_nonneg [simp]: "0 \<le> a \<Longrightarrow> 0 < b \<Longrightarrow> a sdiv b = a div (b::int)"
  by (simp add: signed_divide_int_def sgn_if)

lemma smod_nonneg [simp]: "0 \<le> a \<Longrightarrow> 0 < b \<Longrightarrow> a smod b = a mod (b::int)"
  by (auto simp: signed_modulo_int_def sgn_if)

section \<open>Calls that may sleep\<close>

text \<open>
  A call that waits on a condition variable either returns or is found asleep: \<open>Asleep s\<close> is
  the state in which the caller has released the mutex inside \<open>pthread_cond_wait\<close>. Undefined
  behaviour (a dangling or null dereference) and a loop that never ends are \<open>None\<close> of the
  enclosing \<open>option\<close>.
\<close>

datatype ('r, 's) outcome = Returned 'r 's | Asleep 's

lemma case_outcome_id [simp]: "case_outcome Returned Asleep = id"
  by (auto simp: fun_eq_iff split: outcome.splits)

section \<open>Lists\<close>

lemma sorted_wrt_insertI:
  assumes "sorted_wrt P as" "sorted_wrt P bs"
    and "\<And>a b. a \<in> set as \<Longrightarrow> b \<in> set bs \<Longrightarrow> P a b"
    and "\<And>a. a \<in> set as \<Longrightarrow> P a x" and "\<And>b. b \<in> set bs \<Longrightarrow> P x b"
  shows "sorted_wrt P (as @ x # bs)"
  using assms by (auto simp: sorted_wrt_append)

lemma foldl_snoc: "foldl (\<lambda>u d. u @ [d]) us xs = us @ xs"
  by (induction xs arbitrary: us) auto

lemma card_remove_le: "card A \<le> Suc (card (A - {i}))"
  unfolding card_Diff_singleton_if by (cases "i \<in> A") simp_all

section \<open>Multiples\<close>

lemma dvd_between:
  assumes "d dvd a" and "d dvd b" and "a < b + (d::nat)"
  shows "a \<le> b"
proof -
  obtain i j where "a = d * i" "b = d * j" using assms(1,2) by (auto elim!: dvdE)
  with assms(3) have "d * i < d * Suc j" by simp
  then have "i \<le> j" by (simp only: mult_less_cancel1) simp
  with \<open>a = d * i\<close> \<open>b = d * j\<close> show ?thesis by simp
qed

lemma exp_pred_le:
  assumes "(2::nat) ^ k - 1 < 2 ^ n"
  shows "k \<le> n"
proof (rule ccontr)
  assume "\<not> k \<le> n"
  then have "(2::nat) ^ Suc n \<le> 2 ^ k" by (intro power_increasing) auto
  moreover have "(1::nat) \<le> 2 ^ n" by simp
  ultimately show False using assms unfolding power_Suc by linarith
qed

section \<open>Transition systems\<close>

inductive reach :: "('s \<Rightarrow> bool) \<Rightarrow> ('s \<Rightarrow> 's \<Rightarrow> bool) \<Rightarrow> 's \<Rightarrow> bool"
  for init :: "'s \<Rightarrow> bool" and step :: "'s \<Rightarrow> 's \<Rightarrow> bool" where
  reach_init: "init s \<Longrightarrow> reach init step s"
| reach_step: "reach init step s \<Longrightarrow> step s t \<Longrightarrow> reach init step t"

lemma reach_mono:
  assumes "reach init step s" and "\<And>u v. step u v \<Longrightarrow> step' u v"
  shows "reach init step' s"
  using assms(1) by induction (auto intro: reach.intros assms(2))

text \<open>Executing a list of labelled actions of a transition function.\<close>

fun perform :: "('a \<Rightarrow> 's \<Rightarrow> 's option) \<Rightarrow> 'a list \<Rightarrow> 's \<Rightarrow> 's option" where
  "perform f [] s = Some s"
| "perform f (a # as) s = Option.bind (f a s) (perform f as)"

lemma perform_append: "perform f (as @ bs) s = Option.bind (perform f as s) (perform f bs)"
  by (induction as arbitrary: s) (auto split: Option.bind_split)

lemma perform_reach:
  assumes "reach init step s" and "perform f as s = Some t"
    and "\<And>a u v. a \<in> set as \<Longrightarrow> f a u = Some v \<Longrightarrow> step u v"
  shows "reach init step t"
  using assms
proof (induction as arbitrary: s)
  case (Cons a as)
  then obtain u where u: "f a s = Some u" "perform f as u = Some t"
    by (auto simp: bind_eq_Some_conv)
  have "step s u" by (rule Cons.prems(3) [OF _ u(1)]) simp
  with Cons.prems(1) have "reach init step u" by (rule reach_step)
  then show ?case using Cons.IH [OF _ u(2)] Cons.prems(3) by (metis list.set_intros(2))
qed simp

text \<open>
  The contract of an inductive invariant: it holds initially and every step keeps it.
\<close>

locale invariant_system =
  fixes init :: "'s \<Rightarrow> bool" and step :: "'s \<Rightarrow> 's \<Rightarrow> bool" and inv :: "'s \<Rightarrow> bool"
  assumes init_inv: "init s \<Longrightarrow> inv s"
    and step_inv: "inv s \<Longrightarrow> step s t \<Longrightarrow> inv t"
begin

lemma reach_inv: "reach init step s \<Longrightarrow> inv s"
  by (induction rule: reach.induct) (auto intro: init_inv step_inv)

end

text \<open>
  The contract of a simulation: the concrete system starts in a state whose image is initial, and
  each of its steps, from a state that satisfies the invariant, is a step of the abstract system
  on the images or does not show there.
\<close>

locale simulation = invariant_system init step inv
  for init :: "'s \<Rightarrow> bool" and step :: "'s \<Rightarrow> 's \<Rightarrow> bool" and inv :: "'s \<Rightarrow> bool" +
  fixes ainit :: "'a \<Rightarrow> bool" and astep :: "'a \<Rightarrow> 'a \<Rightarrow> bool" and image :: "'s \<Rightarrow> 'a"
  assumes init_sim: "init s \<Longrightarrow> ainit (image s)"
    and step_sim: "inv s \<Longrightarrow> step s t \<Longrightarrow> image t = image s \<or> astep (image s) (image t)"
begin

lemma reach_sim: "reach init step s \<Longrightarrow> reach ainit astep (image s)"
proof (induction rule: reach.induct)
  case (reach_init s)
  then show ?case by (intro reach.reach_init init_sim)
next
  case (reach_step s t)
  then have "image t = image s \<or> astep (image s) (image t)" by (intro step_sim reach_inv)
  with reach_step.IH show ?case by (auto intro: reach.reach_step)
qed

end

section \<open>Objects and their specifications\<close>

text \<open>
  Running a list of operations on an object, each returning a result, and on its specification.
  An operation of the object may fault: \<open>None\<close>.
\<close>

fun run_object :: "('o \<Rightarrow> 's \<Rightarrow> ('r \<times> 's) option) \<Rightarrow> 'o list \<Rightarrow> 's \<Rightarrow> ('r list \<times> 's) option" where
  "run_object f [] s = Some ([], s)"
| "run_object f (x # xs) s =
     Option.bind (f x s) (\<lambda>(r, s'). map_option (\<lambda>(rs, t). (r # rs, t)) (run_object f xs s'))"

fun run_spec :: "('o \<Rightarrow> 'a \<Rightarrow> 'r \<times> 'a) \<Rightarrow> 'o list \<Rightarrow> 'a \<Rightarrow> 'r list \<times> 'a" where
  "run_spec g [] a = ([], a)"
| "run_spec g (x # xs) a = (let (r, a') = g x a; (rs, b) = run_spec g xs a' in (r # rs, b))"

text \<open>
  The contract of an object that implements a specification: on a well-formed state each allowed
  operation returns what the specification returns and leads to a well-formed state.
\<close>

locale specified_object =
  fixes invar :: "'s \<Rightarrow> bool" and view :: "'s \<Rightarrow> 'a" and allowed :: "'o \<Rightarrow> bool"
    and perform_op :: "'o \<Rightarrow> 's \<Rightarrow> ('r \<times> 's) option" and spec_op :: "'o \<Rightarrow> 'a \<Rightarrow> 'r \<times> 'a"
  assumes op_law: "invar s \<Longrightarrow> allowed x \<Longrightarrow>
    \<exists>r t. perform_op x s = Some (r, t) \<and> invar t \<and> spec_op x (view s) = (r, view t)"
begin

lemma run_refines:
  "invar s \<Longrightarrow> list_all allowed xs \<Longrightarrow>
   \<exists>rs t. run_object perform_op xs s = Some (rs, t) \<and> invar t \<and> run_spec spec_op xs (view s) = (rs, view t)"
proof (induction xs arbitrary: s)
  case (Cons x xs)
  from op_law [OF Cons.prems(1), of x] Cons.prems(2) obtain r u where
    u: "perform_op x s = Some (r, u)" "invar u" "spec_op x (view s) = (r, view u)" by auto
  from Cons.IH [OF u(2)] Cons.prems(2) obtain rs t where
    "run_object perform_op xs u = Some (rs, t)" "invar t" "run_spec spec_op xs (view u) = (rs, view t)" by auto
  with u show ?case by simp
qed simp

end

end
