(* ===== verification/Error_Code.thy ===== *)
theory Error_Code
  imports Prelude
begin

text \<open>
  The status codes of \<open>ErrorCode.h\<close>. The enumerators are the constructors; their values are
  the ones of a Linux build (the branch \<open>!defined(_WIN32)\<close>), where the \<open>errno\<close> constants are
  those of the system headers.
\<close>

section \<open>The errno constants the enumeration uses\<close>

definition EPERM :: int where "EPERM = 1"
definition ENOENT :: int where "ENOENT = 2"
definition EINTR :: int where "EINTR = 4"
definition EAGAIN :: int where "EAGAIN = 11"
definition EWOULDBLOCK :: int where "EWOULDBLOCK = EAGAIN"
definition ENOMEM :: int where "ENOMEM = 12"
definition EBUSY :: int where "EBUSY = 16"
definition EEXIST :: int where "EEXIST = 17"
definition ENODEV :: int where "ENODEV = 19"
definition EINVAL :: int where "EINVAL = 22"
definition EPIPE :: int where "EPIPE = 32"
definition ENOSYS :: int where "ENOSYS = 38"
definition ENODATA :: int where "ENODATA = 61"
definition EBADMSG :: int where "EBADMSG = 74"
definition EOVERFLOW :: int where "EOVERFLOW = 75"
definition ETIMEDOUT :: int where "ETIMEDOUT = 110"

lemmas errno_defs =
  EPERM_def ENOENT_def EINTR_def EAGAIN_def EWOULDBLOCK_def ENOMEM_def EBUSY_def EEXIST_def
  ENODEV_def EINVAL_def EPIPE_def ENOSYS_def ENODATA_def EBADMSG_def EOVERFLOW_def ETIMEDOUT_def

section \<open>The enumeration\<close>

datatype ErrorCode =
    OK | NO_ERROR | ERROR_UNKNOWN | ERROR_NO_MEMORY | ERROR_INVALID_OPERATION
  | ERROR_BAD_VALUE | ERROR_BAD_TYPE | ERROR_NOT_FOUND | ERROR_PERMISSION_DENIED
  | ERROR_NO_INIT | ERROR_ALREADY_EXISTS | ERROR_DEAD_OBJECT | ERROR_FAILED_TRANSACTION
  | ERROR_BAD_INDEX | ERROR_NOT_ENOUGH_DATA | ERROR_WOULD_BLOCK | ERROR_TIMED_OUT
  | ERROR_UNKNOWN_TRANSACTION | ERROR_FDS_NOT_ALLOWED | ERROR_UNEXPECTED_NULL
  | ERROR_OPEN_FAIL | ERROR_PARAM_NULL | ERROR_DESTROY_FAIL | ERROR_IOCTL_FAIL

text \<open>\<open>ERROR_UNKNOWN\<close> is \<open>-2147483647-1\<close>; the platform-free codes count up from it.\<close>

definition unknown_base :: int where "unknown_base = - 2147483647 - 1"

fun error_value :: "ErrorCode \<Rightarrow> int" where
  "error_value OK = 0"
| "error_value NO_ERROR = 0"
| "error_value ERROR_UNKNOWN = unknown_base"
| "error_value ERROR_NO_MEMORY = - ENOMEM"
| "error_value ERROR_INVALID_OPERATION = - ENOSYS"
| "error_value ERROR_BAD_VALUE = - EINVAL"
| "error_value ERROR_BAD_TYPE = unknown_base + 1"
| "error_value ERROR_NOT_FOUND = - ENOENT"
| "error_value ERROR_PERMISSION_DENIED = - EPERM"
| "error_value ERROR_NO_INIT = - ENODEV"
| "error_value ERROR_ALREADY_EXISTS = - EEXIST"
| "error_value ERROR_DEAD_OBJECT = - EPIPE"
| "error_value ERROR_FAILED_TRANSACTION = unknown_base + 2"
| "error_value ERROR_BAD_INDEX = - EOVERFLOW"
| "error_value ERROR_NOT_ENOUGH_DATA = - ENODATA"
| "error_value ERROR_WOULD_BLOCK = - EWOULDBLOCK"
| "error_value ERROR_TIMED_OUT = - ETIMEDOUT"
| "error_value ERROR_UNKNOWN_TRANSACTION = - EBADMSG"
| "error_value ERROR_FDS_NOT_ALLOWED = unknown_base + 7"
| "error_value ERROR_UNEXPECTED_NULL = unknown_base + 8"
| "error_value ERROR_OPEN_FAIL = unknown_base + 9"
| "error_value ERROR_PARAM_NULL = unknown_base + 10"
| "error_value ERROR_DESTROY_FAIL = unknown_base + 11"
| "error_value ERROR_IOCTL_FAIL = unknown_base + 12"

lemmas error_value_defs = errno_defs unknown_base_def

lemma error_value_in_i32: "in_i32 (error_value e)"
  by (cases e) (simp_all add: error_value_defs machine_limits)

lemma error_value_zero: "error_value e = 0 \<longleftrightarrow> e = OK \<or> e = NO_ERROR"
  by (cases e) (simp_all add: error_value_defs)

lemma error_value_negative: "e \<noteq> OK \<Longrightarrow> e \<noteq> NO_ERROR \<Longrightarrow> error_value e < 0"
  by (cases e) (simp_all add: error_value_defs)

text \<open>
  The codes are usable as \<open>int\<close> results. Each fits in 32 bits, is at most 0, is 0
  exactly for \<open>OK\<close> and \<open>NO_ERROR\<close>, and two codes share a value only if they are equal or
  both mean success.
\<close>

theorem error_codes_distinct:
  "in_i32 (error_value e) \<and> error_value e \<le> 0 \<and>
   (error_value e = error_value f \<longleftrightarrow> e = f \<or> {e, f} = {OK, NO_ERROR})"
  by (cases e; cases f) (simp_all add: error_value_defs machine_limits doubleton_eq_iff)

end
