(* ===== verification/Thread.thy ===== *)
theory Thread
  imports Error_Code
begin

text \<open>
  \<open>Thread.h\<close>/\<open>Thread.cpp\<close>: a worker thread that calls \<open>readyToRun\<close>, then \<open>threadLoop\<close>
  until it returns false or an exit is requested, then \<open>readyToExit\<close>; and its clients, which
  start it, ask it to exit and wait for it. Each block under \<open>mLock\<close> is one step, as is each
  access the worker makes without the lock; a wait on \<open>mCondition\<close> ends a step.
\<close>

section \<open>The object\<close>

text \<open>
  A thread is identified by a number; \<open>pthread_t(-1)\<close> is \<open>None\<close>.
\<close>

record Thread =
  mThread :: "nat option"
  mThreadName :: string
  mStatus :: int
  mExitPending :: bool
  mRunning :: bool

definition Thread_new :: Thread where
  "Thread_new = \<lparr>mThread = None, mThreadName = [], mStatus = error_value NO_ERROR,
     mExitPending = False, mRunning = False\<rparr>"

text \<open>
  \<open>createThread\<close>: \<open>result\<close> is what \<open>pthread_create\<close> returns, \<open>thread\<close> the identifier it
  stores, \<open>threadId\<close> the old content of the result pointer.
\<close>

definition createThread :: "int \<Rightarrow> nat \<Rightarrow> nat option \<Rightarrow> int \<times> nat option" where
  "createThread result thread threadId = (if result \<noteq> 0 then (0, threadId) else (1, Some thread))"

definition run :: "int \<Rightarrow> nat \<Rightarrow> string \<Rightarrow> Thread \<Rightarrow> int \<times> Thread" where
  "run result thread name t =
     (if mRunning t then (error_value ERROR_INVALID_OPERATION, t)
      else
        let t1 = t\<lparr>mStatus := error_value NO_ERROR, mExitPending := False, mThread := None,
                   mThreadName := name\<rparr>;
            (res, tid) = createThread result thread (mThread t1);
            t2 = t1\<lparr>mThread := tid\<rparr>
        in if res = 0
           then (error_value ERROR_UNKNOWN,
             t2\<lparr>mStatus := error_value ERROR_UNKNOWN, mRunning := False, mThread := None\<rparr>)
           else (error_value NO_ERROR, t2))"

definition requestExit :: "Thread \<Rightarrow> Thread" where
  "requestExit t = t\<lparr>mExitPending := True\<rparr>"

definition isRunning :: "Thread \<Rightarrow> bool" where "isRunning t = mRunning t"

definition isExitPending :: "Thread \<Rightarrow> bool" where "isExitPending t = mExitPending t"

text \<open>
  A client is free, asleep or woken in one of the two waiting calls, or has the result of its
  last call.
\<close>

datatype client = Free | ExitWait | ExitWoken | JoinWait | JoinWoken | Got int

text \<open>The loop of \<open>requestExitAndWait\<close>, from the test of its condition on.\<close>

definition exit_wait :: "Thread \<Rightarrow> client \<times> Thread" where
  "exit_wait t =
     (if mRunning t = True then (ExitWait, t) else (Got (mStatus t), t\<lparr>mExitPending := False\<rparr>))"

definition requestExitAndWait :: "nat \<Rightarrow> Thread \<Rightarrow> client \<times> Thread" where
  "requestExitAndWait self t =
     (if mThread t = Some self then (Got (error_value ERROR_WOULD_BLOCK), t)
      else exit_wait (t\<lparr>mExitPending := True\<rparr>))"

definition join_wait :: "Thread \<Rightarrow> client \<times> Thread" where
  "join_wait t = (if mRunning t = True then (JoinWait, t) else (Got (mStatus t), t))"

definition join :: "nat \<Rightarrow> Thread \<Rightarrow> client \<times> Thread" where
  "join self t =
     (if mThread t = Some self then (Got (error_value ERROR_WOULD_BLOCK), t) else join_wait t)"

section \<open>The worker\<close>

text \<open>
  The program counter of \<open>_threadLoop\<close>: before \<open>mRunning = true\<close>; in the first iteration; in
  a later one; at the block under the lock with \<open>result\<close>; at the loop condition; at the final
  \<open>mRunning = false\<close>; at \<open>readyToExit\<close>; returned.
\<close>

datatype worker = Absent | Begin | First | Loop | Check bool | Test | Leave | Exit | Done

datatype callback = ReadyToRun | ThreadLoop | ReadyToExit

text \<open>
  One step of the worker: next counter, object, callbacks made, and whether \<open>mCondition\<close> is
  broadcast. \<open>r\<close> is what \<open>threadLoop\<close> returns if it is called. In the first iteration the
  call of \<open>threadLoop\<close> is commented out: the result is true whether an exit is pending or not.
\<close>

fun worker_step :: "bool \<Rightarrow> Thread \<Rightarrow> worker \<Rightarrow> (worker \<times> Thread \<times> callback list \<times> bool) option" where
  "worker_step r t Begin = Some (First, t\<lparr>mRunning := True\<rparr>, [], False)"
| "worker_step r t First =
     (let result = True;
          result = (if \<not> isExitPending t then result else result)
      in Some (Check result, t, [ReadyToRun], False))"
| "worker_step r t Loop = Some (Check r, t, [ThreadLoop], False)"
| "worker_step r t (Check result) =
     (if result = False \<or> mExitPending t
      then Some (Leave, t\<lparr>mExitPending := True, mRunning := False, mThread := None\<rparr>, [], True)
      else Some (Test, t, [], False))"
| "worker_step r t Test = Some (if mRunning t then Loop else Leave, t, [], False)"
| "worker_step r t Leave = Some (Exit, t\<lparr>mRunning := False\<rparr>, [], False)"
| "worker_step r t Exit = Some (Done, t, [ReadyToExit], False)"
| "worker_step r t Done = None"
| "worker_step r t Absent = None"

text \<open>
  A worker alone: \<open>rs\<close> are the results of the successive calls of \<open>threadLoop\<close>, \<open>n\<close> bounds
  its steps.
\<close>

fun work :: "nat \<Rightarrow> bool list \<Rightarrow> Thread \<Rightarrow> worker \<Rightarrow> callback list \<Rightarrow> (worker \<times> Thread \<times> callback list) option" where
  "work n rs t Done cbs = Some (Done, t, cbs)"
| "work 0 rs t pc cbs = Some (pc, t, cbs)"
| "work (Suc n) [] t Loop cbs = None"
| "work (Suc n) (r # rs) t Loop cbs =
     Option.bind (worker_step r t Loop) (\<lambda>(pc', t', cs, _). work n rs t' pc' (cbs @ cs))"
| "work (Suc n) rs t pc cbs =
     Option.bind (worker_step True t pc) (\<lambda>(pc', t', cs, _). work n rs t' pc' (cbs @ cs))"

section \<open>The system\<close>

record tsys =
  obj :: Thread
  workers :: "nat \<Rightarrow> worker"
  traces :: "nat \<Rightarrow> callback list"
  clients :: "nat \<Rightarrow> client"

datatype action =
    Work nat bool
  | Run nat nat int string
  | ReqExit nat
  | ExitAndWait nat
  | Join nat
  | Recheck nat
  | Spurious nat

fun wake :: "client \<Rightarrow> client" where
  "wake ExitWait = ExitWoken" | "wake JoinWait = JoinWoken" | "wake c = c"

fun can_call :: "client \<Rightarrow> bool" where
  "can_call Free = True" | "can_call (Got _) = True" | "can_call _ = False"

text \<open>A thread that is no worker and not inside a waiting call may call.\<close>

definition caller :: "tsys \<Rightarrow> nat \<Rightarrow> bool" where
  "caller s i \<longleftrightarrow> workers s i = Absent \<and> can_call (clients s i)"

definition set_client :: "nat \<Rightarrow> client \<times> Thread \<Rightarrow> tsys \<Rightarrow> tsys" where
  "set_client i r s = s\<lparr>obj := snd r, clients := (clients s)(i := fst r)\<rparr>"

fun tstep :: "action \<Rightarrow> tsys \<Rightarrow> tsys option" where
  "tstep (Work i r) s =
     (case worker_step r (obj s) (workers s i) of
        None \<Rightarrow> None
      | Some (pc, t, cbs, bc) \<Rightarrow>
          Some (s\<lparr>obj := t, workers := (workers s)(i := pc),
                  traces := (traces s)(i := traces s i @ cbs),
                  clients := (if bc then wake \<circ> clients s else clients s)\<rparr>))"
| "tstep (Run i j result name) s =
     (if caller s i \<and> workers s j = Absent \<and> clients s j = Free \<and> i \<noteq> j then
        let (c, t) = run result j name (obj s)
        in Some (s\<lparr>obj := t, clients := (clients s)(i := Got c),
             workers := (if c = error_value NO_ERROR then (workers s)(j := Begin) else workers s)\<rparr>)
      else None)"
| "tstep (ReqExit i) s = (if caller s i then Some (s\<lparr>obj := requestExit (obj s)\<rparr>) else None)"
| "tstep (ExitAndWait i) s =
     (if caller s i then Some (set_client i (requestExitAndWait i (obj s)) s) else None)"
| "tstep (Join i) s = (if caller s i then Some (set_client i (join i (obj s)) s) else None)"
| "tstep (Recheck i) s =
     (case clients s i of
        ExitWoken \<Rightarrow> Some (set_client i (exit_wait (obj s)) s)
      | JoinWoken \<Rightarrow> Some (set_client i (join_wait (obj s)) s)
      | _ \<Rightarrow> None)"
| "tstep (Spurious i) s =
     (if clients s i = ExitWait \<or> clients s i = JoinWait
      then Some (s\<lparr>clients := (clients s)(i := wake (clients s i))\<rparr>) else None)"

text \<open>
  In a \<open>strict\<close> run \<open>run\<close> is called only when every earlier worker is past its last write of
  \<open>mRunning\<close>.
\<close>

definition settled :: "worker \<Rightarrow> bool" where
  "settled pc \<longleftrightarrow> pc \<in> {Absent, Exit, Done}"

fun strict_ok :: "action \<Rightarrow> tsys \<Rightarrow> bool" where
  "strict_ok (Run i j result name) s \<longleftrightarrow> (\<forall>k. settled (workers s k))"
| "strict_ok _ s \<longleftrightarrow> True"

inductive tmove :: "bool \<Rightarrow> tsys \<Rightarrow> tsys \<Rightarrow> bool" for strict where
  tmove: "tstep a s = Some t \<Longrightarrow> strict \<longrightarrow> strict_ok a s \<Longrightarrow> tmove strict s t"

definition tstart :: tsys where
  "tstart = \<lparr>obj = Thread_new, workers = (\<lambda>_. Absent), traces = (\<lambda>_. []), clients = (\<lambda>_. Free)\<rparr>"

definition tinit :: "tsys \<Rightarrow> bool" where "tinit s \<longleftrightarrow> s = tstart"

section \<open>The callbacks of a worker\<close>

fun trace_ok :: "worker \<Rightarrow> callback list \<Rightarrow> bool" where
  "trace_ok Absent tr \<longleftrightarrow> tr = []"
| "trace_ok Begin tr \<longleftrightarrow> tr = []"
| "trace_ok First tr \<longleftrightarrow> tr = []"
| "trace_ok Done tr \<longleftrightarrow> (\<exists>n. tr = ReadyToRun # replicate n ThreadLoop @ [ReadyToExit])"
| "trace_ok _ tr \<longleftrightarrow> (\<exists>n. tr = ReadyToRun # replicate n ThreadLoop)"

definition traces_ok :: "tsys \<Rightarrow> bool" where
  "traces_ok s \<longleftrightarrow> (\<forall>i. trace_ok (workers s i) (traces s i))"

lemma replicate_snoc: "replicate n x @ [x] = replicate (Suc n) x"
  by (simp add: replicate_append_same)

lemma worker_step_trace:
  assumes "worker_step r t pc = Some (pc', t', cbs, bc)" and "trace_ok pc tr"
  shows "trace_ok pc' (tr @ cbs)"
  using assms
  by (cases pc) (auto simp: replicate_snoc simp del: replicate.simps split: if_splits)

section \<open>Kinds of actions\<close>

definition inside :: "worker \<Rightarrow> bool" where
  "inside pc \<longleftrightarrow> pc \<noteq> Begin \<and> pc \<noteq> Leave \<and> \<not> settled pc"

definition asleep :: "client \<Rightarrow> bool" where
  "asleep c \<longleftrightarrow> c = ExitWait \<or> c = JoinWait"

lemma asleep_wake [simp]: "\<not> asleep (wake c)"
  by (cases c) (auto simp: asleep_def)

lemma run_outcome:
  "run result j name t = (c, t') \<Longrightarrow>
   (c = error_value NO_ERROR \<longleftrightarrow> \<not> mRunning t \<and> result = 0) \<and> mRunning t' = mRunning t"
  by (auto simp: run_def createThread_def Let_def error_value_defs split: if_splits)

lemma waiting_outcome:
  assumes "r = requestExitAndWait i t \<or> r = join i t \<or> r = exit_wait t \<or> r = join_wait t"
  shows "mRunning (snd r) = mRunning t" and "asleep (fst r) \<Longrightarrow> mRunning t"
  using assms
  by (auto simp: requestExitAndWait_def join_def exit_wait_def join_wait_def asleep_def
      split: if_splits)

text \<open>
  An action is a step of a worker, the start of a new one, or leaves the workers and \<open>mRunning\<close>
  alone and puts a client to sleep only while \<open>mRunning\<close> is set.
\<close>

lemma tstep_cases:
  assumes "tstep a s = Some t"
  obtains
    (work) i r pc cbs bc where "a = Work i r"
      "worker_step r (obj s) (workers s i) = Some (pc, obj t, cbs, bc)"
      "workers t = (workers s)(i := pc)" "traces t = (traces s)(i := traces s i @ cbs)"
      "clients t = (if bc then wake \<circ> clients s else clients s)"
  | (start) i j result name where "a = Run i j result name" "workers s j = Absent" "\<not> mRunning (obj s)"
      "\<not> mRunning (obj t)" "workers t = (workers s)(j := Begin)" "traces t = traces s"
      "clients t = (clients s)(i := Got (error_value NO_ERROR))"
  | (client) "workers t = workers s" "traces t = traces s" "mRunning (obj t) = mRunning (obj s)"
      "\<And>c. asleep (clients t c) \<Longrightarrow> asleep (clients s c) \<or> mRunning (obj s)"
proof (cases a)
  case (Work i r)
  with assms obtain pc o' cbs bc where "worker_step r (obj s) (workers s i) = Some (pc, o', cbs, bc)"
    by (auto split: option.splits)
  with Work assms show thesis by (intro work) auto
next
  case (Run i j result name)
  obtain c t' where r: "run result j name (obj s) = (c, t')" by fastforce
  note out = run_outcome [OF r]
  show thesis
  proof (cases "c = error_value NO_ERROR")
    case True
    with Run assms r out show thesis by (intro start) (auto split: if_splits)
  next
    case False
    with Run assms r out show thesis by (intro client) (auto simp: asleep_def split: if_splits)
  qed
next
  case (ReqExit i)
  with assms show thesis by (intro client) (auto simp: requestExit_def split: if_splits)
next
  case (ExitAndWait i)
  with assms waiting_outcome [of "requestExitAndWait i (obj s)" i "obj s"] show thesis
    by (intro client) (auto simp: set_client_def split: if_splits)
next
  case (Join i)
  with assms waiting_outcome [of "join i (obj s)" i "obj s"] show thesis
    by (intro client) (auto simp: set_client_def split: if_splits)
next
  case (Recheck i)
  with assms waiting_outcome [of "exit_wait (obj s)" i "obj s"]
    waiting_outcome [of "join_wait (obj s)" i "obj s"] show thesis
    by (intro client) (auto simp: set_client_def split: if_splits client.splits)
next
  case (Spurious i)
  with assms show thesis by (intro client) (auto simp: asleep_def split: if_splits)
qed

lemma traces_ok_step:
  assumes inv: "traces_ok s" and step: "tmove strict s t"
  shows "traces_ok t"
proof -
  from step obtain a where "tstep a s = Some t" by (auto elim: tmove.cases)
  then show ?thesis
  proof (cases rule: tstep_cases)
    case (work i r pc cbs bc)
    with inv worker_step_trace [OF work(2), of "traces s i"] show ?thesis
      by (simp add: traces_ok_def)
  next
    case (start i j result name)
    then have "traces s j = []" using inv by (metis traces_ok_def trace_ok.simps(1))
    with start inv show ?thesis by (simp add: traces_ok_def)
  next
    case client
    with inv show ?thesis by (simp add: traces_ok_def)
  qed
qed

interpretation callbacks: invariant_system tinit "tmove strict" traces_ok for strict
proof
  show "traces_ok s" if "tinit s" for s
    using that by (simp add: tinit_def tstart_def traces_ok_def)
qed (rule traces_ok_step)

section \<open>Strict runs\<close>

definition strict_inv :: "tsys \<Rightarrow> bool" where
  "strict_inv s \<longleftrightarrow>
     (\<forall>i j. \<not> settled (workers s i) \<longrightarrow> \<not> settled (workers s j) \<longrightarrow> i = j) \<and>
     (mRunning (obj s) \<longleftrightarrow> (\<exists>i. inside (workers s i))) \<and>
     (\<forall>c. asleep (clients s c) \<longrightarrow> mRunning (obj s))"

lemma inside_live: "inside pc \<Longrightarrow> \<not> settled pc" by (simp add: inside_def)

text \<open>What a step of the only live worker does to \<open>mRunning\<close>.\<close>

lemma worker_step_running:
  assumes "worker_step r t pc = Some (pc', t', cbs, bc)" and "mRunning t \<longleftrightarrow> inside pc"
  shows "mRunning t' \<longleftrightarrow> inside pc'" and "\<not> bc \<Longrightarrow> mRunning t \<Longrightarrow> mRunning t'"
    and "\<not> settled pc \<or> (settled pc' \<and> t' = t \<and> \<not> bc)"
  using assms by (cases pc; auto simp: inside_def settled_def split: if_splits)+

lemma settled_alone:
  "strict_inv s \<Longrightarrow> \<not> settled (workers s i) \<Longrightarrow> k \<noteq> i \<Longrightarrow> settled (workers s k)"
  by (auto simp: strict_inv_def)

lemma running_iff_inside:
  assumes "strict_inv s" and "\<not> settled (workers s i)"
  shows "mRunning (obj s) \<longleftrightarrow> inside (workers s i)"
  using assms settled_alone [OF assms] inside_live by (metis strict_inv_def)

lemma strict_inv_work:
  assumes inv: "strict_inv s" and w: "worker_step r (obj s) (workers s i) = Some (pc, obj t, cbs, bc)"
    and t: "workers t = (workers s)(i := pc)" "clients t = (if bc then wake \<circ> clients s else clients s)"
  shows "strict_inv t"
proof (cases "settled (workers s i)")
  case True
  then have "settled pc" "obj t = obj s" "\<not> bc"
    using w by (cases "workers s i"; auto simp: settled_def)+
  then show ?thesis using inv t True
    by (auto simp: strict_inv_def inside_def)
next
  case False
  note run = worker_step_running [OF w running_iff_inside [OF inv False]]
  have one: "settled (workers t k)" if "k \<noteq> i" for k
    using settled_alone [OF inv False that] that t by simp
  have "mRunning (obj t) \<longleftrightarrow> (\<exists>k. inside (workers t k))"
    using run(1) one t by (metis fun_upd_same inside_live)
  moreover have "mRunning (obj t)" if "asleep (clients t c)" for c
    using that inv run(2) t by (cases bc) (auto simp: strict_inv_def)
  moreover have "j = k" if "\<not> settled (workers t j)" "\<not> settled (workers t k)" for j k
    using one that by metis
  ultimately show ?thesis unfolding strict_inv_def by blast
qed

lemma strict_inv_step:
  assumes inv: "strict_inv s" and step: "tmove True s t"
  shows "strict_inv t"
proof -
  from step obtain a where a: "tstep a s = Some t" and ok: "strict_ok a s" by (auto elim: tmove.cases)
  show ?thesis using a
  proof (cases rule: tstep_cases)
    case (work i r pc cbs bc)
    then show ?thesis using strict_inv_work [OF inv] by blast
  next
    case (start i j result name)
    have "settled (workers s k)" for k using ok start(1) by simp
    then show ?thesis using start inv
      by (auto simp: strict_inv_def inside_def asleep_def)
  next
    case client
    then show ?thesis using inv by (auto simp: strict_inv_def)
  qed
qed

interpretation strictly: invariant_system tinit "tmove True" strict_inv
proof
  show "strict_inv s" if "tinit s" for s
    using that
    by (simp add: tinit_def tstart_def strict_inv_def inside_def settled_def asleep_def Thread_new_def)
qed (rule strict_inv_step)

section \<open>A worker alone\<close>

lemma work_loops:
  "mRunning t \<Longrightarrow> \<not> mExitPending t \<Longrightarrow>
   work (3 * k + 4) (replicate k True @ False # rs) t Loop cbs =
     Some (Done, t\<lparr>mExitPending := True, mRunning := False, mThread := None\<rparr>,
       cbs @ replicate (Suc k) ThreadLoop @ [ReadyToExit])"
proof (induction k arbitrary: cbs)
  case 0
  show ?case by (simp add: numeral_eq_Suc)
next
  case (Suc k)
  have "work (3 * Suc k + 4) (replicate (Suc k) True @ False # rs) t Loop cbs =
    work (3 * k + 4) (replicate k True @ False # rs) t Loop (cbs @ [ThreadLoop])"
    using Suc.prems by (simp add: numeral_eq_Suc)
  then show ?case using Suc by simp
qed

lemma worker_steps:
  assumes "\<not> mExitPending t"
  shows "work (3 * k + 8) (replicate k True @ False # rs) t Begin [] =
     Some (Done, t\<lparr>mExitPending := True, mRunning := False, mThread := None\<rparr>,
       ReadyToRun # replicate (Suc k) ThreadLoop @ [ReadyToExit])"
proof -
  have "work (3 * k + 8) (replicate k True @ False # rs) t Begin [] =
      work (3 * k + 4) (replicate k True @ False # rs) (t\<lparr>mRunning := True\<rparr>) Loop [ReadyToRun]"
    using assms by (simp add: numeral_eq_Suc Let_def)
  then show ?thesis using work_loops [of "t\<lparr>mRunning := True\<rparr>" k] assms by simp
qed

text \<open>
  A worker whose \<open>threadLoop\<close> returns true \<open>k\<close> times and then false, and
  that nobody asks to exit, ends after \<open>3k + 8\<close> steps of its own: it called \<open>readyToRun\<close> once,
  \<open>threadLoop\<close> \<open>k + 1\<close> times and \<open>readyToExit\<close> once, in this order, and is no longer running.
\<close>

theorem worker_runs:
  assumes "\<not> mExitPending t"
  shows "work (3 * k + 8) (replicate k True @ False # rs) t Begin [] =
     Some (Done, t\<lparr>mExitPending := True, mRunning := False, mThread := None\<rparr>,
       ReadyToRun # replicate (Suc k) ThreadLoop @ [ReadyToExit])"
  using assms by (rule worker_steps)

theorem worker_runs_witness:
  "work 14 [True, True, False] Thread_new Begin [] =
     Some (Done, Thread_new\<lparr>mExitPending := True, mRunning := False, mThread := None\<rparr>,
       [ReadyToRun, ThreadLoop, ThreadLoop, ThreadLoop, ReadyToExit])"
  using worker_runs [of Thread_new 2 "[]"] by (simp add: Thread_new_def numeral_eq_Suc)

text \<open>
  An exit request that is pending ends the worker wherever it is, in at most
  six steps of its own and with at most one more call of \<open>threadLoop\<close>; a worker that had not
  begun never calls it.
\<close>

theorem worker_stops:
  assumes "mExitPending t" and "pc \<noteq> Absent"
  shows "\<exists>t' cbs. work 6 (r # rs) t pc [] = Some (Done, t', cbs) \<and> (pc = Done \<or> \<not> mRunning t' \<or> pc = Exit) \<and>
    length (filter (\<lambda>c. c = ThreadLoop) cbs) \<le> 1 \<and> (pc = Begin \<longrightarrow> cbs = [ReadyToRun, ReadyToExit])"
  using assms by (cases pc; cases "mRunning t") (auto simp: numeral_eq_Suc Let_def)

theorem worker_stops_witness:
  "\<exists>t' cbs. work 6 [True] (requestExit Thread_new) Begin [] = Some (Done, t', cbs) \<and>
     cbs = [ReadyToRun, ReadyToExit]"
  using worker_stops [of "requestExit Thread_new" Begin True "[]"]
  by (auto simp: requestExit_def)

section \<open>Properties of the system\<close>

text \<open>
  C16 (invariant): in every reachable state, with any clients and any number of calls of \<open>run\<close>,
  each worker's callbacks are in order: \<open>readyToRun\<close> first, then calls of \<open>threadLoop\<close>, then
  \<open>readyToExit\<close> exactly when it is done.
\<close>

theorem callback_order:
  assumes "reach tinit (tmove strict) s"
  shows "trace_ok (workers s i) (traces s i)"
  using callbacks.reach_inv [OF assms] by (simp add: traces_ok_def)

text \<open>
  A run of one worker with a client that joins it.
\<close>

definition joined_run :: "action list" where
  "joined_run = [Run 0 1 0 ''w'', Work 1 True, Work 1 True, Work 1 True, Work 1 True, Join 0,
     Work 1 False, Work 1 True, Recheck 0]"

definition state_after :: "action list \<Rightarrow> tsys" where
  "state_after as = the (perform tstep as tstart)"

lemma reach_perform:
  assumes "perform tstep as tstart \<noteq> None"
  shows "reach tinit (tmove False) (state_after as)"
proof -
  have "reach tinit (tmove False) tstart" by (rule reach_init) (simp add: tinit_def)
  then show ?thesis
    using assms perform_reach [of tinit "tmove False" tstart tstep as] tmove
    by (fastforce simp: state_after_def)
qed

lemmas run_eval = tstart_def Thread_new_def run_def createThread_def join_def join_wait_def
  requestExitAndWait_def exit_wait_def requestExit_def set_client_def caller_def error_value_defs Let_def
  comp_def

theorem callback_order_witness:
  "traces (state_after joined_run) 1 = [ReadyToRun, ThreadLoop] \<and>
   trace_ok (workers (state_after joined_run) 1) (traces (state_after joined_run) 1)"
proof
  have p: "perform tstep joined_run tstart \<noteq> None" by (simp add: joined_run_def run_eval)
  show "traces (state_after joined_run) 1 = [ReadyToRun, ThreadLoop]"
    by (simp add: joined_run_def state_after_def run_eval)
  show "trace_ok (workers (state_after joined_run) 1) (traces (state_after joined_run) 1)"
    by (rule callback_order [OF reach_perform [OF p]])
qed

fun is_run :: "action \<Rightarrow> bool" where
  "is_run (Run i j result name) = True" | "is_run _ = False"

text \<open>A run with a single call of \<open>run\<close> is strict.\<close>

lemma perform_strict:
  assumes "reach tinit (tmove True) s" and "list_all (\<lambda>a. \<not> is_run a) as"
    and "perform tstep as s = Some t"
  shows "reach tinit (tmove True) t"
proof (rule perform_reach [OF assms(1,3)])
  fix a u v assume "a \<in> set as" and "tstep a u = Some v"
  moreover from this assms(2) have "\<not> is_run a" by (simp add: list_all_iff)
  then have "strict_ok a u" by (cases a) simp_all
  ultimately show "tmove True u v" by (intro tmove) auto
qed

lemma reach_single_run:
  assumes "list_all (\<lambda>a. \<not> is_run a) as" and "perform tstep (Run 0 1 0 name # as) tstart \<noteq> None"
  shows "reach tinit (tmove True) (state_after (Run 0 1 0 name # as))"
proof -
  from assms(2) obtain u t where u: "tstep (Run 0 1 0 name) tstart = Some u" "perform tstep as u = Some t"
    by (auto simp: bind_eq_Some_conv)
  have "strict_ok (Run 0 1 0 name) tstart" by (simp add: tstart_def settled_def)
  then have "tmove True tstart u" using tmove [OF u(1)] by blast
  then have "reach tinit (tmove True) u" by (intro reach_step [OF reach_init]) (simp add: tinit_def)
  from perform_strict [OF this assms(1) u(2)] u show ?thesis by (simp add: state_after_def)
qed


lemma joined_run_evaluated:
  "perform tstep joined_run tstart \<noteq> None" "clients (state_after joined_run) 0 = Got 0"
  "workers (state_after joined_run) 1 = Leave" "traces (state_after joined_run) 1 = [ReadyToRun, ThreadLoop]"
  by (simp_all add: joined_run_def state_after_def run_eval)

lemma joined_run_strict: "reach tinit (tmove True) (state_after joined_run)"
  using reach_single_run [of "tl joined_run" "''w''"] joined_run_evaluated(1)
  by (simp add: joined_run_def)


text \<open>
  Even in strict runs, \<open>join\<close> can return 0 while the worker has still to
  write \<open>mRunning\<close> and to call \<open>readyToExit\<close> on the object, which its owner may then delete;
  and \<open>requestExitAndWait\<close> called before the worker began returns 0 at once and withdraws the
  request: the worker is then found inside its loop with no exit pending.
\<close>

theorem exit_races:
  "(\<exists>s. reach tinit (tmove True) s \<and> clients s 0 = Got 0 \<and> workers s 1 = Leave \<and>
      ReadyToExit \<notin> set (traces s 1)) \<and>
   (\<exists>t. reach tinit (tmove True) t \<and> clients t 0 = Got 0 \<and> workers t 1 = Loop \<and>
      \<not> mExitPending (obj t))"
proof
  show "\<exists>s. reach tinit (tmove True) s \<and> clients s 0 = Got 0 \<and> workers s 1 = Leave \<and>
      ReadyToExit \<notin> set (traces s 1)"
    using joined_run_strict joined_run_evaluated by (intro exI [of _ "state_after joined_run"]) simp
next
  let ?as = "[ExitAndWait 0, Work 1 True, Work 1 True, Work 1 True, Work 1 True]"
  have "perform tstep (Run 0 1 0 [] # ?as) tstart \<noteq> None" by (simp add: run_eval)
  from reach_single_run [OF _ this] have "reach tinit (tmove True) (state_after (Run 0 1 0 [] # ?as))" by simp
  moreover have "clients (state_after (Run 0 1 0 [] # ?as)) 0 = Got 0 \<and>
      workers (state_after (Run 0 1 0 [] # ?as)) 1 = Loop \<and> \<not> mExitPending (obj (state_after (Run 0 1 0 [] # ?as)))"
    by (simp add: state_after_def run_eval)
  ultimately show "\<exists>t. reach tinit (tmove True) t \<and> clients t 0 = Got 0 \<and> workers t 1 = Loop \<and>
      \<not> mExitPending (obj t)" by blast
qed

definition double_run :: "action list" where
  "double_run = [Run 0 1 0 [], Run 5 2 0 [], Work 1 True, Work 1 True, Work 1 True, Work 1 True,
     Work 2 True, Work 2 True, Work 2 True, Work 2 True]"

definition restart_run :: "action list" where
  "restart_run = [Run 0 1 0 [], Work 1 True, Work 1 True, Work 1 True, Work 1 True, ReqExit 0,
     Work 1 True, Work 1 True, Run 0 2 0 [], Work 2 True, Join 0, Work 1 True, Work 2 True,
     Work 2 True, Work 2 True, Work 2 True, Work 2 True, Work 1 True]"

lemma double_start:
  "reach tinit (tmove False) (state_after double_run)" "clients (state_after double_run) 0 = Got 0"
  "clients (state_after double_run) 5 = Got 0" "workers (state_after double_run) 1 = Loop"
  "workers (state_after double_run) 2 = Loop"
proof -
  show "reach tinit (tmove False) (state_after double_run)"
    by (rule reach_perform) (simp add: double_run_def run_eval)
qed (simp_all add: double_run_def state_after_def run_eval)

lemma restart_reached: "reach tinit (tmove False) (state_after restart_run)"
  by (rule reach_perform) (simp add: restart_run_def run_eval)

text \<open>
  C19 (safety): strictness is needed, and no call enforces it. \<open>mRunning\<close> is set by the
  worker, not by \<open>run\<close>: two calls of \<open>run\<close> in a row both return 0 and start two workers that
  run \<open>threadLoop\<close> at the same time. And the last write \<open>mRunning = false\<close> is made without the
  lock, after the broadcast: a restart in between is accepted, the write then hits the new
  worker, which leaves after \<open>readyToRun\<close> although no exit was requested and \<open>threadLoop\<close> never
  ran, and a client that joined it sleeps with nobody left to wake it.
\<close>

theorem restart_races:
  "(\<exists>s. reach tinit (tmove False) s \<and> clients s 0 = Got 0 \<and> clients s 5 = Got 0 \<and>
     workers s 1 = Loop \<and> workers s 2 = Loop) \<and>
   (\<exists>s. reach tinit (tmove False) s \<and> clients s 0 = JoinWait \<and> \<not> mRunning (obj s) \<and>
     \<not> mExitPending (obj s) \<and> workers s 1 = Done \<and> workers s 2 = Done \<and>
     {i. workers s i \<noteq> Absent} = {1, 2} \<and> traces s 2 = [ReadyToRun, ReadyToExit])"
proof
  show "\<exists>s. reach tinit (tmove False) s \<and> clients s 0 = Got 0 \<and> clients s 5 = Got 0 \<and>
     workers s 1 = Loop \<and> workers s 2 = Loop"
    using double_start by blast
next
  show "\<exists>s. reach tinit (tmove False) s \<and> clients s 0 = JoinWait \<and> \<not> mRunning (obj s) \<and>
     \<not> mExitPending (obj s) \<and> workers s 1 = Done \<and> workers s 2 = Done \<and>
     {i. workers s i \<noteq> Absent} = {1, 2} \<and> traces s 2 = [ReadyToRun, ReadyToExit]"
  proof (intro exI conjI)
    show "reach tinit (tmove False) (state_after restart_run)" by (rule restart_reached)
  qed (simp_all add: restart_run_def state_after_def run_eval, auto)
qed

end
