(* ===== verification/Thread_Codes.thy ===== *)
theory Thread_Codes
  imports Thread
begin

text \<open>
  What the clients of a thread object can be told: the codes its calls return, and whose identity it
  stores, when the identity of a worker that has ended may be given to a new thread.
\<close>

section \<open>Identities used again\<close>

text \<open>
  The numbers of theory \<open>Thread\<close> are identities. \<open>pthread_create\<close> may give that of an ended, detached
  worker to a new thread, which may then be a client of the same object.
\<close>

definition reuse :: "nat \<Rightarrow> tsys \<Rightarrow> tsys option" where
  "reuse i s = (if workers s i = Done
     then Some (s\<lparr>workers := (workers s)(i := Absent), traces := (traces s)(i := [])\<rparr>) else None)"

inductive idmove :: "bool \<Rightarrow> tsys \<Rightarrow> tsys \<Rightarrow> bool" for strict where
  own_move: "tmove strict s t \<Longrightarrow> idmove strict s t"
| reused: "reuse i s = Some t \<Longrightarrow> idmove strict s t"

section \<open>The invariant\<close>

definition run_codes :: "int set" where
  "run_codes = {error_value NO_ERROR, error_value ERROR_UNKNOWN}"

definition client_codes :: "int set" where
  "client_codes = insert (error_value ERROR_INVALID_OPERATION) run_codes"

text \<open>The stored identity is that of a worker that has still to pass the block under the lock.\<close>

definition before_exit :: "worker \<Rightarrow> bool" where
  "before_exit pc \<longleftrightarrow> pc = Begin \<or> inside pc"

definition object_typed :: "tsys \<Rightarrow> bool" where
  "object_typed s \<longleftrightarrow> mStatus (obj s) \<in> run_codes \<and> (\<forall>j. mThread (obj s) = Some j \<longrightarrow> before_exit (workers s j))"

definition codes_typed :: "tsys \<Rightarrow> bool" where
  "codes_typed s \<longleftrightarrow> object_typed s \<and> (\<forall>i c. clients s i = Got c \<longrightarrow> c \<in> client_codes)"

lemma wake_Got [simp]: "wake c = Got n \<longleftrightarrow> c = Got n"
  by (cases c) simp_all

lemma worker_step_object:
  assumes "worker_step r t pc = Some (pc', t', cbs, bc)"
  shows "mStatus t' = mStatus t" and "mThread t' = Some j \<Longrightarrow> mThread t = Some j"
    and "mThread t' \<noteq> None \<Longrightarrow> mRunning t \<longleftrightarrow> inside pc \<Longrightarrow> before_exit pc \<Longrightarrow> before_exit pc'"
  using assms by (cases pc; auto simp: Let_def before_exit_def inside_def settled_def split: if_splits)+

lemma before_exit_simps [simp]: "before_exit Begin" "\<not> before_exit Absent" "\<not> before_exit Done"
  by (simp_all add: before_exit_def inside_def settled_def)

text \<open>A call on the object by a client.\<close>

lemma set_client_typed:
  assumes "codes_typed s" and "mStatus (snd r) = mStatus (obj s)" and "mThread (snd r) = mThread (obj s)"
    and "\<And>c. fst r = Got c \<Longrightarrow> c \<in> client_codes"
  shows "codes_typed (set_client i r s)"
  using assms by (auto simp: codes_typed_def object_typed_def set_client_def)

lemma status_code: "object_typed s \<Longrightarrow> mStatus (obj s) \<in> client_codes"
  by (simp add: object_typed_def client_codes_def)

lemma codes_typed_step:
  assumes inv: "codes_typed s" "strict_inv s" and step: "tstep a s = Some t"
  shows "codes_typed t"
proof (cases a)
  case (Work i r)
  with step obtain pc o' cbs bc where w: "worker_step r (obj s) (workers s i) = Some (pc, o', cbs, bc)"
    "t = s\<lparr>obj := o', workers := (workers s)(i := pc), traces := (traces s)(i := traces s i @ cbs),
       clients := (if bc then wake \<circ> clients s else clients s)\<rparr>"
    by (auto split: option.splits)
  note o = worker_step_object [OF w(1)]
  have "before_exit (workers t j)" if "mThread o' = Some j" for j
  proof (cases "j = i")
    case True
    have b: "before_exit (workers s i)"
      using inv(1) o(2) [OF that] True by (simp add: codes_typed_def object_typed_def)
    then have "\<not> settled (workers s i)" by (auto simp: before_exit_def inside_def settled_def)
    from o(3) [OF _ running_iff_inside [OF inv(2) this] b] that True w(2) show ?thesis by simp
  next
    case False
    with inv(1) o(2) [OF that] w(2) show ?thesis by (simp add: codes_typed_def object_typed_def)
  qed
  with o(1) w(2) inv(1) show ?thesis by (auto simp: codes_typed_def object_typed_def)
next
  case (Run i j result name)
  obtain c t' where r: "run result j name (obj s) = (c, t')" by fastforce
  then have "c \<in> client_codes" "mStatus t' \<in> run_codes \<or> t' = obj s"
    "mThread t' = None \<or> t' = obj s \<or> mThread t' = Some j \<and> c = error_value NO_ERROR"
    by (auto simp: run_def createThread_def Let_def client_codes_def run_codes_def split: if_splits)
  with Run step r inv show ?thesis
    by (auto simp: codes_typed_def object_typed_def split: if_splits)
next
  case (ReqExit i)
  with step inv show ?thesis
    by (auto simp: codes_typed_def object_typed_def requestExit_def split: if_splits)
next
  case (ExitAndWait i)
  then have c: "workers s i = Absent" "t = set_client i (requestExitAndWait i (obj s)) s"
    using step by (auto simp: caller_def split: if_splits)
  then have "mThread (obj s) \<noteq> Some i" using inv(1) by (auto simp: codes_typed_def object_typed_def)
  then have r: "requestExitAndWait i (obj s) = exit_wait ((obj s)\<lparr>mExitPending := True\<rparr>)"
    by (simp add: requestExitAndWait_def)
  show ?thesis unfolding c(2) r
    by (rule set_client_typed [OF inv(1)]) (use inv status_code [of s] in \<open>auto simp: exit_wait_def codes_typed_def split: if_splits\<close>)
next
  case (Join i)
  then have c: "workers s i = Absent" "t = set_client i (join i (obj s)) s"
    using step by (auto simp: caller_def split: if_splits)
  then have "mThread (obj s) \<noteq> Some i" using inv(1) by (auto simp: codes_typed_def object_typed_def)
  then have r: "join i (obj s) = join_wait (obj s)" by (simp add: join_def)
  show ?thesis unfolding c(2) r
    by (rule set_client_typed [OF inv(1)]) (use inv status_code [of s] in \<open>auto simp: join_wait_def codes_typed_def split: if_splits\<close>)
next
  case (Recheck i)
  then have "t = set_client i (exit_wait (obj s)) s \<or> t = set_client i (join_wait (obj s)) s"
    using step by (auto split: client.splits)
  moreover have "codes_typed (set_client i (exit_wait (obj s)) s)" "codes_typed (set_client i (join_wait (obj s)) s)"
    by (rule set_client_typed [OF inv(1)];
        use inv status_code [of s] in \<open>auto simp: exit_wait_def join_wait_def codes_typed_def split: if_splits\<close>)+
  ultimately show ?thesis by blast
next
  case (Spurious i)
  with step inv show ?thesis
    by (auto simp: codes_typed_def object_typed_def split: if_splits)
qed

lemma reuse_typed:
  assumes inv: "codes_typed s" "strict_inv s" and r: "reuse i s = Some t"
  shows "codes_typed t \<and> strict_inv t"
proof -
  have d: "workers s i = Done" "t = s\<lparr>workers := (workers s)(i := Absent), traces := (traces s)(i := [])\<rparr>"
    using r by (auto simp: reuse_def split: if_splits)
  have "before_exit (workers t j)" if "mThread (obj s) = Some j" for j
  proof -
    have "before_exit (workers s j)" using inv(1) that by (simp add: codes_typed_def object_typed_def)
    with d show ?thesis by (cases "j = i") simp_all
  qed
  then have "codes_typed t" using inv(1) d by (simp add: codes_typed_def object_typed_def)
  moreover have "strict_inv t"
  proof -
    have "settled (workers t k) = settled (workers s k)" "inside (workers t k) = inside (workers s k)" for k
      using d by (simp_all add: settled_def inside_def)
    moreover have "obj t = obj s" "clients t = clients s" using d(2) by simp_all
    ultimately show ?thesis using inv(2) unfolding strict_inv_def by simp blast
  qed
  ultimately show ?thesis by blast
qed

interpretation typed: invariant_system tinit "idmove True" "\<lambda>s. codes_typed s \<and> strict_inv s"
proof
  show "codes_typed s \<and> strict_inv s" if "tinit s" for s
    using that strictly.init_inv [OF that]
    by (simp add: tinit_def tstart_def codes_typed_def object_typed_def Thread_new_def run_codes_def)
  show "codes_typed t \<and> strict_inv t" if inv: "codes_typed s \<and> strict_inv s" and step: "idmove True s t" for s t
    using step
  proof cases
    case own_move
    then obtain a where "tstep a s = Some t" by (auto elim: tmove.cases)
    with inv own_move show ?thesis using codes_typed_step strict_inv_step by blast
  next
    case (reused i)
    with inv reuse_typed show ?thesis by blast
  qed
qed

section \<open>Properties\<close>

text \<open>
  C18 (type): in every run that calls \<open>run\<close> only after earlier workers wrote \<open>mRunning\<close> for the last
  time, and in which the identities of ended workers are given to new threads, which may call as
  clients, each call a client finished has returned \<open>NO_ERROR\<close>, \<open>ERROR_UNKNOWN\<close> or
  \<open>ERROR_INVALID_OPERATION\<close>. No client is told \<open>ERROR_WOULD_BLOCK\<close>, also none that has the identity of
  an earlier worker: the object forgets the identity in the block in which the worker leaves its loop.
  Until then the worker's own calls of \<open>join\<close> and \<open>requestExitAndWait\<close> get that code at once.
\<close>

theorem thread_codes:
  assumes "reach tinit (idmove True) s"
  shows "(\<forall>i. clients s i \<noteq> Got (error_value ERROR_WOULD_BLOCK)) \<and>
    (\<forall>i c. clients s i = Got c \<longrightarrow>
      c \<in> {error_value NO_ERROR, error_value ERROR_UNKNOWN, error_value ERROR_INVALID_OPERATION}) \<and>
    (\<forall>j. mThread (obj s) = Some j \<longrightarrow> before_exit (workers s j) \<and>
      join j (obj s) = (Got (error_value ERROR_WOULD_BLOCK), obj s) \<and>
      requestExitAndWait j (obj s) = (Got (error_value ERROR_WOULD_BLOCK), obj s))"
proof -
  have inv: "codes_typed s" using typed.reach_inv [OF assms] by blast
  have "error_value ERROR_WOULD_BLOCK \<notin> client_codes"
    by (simp add: client_codes_def run_codes_def error_value_defs)
  with inv have "\<forall>i. clients s i \<noteq> Got (error_value ERROR_WOULD_BLOCK)" unfolding codes_typed_def by blast
  moreover have "\<forall>i c. clients s i = Got c \<longrightarrow>
      c \<in> {error_value NO_ERROR, error_value ERROR_UNKNOWN, error_value ERROR_INVALID_OPERATION}"
    using inv by (auto simp: codes_typed_def client_codes_def run_codes_def)
  moreover have "\<forall>j. mThread (obj s) = Some j \<longrightarrow> before_exit (workers s j)"
    using inv by (simp add: codes_typed_def object_typed_def)
  ultimately show ?thesis by (simp add: join_def requestExitAndWait_def)
qed

text \<open>A worker runs to its end, its identity is given to a new thread, and that thread calls \<open>join\<close>.\<close>

lemma reused_call:
  assumes "reach tinit (tmove strict) s" and "reuse i s = Some u" and "tstep a u = Some t" and "\<not> is_run a"
  shows "reach tinit (idmove strict) t"
proof -
  have "reach tinit (idmove strict) s" by (rule reach_mono [OF assms(1)]) (rule own_move)
  moreover have "idmove strict s u" using assms(2) by (rule reused)
  moreover have "strict \<longrightarrow> strict_ok a u" using assms(4) by (cases a) simp_all
  with assms(3) have "idmove strict u t" by (intro own_move tmove)
  ultimately show ?thesis by (blast intro: reach_step)
qed

definition ended_run :: "action list" where
  "ended_run = [Run 0 1 0 ''w'', Work 1 True, Work 1 True, Work 1 True, Work 1 True, Work 1 False, Work 1 True,
     Work 1 True, Work 1 True]"

lemma ended_run_evaluated:
  "perform tstep ended_run tstart \<noteq> None" "workers (state_after ended_run) 1 = Done"
  "clients (state_after ended_run) 1 = Free" "mThread (obj (state_after ended_run)) = None"
  "mRunning (obj (state_after ended_run)) = False" "mStatus (obj (state_after ended_run)) = 0"
  by (simp_all add: ended_run_def state_after_def run_eval)

lemma ended_run_strict: "reach tinit (tmove True) (state_after ended_run)"
  using reach_single_run [of "tl ended_run" "''w''"] ended_run_evaluated(1) by (simp add: ended_run_def)

lemma joins_again:
  assumes "workers s i = Done" and "clients s i = Free" and "mThread (obj s) \<noteq> Some i" and "\<not> mRunning (obj s)"
  shows "\<exists>u t. reuse i s = Some u \<and> tstep (Join i) u = Some t \<and> clients t i = Got (mStatus (obj s))"
  using assms by (simp add: reuse_def caller_def set_client_def join_def join_wait_def)

theorem thread_codes_witness:
  "\<exists>s. reach tinit (idmove True) s \<and> clients s 1 = Got 0 \<and> clients s 1 \<noteq> Got (error_value ERROR_WOULD_BLOCK)"
proof -
  obtain u t where t: "reuse 1 (state_after ended_run) = Some u" "tstep (Join 1) u = Some t" "clients t 1 = Got 0"
    using joins_again [of "state_after ended_run" 1] ended_run_evaluated(2-6) by auto
  have r: "reach tinit (idmove True) t" by (rule reused_call [OF ended_run_strict t(1,2)]) simp
  from thread_codes [OF r] r t(3) show ?thesis by blast
qed

text \<open>
  The restriction is needed: after the accepted restart of \<open>restart_races\<close> the second worker leaves by
  the loop condition and the object keeps its identity; a new thread that gets it and calls \<open>join\<close> is
  told \<open>ERROR_WOULD_BLOCK\<close>.
\<close>

lemma kept_identity:
  "\<exists>s. reach tinit (idmove False) s \<and> workers s 2 = Absent \<and> clients s 2 = Got (error_value ERROR_WOULD_BLOCK)"
proof -
  have e: "workers (state_after restart_run) 2 = Done" "clients (state_after restart_run) 2 = Free"
    "mThread (obj (state_after restart_run)) = Some 2"
    by (simp_all add: restart_run_def state_after_def run_eval)
  then obtain u t where t: "reuse 2 (state_after restart_run) = Some u" "tstep (Join 2) u = Some t"
    "workers t 2 = Absent" "clients t 2 = Got (error_value ERROR_WOULD_BLOCK)"
    by (simp add: reuse_def caller_def set_client_def join_def)
  from reused_call [OF restart_reached t(1,2)] t(3,4) show ?thesis by auto
qed

end
