(* ===== verification/Queue.thy ===== *)
theory Queue
  imports Error_Code
begin

text \<open>
  The bounded blocking queue of \<open>Queue.h\<close>/\<open>Queue.cpp\<close>, on an explicit heap of its list
  cells. Each private operation (\<open>_pushElement\<close>, \<open>_popElement\<close>, \<open>_peekElement\<close>,
  \<open>_flushElements\<close>, \<open>_init\<close>, \<open>_release\<close>) and each public one is a definition. The
  pthread library is a parameter: the results of \<open>pthread_mutex_lock\<close> and \<open>_unlock\<close>, the
  pointer \<open>calloc\<close> returns, and what other threads did to the queue during each
  \<open>pthread_cond_wait\<close>.
\<close>

section \<open>Data\<close>

datatype QErros =
    Q_OK | Q_ERR_INVALID | Q_ERR_LOCK | Q_ERR_MEM | Q_ERR_NONEWDATA
  | Q_ERR_INVALID_ELEMENT | Q_ERR_INVALID_CB | Q_ERR_NUM_ELEMENTS

fun qerr :: "QErros \<Rightarrow> int" where
  "qerr Q_OK = 0"
| "qerr Q_ERR_INVALID = -1"
| "qerr Q_ERR_LOCK = -2"
| "qerr Q_ERR_MEM = -3"
| "qerr Q_ERR_NONEWDATA = -4"
| "qerr Q_ERR_INVALID_ELEMENT = -5"
| "qerr Q_ERR_INVALID_CB = -6"
| "qerr Q_ERR_NUM_ELEMENTS = -7"

record Element =
  edata :: addr
  enext :: addr

type_synonym heap = "addr \<rightharpoonup> Element"
type_synonym comparator = "addr \<Rightarrow> addr \<Rightarrow> int"

text \<open>
  The calls the queue makes on its condition variables, recorded in the order they are made:
  \<open>pthread_cond_signal\<close> and \<open>pthread_cond_broadcast\<close> on \<open>mCondGet\<close> and \<open>mCondPut\<close>.
\<close>

datatype wakeup = SignalGet | SignalPut | BroadcastGet | BroadcastPut

text \<open>
  The object. \<open>cells\<close> is the memory the queue obtained from \<open>calloc\<close> and has not freed.
  A null \<open>cmpEleFun\<close> is \<open>None\<close>.
\<close>

record Queue =
  cells :: heap
  mUsedFirstElement :: addr
  mUsedLastElement :: addr
  mUsedElementCnts :: "32 word"
  mCapability :: "32 word"
  mAllowedNewData :: bool
  mSort :: bool
  mAscendingOrder :: bool
  cmpEleFun :: "comparator option"
  wakeups :: "wakeup list"

section \<open>Construction\<close>

definition queue_init :: Queue where
  "queue_init = \<lparr> cells = Map.empty, mUsedFirstElement = NULL, mUsedLastElement = NULL,
     mUsedElementCnts = 0, mCapability = 2147483647 - 1, mAllowedNewData = True,
     mSort = False, mAscendingOrder = True, cmpEleFun = None, wakeups = [] \<rparr>"

definition set_capacity :: "32 word \<Rightarrow> Queue \<Rightarrow> Queue" where
  "set_capacity maxElement q = (if 0 < maxElement then q\<lparr>mCapability := maxElement\<rparr> else q)"

definition set_order :: "bool \<Rightarrow> comparator option \<Rightarrow> Queue \<Rightarrow> Queue" where
  "set_order ascendingOrder cmp q =
     (case cmp of
        None \<Rightarrow> q
      | Some f \<Rightarrow> q\<lparr>mSort := True, mAscendingOrder := ascendingOrder, cmpEleFun := Some f\<rparr>)"

definition Queue_new :: Queue where
  "Queue_new = queue_init"

definition Queue_new_max :: "32 word \<Rightarrow> Queue" where
  "Queue_new_max maxElement = set_capacity maxElement queue_init"

definition Queue_new_sorted :: "bool \<Rightarrow> comparator option \<Rightarrow> Queue" where
  "Queue_new_sorted ascendingOrder cmp = set_order ascendingOrder cmp queue_init"

definition Queue_new_max_sorted :: "32 word \<Rightarrow> bool \<Rightarrow> comparator option \<Rightarrow> Queue" where
  "Queue_new_max_sorted maxElement ascendingOrder cmp =
     set_order ascendingOrder cmp (set_capacity maxElement queue_init)"

section \<open>Memory accesses\<close>

text \<open>
  A dereference of a pointer that is null or not allocated is undefined behaviour: \<open>None\<close>.
\<close>

definition next_of :: "heap \<Rightarrow> addr \<Rightarrow> addr option" where
  "next_of h p = map_option enext (h p)"

definition data_of :: "heap \<Rightarrow> addr \<Rightarrow> addr option" where
  "data_of h p = map_option edata (h p)"

definition set_next :: "heap \<Rightarrow> addr \<Rightarrow> addr \<Rightarrow> heap option" where
  "set_next h p n = map_option (\<lambda>e. h(p \<mapsto> e\<lparr>enext := n\<rparr>)) (h p)"

definition free_cell :: "heap \<Rightarrow> addr \<Rightarrow> heap option" where
  "free_cell h p = (if h p = None then None else Some (h(p := None)))"

section \<open>Waiting on a condition variable\<close>

text \<open>
  \<open>while (c) pthread_cond_wait(\<dots>)\<close>: each element of \<open>envs\<close> is what the other threads did to
  the queue between one call of \<open>pthread_cond_wait\<close> and its return. When \<open>envs\<close> is used up
  and the condition still holds, the thread is asleep.
\<close>

fun wait_while :: "(Queue \<Rightarrow> bool) \<Rightarrow> (Queue \<Rightarrow> Queue) list \<Rightarrow> Queue \<Rightarrow> (unit, Queue) outcome" where
  "wait_while c [] q = (if c q then Asleep q else Returned () q)"
| "wait_while c (e # es) q = (if c q then wait_while c es (e q) else Returned () q)"

section \<open>Inserting an element\<close>

text \<open>The two tests of \<open>_pushElement\<close> that decide on a place in a sorted queue.\<close>

definition goes_first :: "bool \<Rightarrow> comparator \<Rightarrow> addr \<Rightarrow> addr \<Rightarrow> bool" where
  "goes_first asc cmp s x \<longleftrightarrow>
     (let asc_first_el = (asc = True \<and> cmp s x \<ge> 0);
          desc_first_el = (asc = False \<and> cmp s x \<le> 0)
      in asc_first_el \<or> desc_first_el)"

definition fits_between :: "bool \<Rightarrow> comparator \<Rightarrow> addr \<Rightarrow> addr \<Rightarrow> addr \<Rightarrow> bool" where
  "fits_between asc cmp s x t \<longleftrightarrow>
     (asc = True \<and> cmp s x \<le> 0 \<and> cmp x t \<le> 0) \<or>
     (asc = False \<and> cmp s x \<ge> 0 \<and> cmp x t \<ge> 0)"

text \<open>
  The \<open>for\<close> loop: \<open>s\<close> and \<open>t\<close> walk the list until the element fits between them or \<open>t\<close> is
  null. The result is the final \<open>(s, t)\<close>.
\<close>

partial_function (option) find_slot ::
  "heap \<Rightarrow> bool \<Rightarrow> comparator \<Rightarrow> addr \<Rightarrow> addr \<Rightarrow> addr \<Rightarrow> (addr \<times> addr) option" where
  "find_slot h asc cmp x s t =
     (if s \<noteq> NULL \<and> t \<noteq> NULL then
        do {
          sd \<leftarrow> data_of h s;
          td \<leftarrow> data_of h t;
          (if fits_between asc cmp sd x td then Some (s, t)
           else do { t' \<leftarrow> next_of h t; find_slot h asc cmp x t t' })
        }
      else Some (s, t))"

text \<open>Linking an allocated cell \<open>newEle\<close>, whose data is \<open>ele\<close>, into the list.\<close>

definition append_cell :: "addr \<Rightarrow> Queue \<Rightarrow> Queue option" where
  "append_cell newEle q =
     (if mUsedLastElement q = NULL then
        Some (q\<lparr>mUsedFirstElement := newEle, mUsedLastElement := newEle\<rparr>)
      else do {
        h \<leftarrow> set_next (cells q) (mUsedLastElement q) newEle;
        Some (q\<lparr>cells := h, mUsedLastElement := newEle\<rparr>)
      })"

definition insert_sorted_cell :: "addr \<Rightarrow> addr \<Rightarrow> Queue \<Rightarrow> Queue option" where
  "insert_sorted_cell newEle ele q = do {
     cmp \<leftarrow> cmpEleFun q;
     sd \<leftarrow> data_of (cells q) (mUsedFirstElement q);
     (if goes_first (mAscendingOrder q) cmp sd ele then do {
        h \<leftarrow> set_next (cells q) newEle (mUsedFirstElement q);
        Some (q\<lparr>cells := h, mUsedFirstElement := newEle\<rparr>)
      }
      else do {
        t0 \<leftarrow> next_of (cells q) (mUsedFirstElement q);
        (s, t) \<leftarrow> find_slot (cells q) (mAscendingOrder q) cmp ele (mUsedFirstElement q) t0;
        h1 \<leftarrow> set_next (cells q) s newEle;
        h2 \<leftarrow> set_next h1 newEle t;
        Some (if t = NULL then q\<lparr>cells := h2, mUsedLastElement := newEle\<rparr> else q\<lparr>cells := h2\<rparr>)
      })
   }"

text \<open>
  \<open>_pushElement\<close> from the allocation on: \<open>newEle\<close> is the pointer \<open>calloc\<close> returns.
\<close>

definition insertElement :: "addr \<Rightarrow> addr \<Rightarrow> Queue \<Rightarrow> (int \<times> Queue) option" where
  "insertElement newEle ele q =
     (if newEle = NULL then Some (qerr Q_ERR_MEM, q)
      else do {
        let q1 = q\<lparr>cells := (cells q)(newEle \<mapsto> \<lparr>edata = ele, enext = NULL\<rparr>)\<rparr>;
        q2 \<leftarrow> (if \<not> mSort q1 \<or> mUsedFirstElement q1 = NULL then append_cell newEle q1
               else insert_sorted_cell newEle ele q1);
        Some (qerr Q_OK, q2\<lparr>mUsedElementCnts := mUsedElementCnts q2 + 1,
                            wakeups := wakeups q2 @ [SignalGet]\<rparr>)
      })"

definition lift_ret :: "(int \<times> Queue) option \<Rightarrow> (int, Queue) outcome option" where
  "lift_ret r = map_option (\<lambda>(c, q). Returned c q) r"

text \<open>The branch of \<open>_pushElement\<close> that waits for room, from the head of its loop.\<close>

definition pushWaitLoop ::
  "addr \<Rightarrow> addr \<Rightarrow> (Queue \<Rightarrow> Queue) list \<Rightarrow> Queue \<Rightarrow> (int, Queue) outcome option" where
  "pushWaitLoop newEle ele envs q =
     (case wait_while (\<lambda>q. mUsedElementCnts q = mCapability q \<and> mAllowedNewData q) envs q of
        Asleep q' \<Rightarrow> Some (Asleep q')
      | Returned _ q' \<Rightarrow>
          if mAllowedNewData q' = False then Some (Returned (qerr Q_ERR_NONEWDATA) q')
          else lift_ret (insertElement newEle ele q'))"

definition pushElement ::
  "addr \<Rightarrow> addr \<Rightarrow> bool \<Rightarrow> (Queue \<Rightarrow> Queue) list \<Rightarrow> Queue \<Rightarrow> (int, Queue) outcome option" where
  "pushElement newEle ele isWait envs q =
     (if mAllowedNewData q = False then Some (Returned (qerr Q_ERR_NONEWDATA) q)
      else if mUsedElementCnts q = mCapability q then
        (if isWait = False then Some (Returned (qerr Q_ERR_NUM_ELEMENTS) q)
         else pushWaitLoop newEle ele envs q)
      else lift_ret (insertElement newEle ele q))"

section \<open>Removing an element\<close>

text \<open>
  The search loop of \<open>_popElement\<close>: \<open>cmp\<close> is applied to the list cell itself, as the code
  does (\<open>cmp(ele, cmpEle)\<close>, not \<open>ele->data\<close>). The result is \<open>(elePrev, ele)\<close>.
\<close>

partial_function (option) find_match ::
  "heap \<Rightarrow> comparator option \<Rightarrow> addr \<Rightarrow> addr \<Rightarrow> addr \<Rightarrow> (addr \<times> addr) option" where
  "find_match h cmp cmpEle elePrev ele =
     (case cmp of
        None \<Rightarrow> Some (elePrev, ele)
      | Some f \<Rightarrow>
          if ele \<noteq> NULL \<and> 0 \<noteq> f ele cmpEle then
            do { n \<leftarrow> next_of h ele; find_match h cmp cmpEle ele n }
          else Some (elePrev, ele))"

text \<open>
  \<open>_popElement\<close> after the waiting: find the cell, unlink it and free it. The result holds the
  return code and the new content of \<open>*e\<close>. As in the code, the middle case leaves
  \<open>mUsedLastElement\<close> alone.
\<close>

definition removeElement ::
  "comparator option \<Rightarrow> addr \<Rightarrow> Queue \<Rightarrow> ((int \<times> addr) \<times> Queue) option" where
  "removeElement cmp cmpEle q = do {
     (elePrev, ele) \<leftarrow> find_match (cells q) cmp cmpEle NULL (mUsedFirstElement q);
     (if ele \<noteq> NULL \<and> elePrev = NULL then do {
        d \<leftarrow> data_of (cells q) (mUsedFirstElement q);
        n \<leftarrow> next_of (cells q) (mUsedFirstElement q);
        h \<leftarrow> free_cell (cells q) ele;
        Some ((qerr Q_OK, d),
          q\<lparr>cells := h, mUsedFirstElement := n, mUsedElementCnts := mUsedElementCnts q - 1,
            mUsedLastElement := (if n = NULL then NULL else mUsedLastElement q),
            wakeups := wakeups q @ [SignalPut]\<rparr>)
      }
      else if ele \<noteq> NULL \<and> elePrev \<noteq> NULL then do {
        n \<leftarrow> next_of (cells q) ele;
        h1 \<leftarrow> set_next (cells q) elePrev n;
        d \<leftarrow> data_of h1 ele;
        h2 \<leftarrow> free_cell h1 ele;
        Some ((qerr Q_OK, d),
          q\<lparr>cells := h2, mUsedElementCnts := mUsedElementCnts q - 1,
            wakeups := wakeups q @ [SignalPut]\<rparr>)
      }
      else Some ((qerr Q_ERR_INVALID_ELEMENT, NULL), q))
   }"

definition lift_pop ::
  "((int \<times> addr) \<times> Queue) option \<Rightarrow> (int \<times> addr, Queue) outcome option" where
  "lift_pop r = map_option (\<lambda>(c, q). Returned c q) r"

text \<open>The waiting branch; \<open>e0\<close> is the content of \<open>*e\<close> at the call.\<close>

definition popWaitLoop ::
  "addr \<Rightarrow> (Queue \<Rightarrow> Queue) list \<Rightarrow> comparator option \<Rightarrow> addr \<Rightarrow> Queue
   \<Rightarrow> (int \<times> addr, Queue) outcome option" where
  "popWaitLoop e0 envs cmp cmpEle q =
     (case wait_while (\<lambda>q. mUsedElementCnts q = 0 \<and> mAllowedNewData q) envs q of
        Asleep q' \<Rightarrow> Some (Asleep q')
      | Returned _ q' \<Rightarrow>
          if mUsedElementCnts q' = 0 \<and> mAllowedNewData q' = False
          then Some (Returned (qerr Q_ERR_NONEWDATA, e0) q')
          else lift_pop (removeElement cmp cmpEle q'))"

definition popElement ::
  "addr \<Rightarrow> bool \<Rightarrow> (Queue \<Rightarrow> Queue) list \<Rightarrow> comparator option \<Rightarrow> addr \<Rightarrow> Queue
   \<Rightarrow> (int \<times> addr, Queue) outcome option" where
  "popElement e0 isWait envs cmp cmpEle q =
     (if mUsedElementCnts q = 0 then
        (if isWait = False then Some (Returned (qerr Q_ERR_NUM_ELEMENTS, NULL) q)
         else popWaitLoop e0 envs cmp cmpEle q)
      else lift_pop (removeElement cmp cmpEle q))"

section \<open>Peeking and flushing\<close>

text \<open>The loop \<open>while (ele != NULL && elePos++ < pos)\<close>, from position \<open>elePos\<close>.\<close>

partial_function (option) peek_walk :: "heap \<Rightarrow> int \<Rightarrow> int \<Rightarrow> addr \<Rightarrow> addr option" where
  "peek_walk h pos elePos ele =
     (if ele \<noteq> NULL \<and> elePos < pos then
        do { n \<leftarrow> next_of h ele; peek_walk h pos (elePos + 1) n }
      else Some ele)"

definition peekElement :: "addr \<Rightarrow> int \<Rightarrow> Queue \<Rightarrow> ((int \<times> addr) \<times> Queue) option" where
  "peekElement e0 pos q =
     (if mUsedElementCnts q = 0 then Some ((qerr Q_ERR_INVALID_ELEMENT, e0), q)
      else do {
        ele \<leftarrow> peek_walk (cells q) pos 0 (mUsedFirstElement q);
        (if ele = NULL then Some ((qerr Q_ERR_INVALID_ELEMENT, e0), q)
         else do { d \<leftarrow> data_of (cells q) ele; Some ((qerr Q_OK, d), q) })
      })"

text \<open>
  The loop of \<open>_flushElements\<close>. The callback works on the caller's data \<open>u\<close>; a null
  callback is \<open>None\<close>.
\<close>

partial_function (option) flush_loop ::
  "('u \<Rightarrow> addr \<Rightarrow> 'u) option \<Rightarrow> 'u \<Rightarrow> heap \<Rightarrow> addr \<Rightarrow> ('u \<times> heap) option" where
  "flush_loop fcb u h first =
     (if first \<noteq> NULL then do {
        n \<leftarrow> next_of h first;
        d \<leftarrow> data_of h first;
        h' \<leftarrow> free_cell h first;
        flush_loop fcb (case fcb of None \<Rightarrow> u | Some f \<Rightarrow> f u d) h' n
      }
      else Some (u, h))"

definition flushElements ::
  "'u \<Rightarrow> ('u \<Rightarrow> addr \<Rightarrow> 'u) option \<Rightarrow> Queue \<Rightarrow> ((int \<times> 'u) \<times> Queue) option" where
  "flushElements u fcb q = do {
     (u', h) \<leftarrow> flush_loop fcb u (cells q) (mUsedFirstElement q);
     Some ((qerr Q_OK, u'),
       q\<lparr>cells := h, mUsedFirstElement := NULL, mUsedLastElement := NULL,
         mUsedElementCnts := 0\<rparr>)
   }"

section \<open>The public interface\<close>

text \<open>
  \<open>lk\<close> and \<open>ulk\<close> are the results of \<open>pthread_mutex_lock\<close> and \<open>pthread_mutex_unlock\<close>.
  \<open>locked lk ulk body\<close> is the frame every operation has: lock, body, unlock; a failing lock
  skips the body, a failing unlock replaces its result.
\<close>

definition lock_rc :: "int \<Rightarrow> int" where
  "lock_rc rc = (if 0 \<noteq> rc then qerr Q_ERR_LOCK else qerr Q_OK)"

definition push :: "int \<Rightarrow> int \<Rightarrow> addr \<Rightarrow> addr \<Rightarrow> Queue \<Rightarrow> (int, Queue) outcome option" where
  "push lk ulk newEle ele q =
     (if qerr Q_OK \<noteq> lock_rc lk then Some (Returned (qerr Q_ERR_LOCK) q)
      else map_option
        (\<lambda>r. case r of Asleep q' \<Rightarrow> Asleep q'
             | Returned ret q' \<Rightarrow>
                 if qerr Q_OK \<noteq> lock_rc ulk then Returned (qerr Q_ERR_LOCK) q' else Returned ret q')
        (pushElement newEle ele False [] q))"

definition pushAndWait ::
  "int \<Rightarrow> int \<Rightarrow> addr \<Rightarrow> addr \<Rightarrow> (Queue \<Rightarrow> Queue) list \<Rightarrow> Queue \<Rightarrow> (int, Queue) outcome option" where
  "pushAndWait lk ulk newEle ele envs q =
     (if qerr Q_OK \<noteq> lock_rc lk then Some (Returned (qerr Q_ERR_LOCK) q)
      else map_option
        (\<lambda>r. case r of Asleep q' \<Rightarrow> Asleep q'
             | Returned ret q' \<Rightarrow>
                 if qerr Q_OK \<noteq> lock_rc ulk then Returned (qerr Q_ERR_LOCK) q' else Returned ret q')
        (pushElement newEle ele True envs q))"

definition pop :: "int \<Rightarrow> int \<Rightarrow> addr \<Rightarrow> Queue \<Rightarrow> (int \<times> addr, Queue) outcome option" where
  "pop lk ulk e0 q =
     (if qerr Q_OK \<noteq> lock_rc lk then Some (Returned (qerr Q_ERR_LOCK, e0) q)
      else map_option
        (\<lambda>r. case r of Asleep q' \<Rightarrow> Asleep q'
             | Returned (ret, e) q' \<Rightarrow>
                 if qerr Q_OK \<noteq> lock_rc ulk then Returned (qerr Q_ERR_LOCK, e) q'
                 else Returned (ret, e) q')
        (popElement e0 False [] None NULL q))"

definition popAndWait ::
  "int \<Rightarrow> int \<Rightarrow> (Queue \<Rightarrow> Queue) list \<Rightarrow> Queue \<Rightarrow> (int \<times> addr, Queue) outcome option" where
  "popAndWait lk ulk envs q =
     (if qerr Q_OK \<noteq> lock_rc lk then Some (Returned (qerr Q_ERR_LOCK, NULL) q)
      else map_option
        (\<lambda>r. case r of Asleep q' \<Rightarrow> Asleep q'
             | Returned (ret, e) q' \<Rightarrow>
                 if qerr Q_OK \<noteq> lock_rc ulk then Returned (qerr Q_ERR_LOCK, e) q'
                 else Returned (ret, e) q')
        (popElement NULL True envs None NULL q))"

definition peek :: "int \<Rightarrow> int \<Rightarrow> int \<Rightarrow> Queue \<Rightarrow> ((int \<times> addr) \<times> Queue) option" where
  "peek lk ulk pos q =
     (if qerr Q_OK \<noteq> lock_rc lk then Some ((qerr Q_ERR_LOCK, NULL), q)
      else map_option
        (\<lambda>((ret, e), q').
           if qerr Q_OK \<noteq> lock_rc ulk then ((qerr Q_ERR_LOCK, e), q') else ((ret, e), q'))
        (peekElement NULL pos q))"

definition flushAndCallback ::
  "int \<Rightarrow> int \<Rightarrow> 'u \<Rightarrow> ('u \<Rightarrow> addr \<Rightarrow> 'u) option \<Rightarrow> Queue \<Rightarrow> ((int \<times> 'u) \<times> Queue) option" where
  "flushAndCallback lk ulk u fcb q =
     (if qerr Q_OK \<noteq> lock_rc lk then Some ((qerr Q_ERR_LOCK, u), q)
      else map_option
        (\<lambda>((ret, u'), q').
           if qerr Q_OK \<noteq> lock_rc ulk then ((qerr Q_ERR_LOCK, u'), q') else ((ret, u'), q'))
        (flushElements u fcb q))"

definition flush :: "int \<Rightarrow> int \<Rightarrow> Queue \<Rightarrow> (int \<times> Queue) option" where
  "flush lk ulk q =
     (if qerr Q_OK \<noteq> lock_rc lk then Some (qerr Q_ERR_LOCK, q)
      else map_option
        (\<lambda>((ret, _), q'). if qerr Q_OK \<noteq> lock_rc ulk then (qerr Q_ERR_LOCK, q') else (ret, q'))
        (flushElements () None q))"

text \<open>The \<open>uint32_t\<close> counter is converted to the signed result.\<close>

definition getCnt :: "int \<Rightarrow> int \<Rightarrow> Queue \<Rightarrow> int" where
  "getCnt lk ulk q =
     (if qerr Q_OK \<noteq> lock_rc lk then qerr Q_ERR_LOCK
      else let cnt = sint (mUsedElementCnts q)
           in if qerr Q_OK \<noteq> lock_rc ulk then qerr Q_ERR_LOCK else cnt)"

definition isEmpty :: "Queue \<Rightarrow> bool" where
  "isEmpty q = (if mUsedFirstElement q = NULL \<or> mUsedLastElement q = NULL then True else False)"

text \<open>
  \<open>setAllowedNewData\<close> reads the flag again after it released the mutex, to decide about the
  broadcasts: \<open>notify_refused\<close> is that second part.
\<close>

definition notify_refused :: "Queue \<Rightarrow> Queue" where
  "notify_refused q =
     (if mAllowedNewData q = False then q\<lparr>wakeups := wakeups q @ [BroadcastGet, BroadcastPut]\<rparr>
      else q)"

definition setAllowedNewData :: "int \<Rightarrow> int \<Rightarrow> bool \<Rightarrow> Queue \<Rightarrow> int \<times> Queue" where
  "setAllowedNewData lk ulk allowed q =
     (if qerr Q_OK \<noteq> lock_rc lk then (qerr Q_ERR_LOCK, q)
      else let q1 = q\<lparr>mAllowedNewData := allowed\<rparr>
           in if qerr Q_OK \<noteq> lock_rc ulk then (qerr Q_ERR_LOCK, q1)
              else (qerr Q_OK, notify_refused q1))"

text \<open>The error code is returned through a \<open>bool\<close>: any nonzero code is \<open>true\<close>.\<close>

definition isAllowedNewData :: "int \<Rightarrow> int \<Rightarrow> Queue \<Rightarrow> bool" where
  "isAllowedNewData lk ulk q =
     (if qerr Q_OK \<noteq> lock_rc lk then qerr Q_ERR_LOCK \<noteq> 0
      else let allowed = mAllowedNewData q
           in if qerr Q_OK \<noteq> lock_rc ulk then qerr Q_ERR_LOCK \<noteq> 0 else allowed)"

section \<open>Destruction\<close>

text \<open>
  The loop on \<open>pthread_mutex_destroy\<close>: \<open>rcs\<close> are its successive results; \<open>None\<close> when it is
  still busy after all of them.
\<close>

fun destroy_mutex :: "int list \<Rightarrow> int option" where
  "destroy_mutex [] = None"
| "destroy_mutex (rc # rcs) = (if EBUSY = rc then destroy_mutex rcs else Some rc)"

text \<open>
  \<open>_release\<close>: the results of locking and unlocking are overwritten, so the operation goes on
  after a failure. \<open>slk\<close> and \<open>sulk\<close> are those of the inner \<open>setAllowedNewData\<close>. The results of
  destroying the condition variables are dropped too; theory \<open>Queue_Destroy\<close> has these calls as steps.
\<close>

definition release :: "int \<Rightarrow> int \<Rightarrow> int list \<Rightarrow> Queue \<Rightarrow> (int \<times> Queue) option" where
  "release slk sulk rcs q = do {
     let q1 = snd (setAllowedNewData slk sulk False q);
     (_, q2) \<leftarrow> flushElements () None q1;
     rc \<leftarrow> destroy_mutex rcs;
     Some (rc, q2\<lparr>mUsedFirstElement := NULL, mUsedLastElement := NULL\<rparr>)
   }"

end
