(* ===== verification/Queue_Refine.thy ===== *)
theory Queue_Refine
  imports Queue
begin

text \<open>
  The heap-level queue implements an abstract one: a list of element pointers with a capacity,
  an accepting flag and an optional ordering. The representation invariant \<open>queue_ok\<close> says that
  the cells form one acyclic list from \<open>mUsedFirstElement\<close> to \<open>mUsedLastElement\<close>, that nothing
  else is allocated, and that the counter is the length.
\<close>

named_theorems queue_simps \<open>unfolding rules of the queue operations\<close>

section \<open>The abstract queue\<close>

record aqueue =
  items :: "addr list"
  room :: nat
  accepting :: bool
  ordering :: "(bool \<times> comparator) option"

fun place_after :: "bool \<Rightarrow> comparator \<Rightarrow> addr \<Rightarrow> addr list \<Rightarrow> addr list" where
  "place_after asc cmp x [] = [x]"
| "place_after asc cmp x [s] = [s, x]"
| "place_after asc cmp x (s # t # ts) =
     (if fits_between asc cmp s x t then s # x # t # ts else s # place_after asc cmp x (t # ts))"

fun place :: "(bool \<times> comparator) option \<Rightarrow> addr \<Rightarrow> addr list \<Rightarrow> addr list" where
  "place None x xs = xs @ [x]"
| "place (Some (asc, cmp)) x [] = [x]"
| "place (Some (asc, cmp)) x (s # ss) =
     (if goes_first asc cmp s x then x # s # ss else place_after asc cmp x (s # ss))"

definition spec_insert :: "bool \<Rightarrow> addr \<Rightarrow> aqueue \<Rightarrow> int \<times> aqueue" where
  "spec_insert mem x A =
     (if \<not> mem then (qerr Q_ERR_MEM, A)
      else (qerr Q_OK, A\<lparr>items := place (ordering A) x (items A)\<rparr>))"

definition spec_push :: "bool \<Rightarrow> addr \<Rightarrow> aqueue \<Rightarrow> int \<times> aqueue" where
  "spec_push mem x A =
     (if \<not> accepting A then (qerr Q_ERR_NONEWDATA, A)
      else if length (items A) = room A then (qerr Q_ERR_NUM_ELEMENTS, A)
      else spec_insert mem x A)"

fun spec_pop :: "aqueue \<Rightarrow> (int \<times> addr) \<times> aqueue" where
  "spec_pop A =
     (case items A of
        [] \<Rightarrow> ((qerr Q_ERR_NUM_ELEMENTS, NULL), A)
      | x # xs \<Rightarrow> ((qerr Q_OK, x), A\<lparr>items := xs\<rparr>))"

definition spec_peek :: "addr \<Rightarrow> int \<Rightarrow> aqueue \<Rightarrow> int \<times> addr" where
  "spec_peek e0 pos A =
     (if nat pos < length (items A) then (qerr Q_OK, items A ! nat pos)
      else (qerr Q_ERR_INVALID_ELEMENT, e0))"

lemma length_place_after [simp]: "length (place_after asc cmp x xs) = Suc (length xs)"
  by (induction asc cmp x xs rule: place_after.induct) auto

lemma length_place [simp]: "length (place ord x xs) = Suc (length xs)"
  by (cases "(ord, x, xs)" rule: place.cases) auto

section \<open>Lists in the heap\<close>

fun chain :: "heap \<Rightarrow> addr \<Rightarrow> addr list \<Rightarrow> addr \<Rightarrow> bool" where
  "chain h p [] z \<longleftrightarrow> p = z"
| "chain h p (a # as) z \<longleftrightarrow>
     p = a \<and> a \<noteq> NULL \<and> (case h a of None \<Rightarrow> False | Some e \<Rightarrow> chain h (enext e) as z)"

definition cell_data :: "heap \<Rightarrow> addr \<Rightarrow> addr" where
  "cell_data h a = (case h a of None \<Rightarrow> NULL | Some e \<Rightarrow> edata e)"

definition datas :: "heap \<Rightarrow> addr list \<Rightarrow> addr list" where
  "datas h as = map (cell_data h) as"

definition head_or_null :: "addr list \<Rightarrow> addr" where
  "head_or_null as = (case as of [] \<Rightarrow> NULL | a # _ \<Rightarrow> a)"

lemma head_or_null_simps [simp]: "head_or_null [] = NULL" "head_or_null (a # as) = a"
  by (simp_all add: head_or_null_def)

lemma datas_simps [simp]:
  "datas h [] = []" "datas h (a # as) = cell_data h a # datas h as"
  "datas h (as @ bs) = datas h as @ datas h bs" "length (datas h as) = length as"
  by (simp_all add: datas_def)

lemma chain_append:
  "chain h p (as @ bs) z \<longleftrightarrow> (\<exists>y. chain h p as y \<and> chain h y bs z)"
  by (induction as arbitrary: p) (auto split: option.splits)

lemma chain_upd [simp]: "a \<notin> set as \<Longrightarrow> chain (h(a := v)) p as z = chain h p as z"
  by (induction as arbitrary: p) (auto split: option.splits)

lemma datas_upd [simp]: "a \<notin> set as \<Longrightarrow> datas (h(a := v)) as = datas h as"
  by (induction as) (auto simp: cell_data_def)

lemma chain_head: "chain h p as NULL \<Longrightarrow> p = head_or_null as"
  by (cases as) auto

lemma chain_null [simp]: "chain h NULL as NULL \<longleftrightarrow> as = []"
  by (cases as) auto

lemma chain_nonnull: "chain h p as z \<Longrightarrow> NULL \<notin> set as"
  by (induction as arbitrary: p) (auto split: option.splits)

lemma chain_in_dom: "chain h p as z \<Longrightarrow> set as \<subseteq> dom h"
  by (induction as arbitrary: p) (auto split: option.splits)

lemma chain_unique: "chain h p as NULL \<Longrightarrow> chain h p bs NULL \<Longrightarrow> as = bs"
proof (induction as arbitrary: p bs)
  case Nil
  then show ?case by (cases bs) auto
next
  case (Cons a as)
  then show ?case by (cases bs) (auto split: option.splits)
qed

lemma chain_distinct: "chain h p as NULL \<Longrightarrow> distinct as"
proof (induction as arbitrary: p)
  case Nil
  then show ?case by simp
next
  case (Cons a as)
  from Cons.prems obtain e where e: "h a = Some e" "a \<noteq> NULL" "chain h (enext e) as NULL"
    by (auto split: option.splits)
  have "a \<notin> set as"
  proof
    assume "a \<in> set as"
    then obtain bs cs where as: "as = bs @ a # cs" by (meson split_list)
    with e have "chain h (enext e) (bs @ a # cs) NULL" "chain h (enext e) cs NULL"
      by (auto simp: chain_append)
    then have "bs @ a # cs = cs" by (rule chain_unique)
    then have "length (bs @ a # cs) = length cs" by simp
    then show False by simp
  qed
  with e Cons.IH show ?case by auto
qed

text \<open>Linking a new cell after \<open>s\<close>.\<close>

lemma chain_splice:
  assumes "chain h p (pre @ s # post) NULL" and "h s = Some e"
    and "new \<notin> set (pre @ s # post)" and "new \<noteq> NULL"
  shows "chain (h(s \<mapsto> e\<lparr>enext := new\<rparr>, new \<mapsto> \<lparr>edata = x, enext = head_or_null post\<rparr>))
    p (pre @ s # new # post) NULL"
proof -
  have dist: "distinct (pre @ s # post)" using assms(1) by (rule chain_distinct)
  have post: "chain h (enext e) post NULL" and pre: "chain h p pre s" and "s \<noteq> NULL"
    using assms(1,2) by (auto simp: chain_append)
  moreover have "enext e = head_or_null post" using post by (rule chain_head)
  ultimately show ?thesis
    using dist assms(3,4) by (auto simp: chain_append)
qed

lemma datas_splice:
  assumes "distinct (pre @ s # post)" and "h s = Some e"
    and "new \<notin> set (pre @ s # post)"
  shows "datas (h(s \<mapsto> e\<lparr>enext := n\<rparr>, new \<mapsto> \<lparr>edata = x, enext = t\<rparr>)) (pre @ s # new # post) =
    datas h (pre @ [s]) @ x # datas h post"
  using assms by (auto simp: cell_data_def)

section \<open>The representation invariant and the abstraction function\<close>

fun addrs_from :: "nat \<Rightarrow> heap \<Rightarrow> addr \<Rightarrow> addr list" where
  "addrs_from 0 h p = []"
| "addrs_from (Suc n) h p =
     p # (case h p of None \<Rightarrow> addrs_from n h NULL | Some e \<Rightarrow> addrs_from n h (enext e))"

definition addrs :: "Queue \<Rightarrow> addr list" where
  "addrs q = addrs_from (unat (mUsedElementCnts q)) (cells q) (mUsedFirstElement q)"

definition queue_wf :: "Queue \<Rightarrow> addr list \<Rightarrow> bool" where
  "queue_wf q as \<longleftrightarrow>
     chain (cells q) (mUsedFirstElement q) as NULL \<and>
     mUsedLastElement q = (if as = [] then NULL else last as) \<and>
     dom (cells q) = set as \<and>
     unat (mUsedElementCnts q) = length as \<and>
     length as \<le> unat (mCapability q) \<and>
     (mSort q \<longrightarrow> cmpEleFun q \<noteq> None)"

definition queue_ok :: "Queue \<Rightarrow> bool" where
  "queue_ok q \<longleftrightarrow> queue_wf q (addrs q)"

definition order_of :: "Queue \<Rightarrow> (bool \<times> comparator) option" where
  "order_of q = (if mSort q then map_option (Pair (mAscendingOrder q)) (cmpEleFun q) else None)"

definition contents :: "Queue \<Rightarrow> addr list" where
  "contents q = datas (cells q) (addrs q)"

definition abs_queue :: "Queue \<Rightarrow> aqueue" where
  "abs_queue q = \<lparr> items = contents q, room = unat (mCapability q),
     accepting = mAllowedNewData q, ordering = order_of q \<rparr>"

lemma addrs_from_chain: "chain h p as NULL \<Longrightarrow> addrs_from (length as) h p = as"
  by (induction as arbitrary: p) (auto split: option.splits)

lemma queue_wf_addrs: "queue_wf q as \<Longrightarrow> addrs q = as"
  by (simp add: queue_wf_def addrs_def addrs_from_chain)

lemma queue_okI [intro]: "queue_wf q as \<Longrightarrow> queue_ok q"
  by (simp add: queue_ok_def queue_wf_addrs)

lemma queue_okE [elim]:
  assumes "queue_ok q" obtains as where "queue_wf q as" "addrs q = as"
  using assms by (auto simp: queue_ok_def)

lemma contents_wf: "queue_wf q as \<Longrightarrow> contents q = datas (cells q) as"
  by (simp add: contents_def queue_wf_addrs)

lemma abs_queue_wf:
  "queue_wf q as \<Longrightarrow> abs_queue q = \<lparr> items = datas (cells q) as, room = unat (mCapability q),
     accepting = mAllowedNewData q, ordering = order_of q \<rparr>"
  by (simp add: abs_queue_def contents_wf)

lemma queue_wf_count:
  assumes "queue_wf q as"
  shows "mUsedElementCnts q = mCapability q \<longleftrightarrow> length as = unat (mCapability q)"
    and "mUsedElementCnts q = 0 \<longleftrightarrow> as = []"
    and "mUsedFirstElement q = head_or_null as"
    and "mUsedFirstElement q = NULL \<longleftrightarrow> as = []"
    and "mUsedLastElement q = NULL \<longleftrightarrow> as = []"
proof -
  have wf: "chain (cells q) (mUsedFirstElement q) as NULL"
    "unat (mUsedElementCnts q) = length as"
    "mUsedLastElement q = (if as = [] then NULL else last as)"
    using assms by (auto simp: queue_wf_def)
  have nn: "NULL \<notin> set as" using wf(1) by (rule chain_nonnull)
  show "mUsedElementCnts q = mCapability q \<longleftrightarrow> length as = unat (mCapability q)"
    using wf(2) by (metis word_unat_eq_iff)
  show "mUsedElementCnts q = 0 \<longleftrightarrow> as = []"
    using wf(2) by (metis length_0_conv unat_eq_zero)
  show h: "mUsedFirstElement q = head_or_null as" using wf(1) by (rule chain_head)
  show "mUsedFirstElement q = NULL \<longleftrightarrow> as = []" using h nn by (cases as) auto
  show "mUsedLastElement q = NULL \<longleftrightarrow> as = []" using wf(3) nn by (metis last_in_set)
qed

lemma queue_wf_wakeups [simp]: "queue_wf (q\<lparr>wakeups := w\<rparr>) as = queue_wf q as"
  by (simp add: queue_wf_def)

lemma abs_queue_wakeups [simp]: "abs_queue (q\<lparr>wakeups := w\<rparr>) = abs_queue q"
  by (simp add: abs_queue_def contents_def addrs_def order_of_def)

lemma contents_wakeups [simp]: "contents (q\<lparr>wakeups := w\<rparr>) = contents q"
  and order_of_wakeups [simp]: "order_of (q\<lparr>wakeups := w\<rparr>) = order_of q"
  by (simp_all add: contents_def addrs_def order_of_def)

lemma queue_ok_wakeups [simp]: "queue_ok (q\<lparr>wakeups := w\<rparr>) = queue_ok q"
  by (simp add: queue_ok_def queue_wf_def addrs_def)

text \<open>A queue of three elements, for the concrete instances.\<close>

definition sample_queue :: Queue where
  "sample_queue = \<lparr> cells = [1 \<mapsto> \<lparr>edata = 10, enext = 2\<rparr>, 2 \<mapsto> \<lparr>edata = 20, enext = 3\<rparr>,
       3 \<mapsto> \<lparr>edata = 30, enext = NULL\<rparr>],
     mUsedFirstElement = 1, mUsedLastElement = 3, mUsedElementCnts = 3, mCapability = 4,
     mAllowedNewData = True, mSort = False, mAscendingOrder = True, cmpEleFun = None, wakeups = [] \<rparr>"

lemma sample_queue_wf: "queue_wf sample_queue [1, 2, 3]"
  by (auto simp: queue_wf_def sample_queue_def)

lemma sample_queue_ok [simp]: "queue_ok sample_queue"
  using sample_queue_wf by blast

lemma sample_queue_contents [simp]: "contents sample_queue = [10, 20, 30]"
  unfolding contents_wf [OF sample_queue_wf] by (simp add: sample_queue_def cell_data_def)

lemma sample_queue_abs:
  "abs_queue sample_queue = \<lparr>items = [10, 20, 30], room = 4, accepting = True, ordering = None\<rparr>"
  by (simp add: abs_queue_def) (simp add: sample_queue_def order_of_def)

text \<open>An allocator with two blocks.\<close>

definition arena :: "Queue \<Rightarrow> addr" where
  "arena q = (if cells q 1 = None then 1 else if cells q 2 = None then 2 else NULL)"

section \<open>Insertion\<close>

lemma find_slot_chain:
  assumes "chain h s (s # as) NULL"
  shows "\<exists>pre s' post. find_slot h asc cmp x s (head_or_null as) = Some (s', head_or_null post) \<and>
    s # as = pre @ s' # post \<and>
    place_after asc cmp x (datas h (s # as)) = datas h (pre @ [s']) @ x # datas h post"
  using assms
proof (induction as arbitrary: s)
  case Nil
  then show ?case by (intro exI [of _ "[]"] exI [of _ s]) (simp add: find_slot.simps)
next
  case (Cons a as)
  from Cons.prems obtain e ea where hs: "h s = Some e" and ha: "h a = Some ea"
    and ch: "chain h a (a # as) NULL" and nn: "s \<noteq> NULL" "a \<noteq> NULL"
    and "chain h (enext ea) as NULL"
    by (auto split: option.splits)
  then have n: "enext ea = head_or_null as" by (blast dest: chain_head)
  have walk: "find_slot h asc cmp x s a =
      (if fits_between asc cmp (edata e) x (edata ea) then Some (s, a)
       else find_slot h asc cmp x a (head_or_null as))"
    using hs ha nn n by (subst find_slot.simps) (simp add: data_of_def next_of_def)
  show ?case
  proof (cases "fits_between asc cmp (edata e) x (edata ea)")
    case True
    then show ?thesis using hs ha walk
      by (intro exI [of _ "[]"] exI [of _ s] exI [of _ "a # as"]) (simp add: cell_data_def)
  next
    case False
    from Cons.IH [OF ch] obtain pre s' post where
      f: "find_slot h asc cmp x a (head_or_null as) = Some (s', head_or_null post)"
      and split: "a # as = pre @ s' # post"
      and pl: "place_after asc cmp x (datas h (a # as)) = datas h (pre @ [s']) @ x # datas h post"
      by blast
    have "place_after asc cmp x (datas h (s # a # as)) =
        cell_data h s # place_after asc cmp x (datas h (a # as))"
      using False hs ha by (simp add: cell_data_def)
    also have "\<dots> = cell_data h s # datas h (pre @ [s']) @ x # datas h post"
      by (simp only: pl)
    also have "\<dots> = datas h ((s # pre) @ [s']) @ x # datas h post" by simp
    finally have "place_after asc cmp x (datas h (s # a # as)) =
        datas h ((s # pre) @ [s']) @ x # datas h post" .
    moreover have "find_slot h asc cmp x s (head_or_null (a # as)) = Some (s', head_or_null post)"
      using False walk f by simp
    moreover have "s # a # as = (s # pre) @ s' # post" using split by simp
    ultimately show ?thesis by blast
  qed
qed

text \<open>What a successful insertion leaves behind: the heap, the two end pointers, the list.\<close>

definition links :: "heap \<Rightarrow> addr \<Rightarrow> addr \<Rightarrow> addr list \<Rightarrow> addr list \<Rightarrow> bool" where
  "links h f l as xs \<longleftrightarrow>
     chain h f as NULL \<and> as \<noteq> [] \<and> l = last as \<and> dom h = set as \<and> datas h as = xs"

lemma append_cell_links:
  assumes wf: "queue_wf q as" and new: "new \<noteq> NULL" "cells q new = None"
  shows "\<exists>h f l. append_cell new (q\<lparr>cells := (cells q)(new \<mapsto> \<lparr>edata = x, enext = NULL\<rparr>)\<rparr>) =
      Some (q\<lparr>cells := h, mUsedFirstElement := f, mUsedLastElement := l\<rparr>) \<and>
      links h f l (as @ [new]) (datas (cells q) as @ [x])"
proof (cases as rule: rev_cases)
  case Nil
  then have "mUsedLastElement q = NULL" and "dom (cells q) = {}"
    using wf by (auto simp: queue_wf_def)
  then show ?thesis using Nil new
    by (auto simp: append_cell_def links_def cell_data_def split: if_splits
        intro!: exI [of _ "(cells q)(new \<mapsto> \<lparr>edata = x, enext = NULL\<rparr>)"])
next
  case (snoc pre s)
  have ch: "chain (cells q) (mUsedFirstElement q) (pre @ s # []) NULL"
    and l: "mUsedLastElement q = s" and d: "dom (cells q) = set (pre @ [s])"
    using wf snoc by (auto simp: queue_wf_def)
  then obtain e where e: "cells q s = Some e" by (auto simp: dom_def)
  have nin: "new \<notin> set (pre @ s # [])" using d new(2) by (metis domIff)
  have nn: "s \<noteq> NULL" using chain_nonnull [OF ch] by auto
  have dist: "distinct (pre @ s # [])" using ch by (rule chain_distinct)
  define h where "h = (cells q)(s \<mapsto> e\<lparr>enext := new\<rparr>, new \<mapsto> \<lparr>edata = x, enext = NULL\<rparr>)"
  have "links h (mUsedFirstElement q) new (as @ [new]) (datas (cells q) as @ [x])"
    using chain_splice [where h = "cells q" and pre = pre and s = s and post = "[]", OF ch e nin new(1)] datas_splice [where h = "cells q" and pre = pre and s = s and post = "[]", OF dist e nin] d snoc
    by (auto simp: links_def h_def)
  moreover have "append_cell new (q\<lparr>cells := (cells q)(new \<mapsto> \<lparr>edata = x, enext = NULL\<rparr>)\<rparr>) =
      Some (q\<lparr>cells := h, mUsedLastElement := new\<rparr>)"
    using l nn e nin by (auto simp: append_cell_def set_next_def h_def fun_upd_twist)
  ultimately show ?thesis
    by (intro exI [of _ h] exI [of _ "mUsedFirstElement q"] exI [of _ new]) simp
qed

text \<open>An insertion into a non-empty ordered list: in front, or after the cell that \<open>find_slot\<close> returns.\<close>

definition inserted :: "addr \<Rightarrow> addr \<Rightarrow> Queue \<Rightarrow> addr list \<Rightarrow> addr list \<Rightarrow> bool" where
  "inserted new x q as ds \<longleftrightarrow> (\<exists>h f l as'.
      insert_sorted_cell new x (q\<lparr>cells := (cells q)(new \<mapsto> \<lparr>edata = x, enext = NULL\<rparr>)\<rparr>) =
        Some (q\<lparr>cells := h, mUsedFirstElement := f, mUsedLastElement := l\<rparr>) \<and>
      length as' = Suc (length as) \<and> links h f l as' ds)"

lemma insert_in_front:
  assumes as: "chain (cells q) s0 as NULL" "as \<noteq> []" "dom (cells q) = set as"
    and ends: "mUsedFirstElement q = s0" "mUsedLastElement q = last as"
    and new: "new \<noteq> NULL" "new \<notin> set as" and cmp: "cmpEleFun q = Some cmp"
    and e0: "cells q s0 = Some e0" "goes_first (mAscendingOrder q) cmp (edata e0) x"
  shows "inserted new x q as (place (Some (mAscendingOrder q, cmp)) x (datas (cells q) as))"
proof -
  define h where "h = (cells q)(new \<mapsto> \<lparr>edata = x, enext = s0\<rparr>)"
  obtain as0 where as0: "as = s0 # as0" using as(1,2) by (cases as) (auto split: option.splits)
  have "insert_sorted_cell new x (q\<lparr>cells := (cells q)(new \<mapsto> \<lparr>edata = x, enext = NULL\<rparr>)\<rparr>) =
      Some (q\<lparr>cells := h, mUsedFirstElement := new\<rparr>)"
    using e0 cmp ends new(2) as0 by (auto simp: insert_sorted_cell_def data_of_def set_next_def h_def)
  moreover have "links h new (last as) (new # as) (place (Some (mAscendingOrder q, cmp)) x (datas (cells q) as))"
    using e0 as(1,3) new as0 by (auto simp: links_def h_def cell_data_def split: option.splits)
  ultimately show ?thesis unfolding inserted_def using ends
    by (intro exI [of _ h] exI [of _ new] exI [of _ "last as"] exI [of _ "new # as"]) simp
qed

lemma insert_after_slot:
  assumes as: "chain (cells q) s0 as NULL" "as = s0 # as0" "dom (cells q) = set as"
    and ends: "mUsedFirstElement q = s0" "mUsedLastElement q = last as"
    and new: "new \<noteq> NULL" "new \<notin> set as" and cmp: "cmpEleFun q = Some cmp"
    and e0: "cells q s0 = Some e0" "enext e0 = head_or_null as0" "\<not> goes_first (mAscendingOrder q) cmp (edata e0) x"
  shows "inserted new x q as (place (Some (mAscendingOrder q, cmp)) x (datas (cells q) as))"
proof -
  define h1 where "h1 = (cells q)(new \<mapsto> \<lparr>edata = x, enext = NULL\<rparr>)"
  have nn: "NULL \<notin> set as" using as(1) by (rule chain_nonnull)
  have ch1: "chain h1 s0 (s0 # as0) NULL" using chain_upd [OF new(2)] as(1,2) by (metis h1_def)
  have dat1: "datas h1 as = datas (cells q) as" using new(2) by (simp add: h1_def)
  have e1: "h1 s0 = Some e0" "edata e0 = cell_data (cells q) s0"
    using e0(1) new(2) as(2) by (auto simp: h1_def cell_data_def)
  from find_slot_chain [OF ch1, of "mAscendingOrder q" cmp x] obtain pre s post where
    slot: "find_slot h1 (mAscendingOrder q) cmp x s0 (head_or_null as0) = Some (s, head_or_null post)"
    and split: "as = pre @ s # post"
    and pl: "place_after (mAscendingOrder q) cmp x (datas h1 as) = datas h1 (pre @ [s]) @ x # datas h1 post"
    using as(2) by blast
  obtain e where e: "cells q s = Some e" using as(3) split by (auto simp: dom_def)
  define h where "h = (cells q)(s \<mapsto> e\<lparr>enext := new\<rparr>, new \<mapsto> \<lparr>edata = x, enext = head_or_null post\<rparr>)"
  define l' where "l' = (if post = [] then new else last as)"
  have nin': "new \<notin> set (pre @ s # post)" using new(2) split by simp
  have ch': "chain (cells q) s0 (pre @ s # post) NULL" using as(1) split by simp
  have "head_or_null post = NULL \<longleftrightarrow> post = []" using nn split by (cases post) auto
  then have call: "insert_sorted_cell new x (q\<lparr>cells := h1\<rparr>) = Some (q\<lparr>cells := h, mUsedLastElement := l'\<rparr>)"
    using e0(2,3) cmp ends e1(1) slot e nin'
    by (auto simp: insert_sorted_cell_def data_of_def next_of_def set_next_def h1_def h_def l'_def fun_upd_twist)
  have plc: "place (Some (mAscendingOrder q, cmp)) x (datas (cells q) as) =
      datas (cells q) (pre @ [s]) @ x # datas (cells q) post"
    using e0(3) e1(2) dat1 pl nin' as(2) by (simp add: h1_def cell_data_def)
  have "links h s0 l' (pre @ s # new # post) (place (Some (mAscendingOrder q, cmp)) x (datas (cells q) as))"
    unfolding links_def plc h_def
    using chain_splice [where h = "cells q", OF ch' e nin' new(1)]
      datas_splice [where h = "cells q", OF chain_distinct [OF ch'] e nin'] as(3)
    by (auto simp: l'_def split)
  then show ?thesis unfolding inserted_def using call ends(1) split
    by (intro exI [of _ h] exI [of _ s0] exI [of _ l'] exI [of _ "pre @ s # new # post"]) (simp add: h1_def)
qed

lemma insert_sorted_cell_links:
  assumes wf: "queue_wf q as" and new: "new \<noteq> NULL" "cells q new = None"
    and ne: "as \<noteq> []" and cmp: "cmpEleFun q = Some cmp"
  shows "inserted new x q as (place (Some (mAscendingOrder q, cmp)) x (datas (cells q) as))"
proof -
  obtain s0 as0 where as: "as = s0 # as0" using ne by (cases as) auto
  have ch: "chain (cells q) s0 as NULL" and d: "dom (cells q) = set as"
    and f: "mUsedFirstElement q = s0" "mUsedLastElement q = last as"
    using wf as by (auto simp: queue_wf_def)
  have nin: "new \<notin> set as" using d new(2) by (metis domIff)
  obtain e0 where e0: "cells q s0 = Some e0" "chain (cells q) (enext e0) as0 NULL"
    using ch as by (auto split: option.splits)
  then have n0: "enext e0 = head_or_null as0" by (blast dest: chain_head)
  show ?thesis
    using insert_in_front [OF ch ne d f new(1) nin cmp e0(1)] insert_after_slot [OF ch as d f new(1) nin cmp e0(1) n0]
    by blast
qed

lemma unat_plus_one:
  fixes c d :: "32 word"
  assumes "unat c < unat d"
  shows "unat (c + 1) = Suc (unat c)"
proof -
  have "unat d < 2 ^ 32" using unsigned_less [of d] by simp
  with assms have "unat c + 1 < 2 ^ 32" by linarith
  then show ?thesis by (simp add: unat_word_ariths)
qed

lemma unat_minus_one:
  fixes c :: "32 word"
  assumes "unat c = Suc n"
  shows "unat (c - 1) = n"
  using assms by (metis diff_Suc_1 nat.distinct(1) unat_eq_zero unat_gt_0 unat_minus_one
      gr0I zero_less_Suc)

lemma links_wf:
  assumes "queue_wf q as" and "links h f l as' xs" and "length as' = Suc (length as)"
    and "length as < unat (mCapability q)"
  shows "queue_wf (q\<lparr>cells := h, mUsedFirstElement := f, mUsedLastElement := l,
      mUsedElementCnts := mUsedElementCnts q + 1\<rparr>) as'"
  using assms by (auto simp: queue_wf_def links_def unat_plus_one)

text \<open>\<open>calloc\<close> returns null or a block that is not in use.\<close>

definition fresh_block :: "addr \<Rightarrow> Queue \<Rightarrow> bool" where
  "fresh_block newEle q \<longleftrightarrow> newEle = NULL \<or> cells q newEle = None"

lemma insertElement_refines:
  assumes ok: "queue_ok q" and fresh: "fresh_block newEle q"
    and room: "length (items (abs_queue q)) < room (abs_queue q)"
  shows "\<exists>c q'. insertElement newEle x q = Some (c, q') \<and> queue_ok q' \<and>
    spec_insert (newEle \<noteq> NULL) x (abs_queue q) = (c, abs_queue q')"
proof (cases "newEle = NULL")
  case True
  then show ?thesis using ok by (simp add: insertElement_def spec_insert_def)
next
  case False
  from ok obtain as where wf: "queue_wf q as" by blast
  have fr: "cells q newEle = None" using fresh False by (simp add: fresh_block_def)
  have len: "length as < unat (mCapability q)" using room by (simp add: abs_queue_wf [OF wf])
  let ?q1 = "q\<lparr>cells := (cells q)(newEle \<mapsto> \<lparr>edata = x, enext = NULL\<rparr>)\<rparr>"
  have "\<exists>h f l as'.
      (if \<not> mSort q \<or> mUsedFirstElement q = NULL then append_cell newEle ?q1
       else insert_sorted_cell newEle x ?q1) =
        Some (q\<lparr>cells := h, mUsedFirstElement := f, mUsedLastElement := l\<rparr>) \<and>
      length as' = Suc (length as) \<and>
      links h f l as' (place (order_of q) x (datas (cells q) as))"
  proof (cases "\<not> mSort q \<or> mUsedFirstElement q = NULL")
    case True
    have "place (order_of q) x (datas (cells q) as) = datas (cells q) as @ [x]"
      using True wf by (auto simp: order_of_def queue_wf_count(4) [OF wf] queue_wf_def)
    moreover have "length (as @ [newEle]) = Suc (length as)" by simp
    ultimately show ?thesis
      unfolding if_P [OF True] using append_cell_links [OF wf False fr, of x] by metis
  next
    case False': False
    then obtain cmp where cmp: "cmpEleFun q = Some cmp" using wf by (auto simp: queue_wf_def)
    have ne: "as \<noteq> []" using False' queue_wf_count(4) [OF wf] by simp
    have ord: "order_of q = Some (mAscendingOrder q, cmp)"
      using False' cmp by (simp add: order_of_def)
    show ?thesis unfolding ord
      using False' insert_sorted_cell_links [OF wf False fr ne cmp, of x] by (simp add: inserted_def)
  qed
  then obtain h f l as' where
    link: "(if \<not> mSort q \<or> mUsedFirstElement q = NULL then append_cell newEle ?q1
       else insert_sorted_cell newEle x ?q1) =
        Some (q\<lparr>cells := h, mUsedFirstElement := f, mUsedLastElement := l\<rparr>)"
    and n: "length as' = Suc (length as)"
    and lk: "links h f l as' (place (order_of q) x (datas (cells q) as))"
    by blast
  define q2 where "q2 = q\<lparr>cells := h, mUsedFirstElement := f, mUsedLastElement := l,
      mUsedElementCnts := mUsedElementCnts q + 1\<rparr>"
  have wf2: "queue_wf q2 as'" unfolding q2_def by (rule links_wf [OF wf lk n len])
  have "insertElement newEle x q = Some (qerr Q_OK, q2\<lparr>wakeups := wakeups q @ [SignalGet]\<rparr>)"
    using False link by (simp add: insertElement_def q2_def Let_def)
  moreover have "abs_queue q2 = (abs_queue q)\<lparr>items := place (order_of q) x (items (abs_queue q))\<rparr>"
    unfolding abs_queue_wf [OF wf] abs_queue_wf [OF wf2]
    using lk by (simp add: q2_def links_def order_of_def)
  moreover have "ordering (abs_queue q) = order_of q" by (simp add: abs_queue_def)
  ultimately show ?thesis using False wf2 by (auto simp: spec_insert_def)
qed

lemma abs_full:
  assumes "queue_ok q"
  shows "mUsedElementCnts q = mCapability q \<longleftrightarrow> length (items (abs_queue q)) = room (abs_queue q)"
    and "length (items (abs_queue q)) \<le> room (abs_queue q)"
proof -
  from assms obtain as where wf: "queue_wf q as" by blast
  show "mUsedElementCnts q = mCapability q \<longleftrightarrow> length (items (abs_queue q)) = room (abs_queue q)"
    using queue_wf_count(1) [OF wf] by (simp add: abs_queue_wf [OF wf])
  show "length (items (abs_queue q)) \<le> room (abs_queue q)"
    using wf by (simp add: abs_queue_wf [OF wf] queue_wf_def)
qed

lemma abs_queue_fields [simp]:
  "accepting (abs_queue q) = mAllowedNewData q"
  "room (abs_queue q) = unat (mCapability q)"
  "ordering (abs_queue q) = order_of q"
  "items (abs_queue q) = contents q"
  by (simp_all add: abs_queue_def)

lemma contents_of_abs: "abs_queue q = A \<Longrightarrow> contents q = items A"
  by auto

text \<open>A push that does not wait implements the abstract push.\<close>

lemma pushElement_core:
  assumes "queue_ok q" and "fresh_block newEle q"
  shows "\<exists>c q'. pushElement newEle x False [] q = Some (Returned c q') \<and> queue_ok q' \<and>
    spec_push (newEle \<noteq> NULL) x (abs_queue q) = (c, abs_queue q')"
proof -
  consider (refused) "\<not> mAllowedNewData q"
    | (full) "mAllowedNewData q" "mUsedElementCnts q = mCapability q"
    | (insert) "mAllowedNewData q" "mUsedElementCnts q \<noteq> mCapability q" by blast
  then show ?thesis
  proof cases
    case refused
    then show ?thesis using assms(1) by (simp add: pushElement_def spec_push_def)
  next
    case full
    then show ?thesis using assms(1) abs_full(1) [OF assms(1)]
      by (simp add: pushElement_def spec_push_def)
  next
    case insert
    then have "length (items (abs_queue q)) < room (abs_queue q)"
      using abs_full [OF assms(1)] by simp
    from insertElement_refines [OF assms this, of x] show ?thesis
      using insert abs_full(1) [OF assms(1)]
      by (auto simp: pushElement_def spec_push_def lift_ret_def)
  qed
qed

end
