(* ===== verification/Queue_Remove.thy ===== *)
theory Queue_Remove
  imports Queue_Refine
begin

text \<open>
  Removal, inspection and flushing of the queue against the abstract queue: \<open>pop\<close> takes the
  first element, \<open>peek\<close> reads a position, \<open>flush\<close> frees every cell and hands the elements to
  the callback in order. The selective form of \<open>_popElement\<close> is characterised exactly,
  including the case in which it leaves a dangling \<open>mUsedLastElement\<close>.
\<close>

section \<open>Removing the first element\<close>

lemma find_match_None [simp]: "find_match h None c p e = Some (p, e)"
  by (subst find_match.simps) simp

lemma removeElement_first:
  assumes wf: "queue_wf q (a # as)"
  shows "\<exists>q'. removeElement None c q = Some ((qerr Q_OK, cell_data (cells q) a), q') \<and>
    queue_wf q' as \<and> contents q' = datas (cells q) as \<and>
    mCapability q' = mCapability q \<and> mAllowedNewData q' = mAllowedNewData q \<and>
    order_of q' = order_of q \<and> wakeups q' = wakeups q @ [SignalPut]"
proof -
  have ch: "chain (cells q) (mUsedFirstElement q) (a # as) NULL"
    and d: "dom (cells q) = set (a # as)"
    and l: "mUsedLastElement q = last (a # as)"
    and n: "unat (mUsedElementCnts q) = Suc (length as)"
    using wf by (auto simp: queue_wf_def)
  then obtain e where e: "cells q a = Some e" "a \<noteq> NULL" "mUsedFirstElement q = a"
      "chain (cells q) (enext e) as NULL"
    by (auto split: option.splits)
  have dist: "a \<notin> set as" using chain_distinct [OF ch] by simp
  have nn: "enext e = NULL \<longleftrightarrow> as = []"
    using chain_head [OF e(4)] chain_nonnull [OF e(4)] by (cases as) auto
  define q' where "q' = q\<lparr>cells := (cells q)(a := None), mUsedFirstElement := enext e,
      mUsedElementCnts := mUsedElementCnts q - 1,
      mUsedLastElement := (if enext e = NULL then NULL else mUsedLastElement q),
      wakeups := wakeups q @ [SignalPut]\<rparr>"
  have "removeElement None c q = Some ((qerr Q_OK, cell_data (cells q) a), q')"
    using e by (simp add: removeElement_def data_of_def next_of_def free_cell_def cell_data_def q'_def)
  moreover have "queue_wf q' as"
    using wf e(4) dist d l nn unat_minus_one [OF n]
    by (auto simp: queue_wf_def q'_def split: if_splits)
  moreover from this have "contents q' = datas (cells q) as"
    using dist by (simp add: contents_wf q'_def)
  ultimately show ?thesis by (auto simp: q'_def order_of_def)
qed

text \<open>A pop that does not wait implements the abstract pop.\<close>

lemma popElement_core:
  assumes "queue_ok q"
  shows "\<exists>r q'. popElement e0 False [] None NULL q = Some (Returned r q') \<and> queue_ok q' \<and>
    spec_pop (abs_queue q) = (r, abs_queue q')"
proof -
  from assms obtain as where wf: "queue_wf q as" by blast
  show ?thesis
  proof (cases as)
    case Nil
    then show ?thesis using wf assms queue_wf_count(2) [OF wf]
      by (simp add: popElement_def contents_wf)
  next
    case (Cons a as')
    from removeElement_first [OF wf [unfolded Cons], of NULL] obtain q' where
      "removeElement None NULL q = Some ((qerr Q_OK, cell_data (cells q) a), q')"
      "queue_wf q' as'" "contents q' = datas (cells q) as'"
      "mCapability q' = mCapability q" "mAllowedNewData q' = mAllowedNewData q"
      "order_of q' = order_of q"
      by blast
    then show ?thesis using wf Cons queue_wf_count(2) [OF wf]
      by (auto simp: popElement_def lift_pop_def contents_wf abs_queue_def)
  qed
qed

section \<open>Selective removal\<close>

lemma find_match_chain:
  assumes "chain h p as NULL"
  shows "find_match h (Some f) c prev p =
    (let pre = takeWhile (\<lambda>a. f a c \<noteq> 0) as; post = dropWhile (\<lambda>a. f a c \<noteq> 0) as
     in Some (if pre = [] then prev else last pre, head_or_null post))"
  using assms
proof (induction as arbitrary: p prev)
  case Nil
  then show ?case by (subst find_match.simps) simp
next
  case (Cons a as)
  then obtain e where e: "h a = Some e" "a \<noteq> NULL" "p = a" "chain h (enext e) as NULL"
    by (auto split: option.splits)
  show ?case
  proof (cases "f a c = 0")
    case True
    then show ?thesis using e by (subst find_match.simps) simp
  next
    case False
    then show ?thesis using e Cons.IH [OF e(4), of a]
      by (subst find_match.simps) (auto simp: next_of_def Let_def)
  qed
qed

lemma chain_unlink:
  assumes ch: "chain h p (pre @ s # a # post) NULL" and "h s = Some e" and "h a = Some ea"
  shows "chain (h(s \<mapsto> e\<lparr>enext := enext ea\<rparr>, a := None)) p (pre @ s # post) NULL"
    and "datas (h(s \<mapsto> e\<lparr>enext := enext ea\<rparr>, a := None)) (pre @ s # post) = datas h (pre @ s # post)"
proof -
  have dist: "distinct (pre @ s # a # post)" using ch by (rule chain_distinct)
  show "chain (h(s \<mapsto> e\<lparr>enext := enext ea\<rparr>, a := None)) p (pre @ s # post) NULL"
    using assms dist by (auto simp: chain_append)
  show "datas (h(s \<mapsto> e\<lparr>enext := enext ea\<rparr>, a := None)) (pre @ s # post) = datas h (pre @ s # post)"
    using assms dist by (auto simp: cell_data_def)
qed

lemma removeElement_middle:
  assumes wf: "queue_wf q (pre @ s # a # post)"
    and sel: "\<forall>b \<in> set (pre @ [s]). f b c \<noteq> 0" "f a c = 0"
  shows "\<exists>q'. removeElement (Some f) c q = Some ((qerr Q_OK, cell_data (cells q) a), q') \<and>
    chain (cells q') (mUsedFirstElement q') (pre @ s # post) NULL \<and>
    datas (cells q') (pre @ s # post) = datas (cells q) (pre @ s # post) \<and>
    mUsedLastElement q' = mUsedLastElement q \<and> cells q' a = None \<and> mSort q' = mSort q \<and>
    (queue_ok q' \<longleftrightarrow> post \<noteq> [])"
proof -
  let ?as = "pre @ s # a # post"
  have ch: "chain (cells q) (mUsedFirstElement q) ?as NULL"
    and d: "dom (cells q) = set ?as"
    and l: "mUsedLastElement q = last ?as"
    and n: "unat (mUsedElementCnts q) = Suc (length (pre @ s # post))"
    using wf by (auto simp: queue_wf_def)
  obtain es where es: "cells q s = Some es" using d by (auto simp: dom_def)
  obtain ea where ea: "cells q a = Some ea" using d by (auto simp: dom_def)
  have dist: "distinct ?as" using ch by (rule chain_distinct)
  have nn: "NULL \<notin> set ?as" using ch by (rule chain_nonnull)
  have take: "takeWhile (\<lambda>b. f b c \<noteq> 0) ?as = pre @ [s]"
    and drop: "dropWhile (\<lambda>b. f b c \<noteq> 0) ?as = a # post"
    using sel by (simp_all add: takeWhile_append2 dropWhile_append2)
  have "find_match (cells q) (Some f) c NULL (mUsedFirstElement q) = Some (s, a)"
    unfolding find_match_chain [OF ch] take drop by (simp add: Let_def)
  note fm = this
  define q' where "q' = q\<lparr>cells := (cells q)(s \<mapsto> es\<lparr>enext := enext ea\<rparr>, a := None),
      mUsedElementCnts := mUsedElementCnts q - 1, wakeups := wakeups q @ [SignalPut]\<rparr>"
  have "removeElement (Some f) c q = Some ((qerr Q_OK, cell_data (cells q) a), q')"
    using fm es ea nn dist
    by (simp add: removeElement_def data_of_def next_of_def set_next_def free_cell_def
        cell_data_def q'_def)
  moreover note unlinked = chain_unlink [OF ch es ea]
  moreover have "queue_ok q' \<longleftrightarrow> post \<noteq> []"
  proof -
    have len: "unat (mUsedElementCnts q') = length (pre @ s # post)"
      using unat_minus_one [OF n] by (simp add: q'_def)
    have ch': "chain (cells q') (mUsedFirstElement q') (pre @ s # post) NULL"
      using unlinked(1) by (simp add: q'_def)
    have ad: "addrs q' = pre @ s # post"
      unfolding addrs_def len by (rule addrs_from_chain [OF ch'])
    have "dom (cells q') = set (pre @ s # post)" using d dist by (auto simp: q'_def)
    then have "queue_wf q' (pre @ s # post) \<longleftrightarrow> mUsedLastElement q' = last (pre @ s # post)"
      using wf ch' len by (auto simp: queue_wf_def q'_def)
    also have "\<dots> \<longleftrightarrow> post \<noteq> []" using l dist by (auto simp: q'_def)
    finally show ?thesis by (simp add: queue_ok_def ad)
  qed
  ultimately show ?thesis by (auto simp: q'_def)
qed

lemma removeElement_tail:
  assumes "queue_wf q (pre @ [s, a])"
    and "\<forall>b \<in> set (pre @ [s]). f b c \<noteq> 0" "f a c = 0" and "\<not> mSort q"
  shows "\<exists>r q'. removeElement (Some f) c q = Some (r, q') \<and>
    mUsedLastElement q' = mUsedLastElement q \<and> cells q' a = None \<and> \<not> mSort q'"
  using removeElement_middle [of q pre s a "[]" f c] assms by fastforce

text \<open>
  \<open>_popElement\<close> with a selector that first matches a cell \<open>a\<close> behind the head
  removes exactly that cell and returns its element. The queue stays well-formed if and only
  if \<open>a\<close> was not the last cell: \<open>mUsedLastElement\<close> is not updated in this branch, so removing
  the last cell leaves it pointing to freed memory.
\<close>

theorem removeElement_selective:
  assumes wf: "queue_wf q (pre @ s # a # post)"
    and sel: "\<forall>b \<in> set (pre @ [s]). f b c \<noteq> 0" "f a c = 0"
  shows "\<exists>q'. removeElement (Some f) c q = Some ((qerr Q_OK, cell_data (cells q) a), q') \<and>
    chain (cells q') (mUsedFirstElement q') (pre @ s # post) NULL \<and>
    datas (cells q') (pre @ s # post) = datas (cells q) (pre @ s # post) \<and>
    mUsedLastElement q' = mUsedLastElement q \<and> cells q' a = None \<and>
    (queue_ok q' \<longleftrightarrow> post \<noteq> [])"
  using removeElement_middle [of q pre s a post f c] assms by blast

theorem removeElement_selective_witness:
  "\<exists>q'. removeElement (Some (\<lambda>a k. int a - int k)) 2 sample_queue =
      Some ((qerr Q_OK, cell_data (cells sample_queue) 2), q') \<and>
    queue_ok q' \<and> cells q' 2 = None"
  using removeElement_selective [of sample_queue "[]" 1 2 "[3]" "\<lambda>a k. int a - int k" 2]
    sample_queue_wf by fastforce

section \<open>Peeking\<close>

lemma peek_walk_chain:
  "chain h p as NULL \<Longrightarrow>
   peek_walk h pos i p = Some (if nat (pos - i) < length as then as ! nat (pos - i) else NULL)"
proof (induction as arbitrary: p i)
  case Nil
  then show ?case by (subst peek_walk.simps) simp
next
  case (Cons a as)
  then obtain e where e: "h a = Some e" "a \<noteq> NULL" "p = a" "chain h (enext e) as NULL"
    by (auto split: option.splits)
  show ?case
  proof (cases "i < pos")
    case True
    then have "nat (pos - i) = Suc (nat (pos - (i + 1)))" by linarith
    then show ?thesis using True e Cons.IH [OF e(4), of "i + 1"]
      by (subst peek_walk.simps) (simp add: next_of_def)
  next
    case False
    then show ?thesis using e by (subst peek_walk.simps) simp
  qed
qed

lemma peekElement_core:
  assumes "queue_ok q"
  shows "peekElement e0 pos q = Some (spec_peek e0 pos (abs_queue q), q)"
proof -
  from assms obtain as where wf: "queue_wf q as" by blast
  have ch: "chain (cells q) (mUsedFirstElement q) as NULL" and d: "dom (cells q) = set as"
    using wf by (auto simp: queue_wf_def)
  have nn: "NULL \<notin> set as" using ch by (rule chain_nonnull)
  show ?thesis
  proof (cases "nat pos < length as")
    case True
    then have mem: "as ! nat pos \<in> set as" by simp
    then obtain e where "cells q (as ! nat pos) = Some e" using d by (auto simp: dom_def)
    moreover have "as ! nat pos \<noteq> NULL" using mem nn by metis
    moreover have "as \<noteq> []" using mem by auto
    moreover have "datas (cells q) as ! nat pos = cell_data (cells q) (as ! nat pos)"
      using True by (simp add: datas_def)
    ultimately show ?thesis
      using True peek_walk_chain [OF ch, of pos 0] queue_wf_count(2) [OF wf]
      by (simp add: peekElement_def spec_peek_def contents_wf [OF wf] data_of_def cell_data_def)
  next
    case False
    then show ?thesis
      using peek_walk_chain [OF ch, of pos 0] queue_wf_count(2) [OF wf]
      by (simp add: peekElement_def spec_peek_def contents_wf [OF wf])
  qed
qed

section \<open>Flushing\<close>

lemma flush_loop_chain:
  "chain h p as NULL \<Longrightarrow>
   flush_loop fcb u h p =
     Some (case fcb of None \<Rightarrow> u | Some f \<Rightarrow> foldl f u (datas h as), h |` (- set as))"
proof (induction as arbitrary: p h u)
  case Nil
  then show ?case by (subst flush_loop.simps) (auto split: option.splits)
next
  case (Cons a as)
  then obtain e where e: "h a = Some e" "a \<noteq> NULL" "p = a" "chain h (enext e) as NULL"
    by (auto split: option.splits)
  have dist: "a \<notin> set as" using chain_distinct [OF Cons.prems] by simp
  have "chain (h(a := None)) (enext e) as NULL" using e(4) dist by simp
  note IH = Cons.IH [OF this]
  have res: "(h(a := None)) |` (- set as) = h |` (- set (a # as))"
    by (auto simp: restrict_map_def fun_eq_iff)
  have "flush_loop fcb u h p =
      flush_loop fcb (case fcb of None \<Rightarrow> u | Some f \<Rightarrow> f u (edata e)) (h(a := None)) (enext e)"
    using e by (subst flush_loop.simps) (simp add: next_of_def data_of_def free_cell_def)
  also have "\<dots> = Some (case fcb of None \<Rightarrow> u | Some f \<Rightarrow> foldl f u (datas h (a # as)), h |` (- set (a # as)))"
    unfolding IH res using e dist by (simp add: cell_data_def split: option.splits)
  finally show ?case .
qed

lemma flushElements_core:
  assumes "queue_ok q"
  shows "\<exists>q'. flushElements u fcb q =
      Some ((qerr Q_OK, case fcb of None \<Rightarrow> u | Some f \<Rightarrow> foldl f u (items (abs_queue q))), q') \<and>
    queue_ok q' \<and> cells q' = Map.empty \<and>
    abs_queue q' = (abs_queue q)\<lparr>items := []\<rparr> \<and> wakeups q' = wakeups q"
proof -
  from assms obtain as where wf: "queue_wf q as" by blast
  have ch: "chain (cells q) (mUsedFirstElement q) as NULL" and d: "dom (cells q) = set as"
    using wf by (auto simp: queue_wf_def)
  have "cells q |` (- set as) = Map.empty"
    using d by (auto simp: restrict_map_def fun_eq_iff)
  note fl = flush_loop_chain [OF ch, of fcb u, unfolded this]
  define q' where "q' = q\<lparr>cells := Map.empty, mUsedFirstElement := NULL,
      mUsedLastElement := NULL, mUsedElementCnts := 0\<rparr>"
  have wf': "queue_wf q' []" using wf by (simp add: queue_wf_def q'_def)
  have "abs_queue q' = (abs_queue q)\<lparr>items := []\<rparr>"
    unfolding abs_queue_wf [OF wf'] abs_queue_wf [OF wf] by (simp add: q'_def order_of_def)
  moreover have "flushElements u fcb q =
      Some ((qerr Q_OK, case fcb of None \<Rightarrow> u | Some f \<Rightarrow> foldl f u (datas (cells q) as)), q')"
    using fl by (simp add: flushElements_def q'_def)
  ultimately show ?thesis using wf' unfolding abs_queue_fields contents_wf [OF wf]
    by (auto simp: q'_def)
qed

section \<open>The dangling tail\<close>

text \<open>
  C11 (safety): what the missing update costs. After a selective removal of the last of two or more
  cells of an unordered queue, inserting into any block but the freed one dereferences freed
  memory. When \<open>calloc\<close> returns the freed block again, or the queue is ordered, nothing is claimed.
\<close>

theorem insert_after_selective_faults:
  assumes wf: "queue_wf q (pre @ [s, a])"
    and sel: "\<forall>b \<in> set (pre @ [s]). f b c \<noteq> 0" "f a c = 0"
    and unsorted: "\<not> mSort q" and new: "new \<noteq> NULL" "new \<noteq> a"
  shows "\<exists>r q'. removeElement (Some f) c q = Some (r, q') \<and> insertElement new x q' = None"
proof -
  have ch: "chain (cells q) (mUsedFirstElement q) (pre @ [s, a]) NULL"
    and l: "mUsedLastElement q = a"
    using wf by (auto simp: queue_wf_def)
  have an: "a \<noteq> NULL" using chain_nonnull [OF ch] by auto
  from removeElement_tail [of q pre s a f c] wf sel unsorted obtain r q' where
    q': "removeElement (Some f) c q = Some (r, q')" "mUsedLastElement q' = a" "cells q' a = None"
      "\<not> mSort q'"
    using l by auto
  have "insertElement new x q' = None"
    using q' new an by (simp add: insertElement_def append_cell_def set_next_def)
  then show ?thesis using q'(1) by blast
qed

theorem insert_after_selective_faults_witness:
  "\<exists>r q'. removeElement (Some (\<lambda>a k. int a - int k)) 3 sample_queue = Some (r, q') \<and>
    insertElement 4 99 q' = None"
  using insert_after_selective_faults [of sample_queue "[1]" 2 3 "\<lambda>a k. int a - int k" 3 4 99]
    sample_queue_wf by (fastforce simp: sample_queue_def)

end
