(* ===== verification/Queue_Order.thy ===== *)
theory Queue_Order
  imports Queue_Remove "HOL-Library.Multiset"
begin

text \<open>
  The ordered queue: what the insertion of \<open>_pushElement\<close> does to the list when the comparator
  is a total preorder. The contract of a comparator is a locale; under it the scan of the code
  is the insertion before the first element that does not precede the new one.
\<close>

section \<open>The contract of a comparator\<close>

text \<open>
  \<open>Queue.h\<close>: \<open>0\<close> if both are the same, \<open>< 0\<close> if the first is smaller, \<open>> 0\<close> if the second is.
\<close>

locale ordering_cmp =
  fixes cmp :: comparator
  assumes cmp_flip: "cmp a b \<le> 0 \<longleftrightarrow> 0 \<le> cmp b a"
    and cmp_trans: "cmp a b \<le> 0 \<Longrightarrow> cmp b c \<le> 0 \<Longrightarrow> cmp a c \<le> 0"

text \<open>\<open>before asc cmp a b\<close>: \<open>a\<close> may stand in front of \<open>b\<close>.\<close>

definition before :: "bool \<Rightarrow> comparator \<Rightarrow> addr \<Rightarrow> addr \<Rightarrow> bool" where
  "before asc cmp a b \<longleftrightarrow> (if asc then cmp a b \<le> 0 else 0 \<le> cmp a b)"

lemma fits_between_before:
  "fits_between asc cmp s x t \<longleftrightarrow> before asc cmp s x \<and> before asc cmp x t"
  by (auto simp: fits_between_def before_def)

context ordering_cmp
begin

lemma before_total: "before asc cmp a b \<or> before asc cmp b a"
  using cmp_flip [of a b] cmp_flip [of b a] by (auto simp: before_def)

lemma before_trans: "before asc cmp a b \<Longrightarrow> before asc cmp b c \<Longrightarrow> before asc cmp a c"
proof (cases asc)
  case True
  assume "before asc cmp a b" "before asc cmp b c"
  then show ?thesis using True cmp_trans [of a b c] by (simp add: before_def)
next
  case False
  assume "before asc cmp a b" "before asc cmp b c"
  then have "cmp c b \<le> 0" "cmp b a \<le> 0" using False by (simp_all add: before_def cmp_flip)
  then show ?thesis using False cmp_trans [of c b a] cmp_flip [of c a] by (simp add: before_def)
qed

lemma goes_first_before: "goes_first asc cmp s x \<longleftrightarrow> before asc cmp x s"
  using cmp_flip [of x s] cmp_flip [of s x] by (auto simp: goes_first_def before_def)

text \<open>The scan stops in front of the first element that \<open>x\<close> precedes.\<close>

lemma place_after_split:
  assumes "\<not> before asc cmp x s"
  shows "place_after asc cmp x (s # ts) =
    s # takeWhile (\<lambda>t. \<not> before asc cmp x t) ts @ x # dropWhile (\<lambda>t. \<not> before asc cmp x t) ts"
  using assms
proof (induction ts arbitrary: s)
  case Nil
  then show ?case by simp
next
  case (Cons t ts)
  have "before asc cmp s x" using Cons.prems before_total by blast
  then show ?case using Cons.IH [of t] by (simp add: fits_between_before)
qed

lemma place_split:
  "place (Some (asc, cmp)) x xs =
    takeWhile (\<lambda>t. \<not> before asc cmp x t) xs @ x # dropWhile (\<lambda>t. \<not> before asc cmp x t) xs"
  by (cases xs) (auto simp: goes_first_before place_after_split)

lemma place_sorted:
  assumes "sorted_wrt (before asc cmp) xs"
  shows "sorted_wrt (before asc cmp) (place (Some (asc, cmp)) x xs)"
proof -
  let ?P = "\<lambda>t. \<not> before asc cmp x t"
  let ?as = "takeWhile ?P xs" and ?bs = "dropWhile ?P xs"
  have "sorted_wrt (before asc cmp) (?as @ ?bs)" using assms by simp
  then have s: "sorted_wrt (before asc cmp) ?as" "sorted_wrt (before asc cmp) ?bs"
    and ab: "\<And>a b. a \<in> set ?as \<Longrightarrow> b \<in> set ?bs \<Longrightarrow> before asc cmp a b"
    by (simp_all add: sorted_wrt_append del: takeWhile_dropWhile_id)
  have ax: "before asc cmp a x" if "a \<in> set ?as" for a
    using that before_total by (blast dest: set_takeWhileD)
  have xb: "before asc cmp x b" if "b \<in> set ?bs" for b
  proof (cases ?bs)
    case Nil
    then show ?thesis using that by (simp only: list.set empty_iff)
  next
    case (Cons c cs)
    then have "before asc cmp x c" by (metis dropWhile_eq_Cons_conv)
    moreover have "b = c \<or> before asc cmp c b" using that s(2) Cons by auto
    ultimately show ?thesis by (blast intro: before_trans)
  qed
  show ?thesis unfolding place_split by (rule sorted_wrt_insertI [OF s ab ax xb])
qed

end

section \<open>Facts that hold for any comparator\<close>

lemma mset_place_after: "mset (place_after asc cmp x xs) = add_mset x (mset xs)"
  by (induction asc cmp x xs rule: place_after.induct) auto

lemma mset_place [simp]: "mset (place ord x xs) = add_mset x (mset xs)"
  by (cases "(ord, x, xs)" rule: place.cases) (auto simp: mset_place_after)

end
