(* ===== verification/Queue_Run.thy ===== *)
theory Queue_Run
  imports Queue_Order
begin

text \<open>
  The contract of a queue as its clients see it (locales), its proof for the public operations
  of the model (interpretations), and what whole sequences of calls do: first in first out, or
  sorted output. Also the error paths of the public operations, the counters, the waiting
  variants and the destructor.
\<close>

section \<open>Client programs\<close>

datatype qcall = Enq addr | Deq

text \<open>
  Running a list of calls. \<open>alloc\<close> is \<open>calloc\<close>. The result holds the elements whose insertion
  was accepted, the elements taken out, both in call order, and the final queue.
\<close>

fun run_calls ::
  "(addr \<Rightarrow> addr \<Rightarrow> 'q \<Rightarrow> (int, 'q) outcome option) \<Rightarrow> ('q \<Rightarrow> (int \<times> addr, 'q) outcome option)
   \<Rightarrow> ('q \<Rightarrow> addr) \<Rightarrow> qcall list \<Rightarrow> 'q \<Rightarrow> (addr list \<times> addr list \<times> 'q) option" where
  "run_calls enq deq alloc [] q = Some ([], [], q)"
| "run_calls enq deq alloc (Enq x # cs) q =
     (case enq (alloc q) x q of
        Some (Returned c q') \<Rightarrow>
          map_option (\<lambda>(i, out, r). (if c = 0 then x # i else i, out, r))
            (run_calls enq deq alloc cs q')
      | _ \<Rightarrow> None)"
| "run_calls enq deq alloc (Deq # cs) q =
     (case deq q of
        Some (Returned (c, d) q') \<Rightarrow>
          map_option (\<lambda>(i, out, r). (i, if c = 0 then d # out else out, r))
            (run_calls enq deq alloc cs q')
      | _ \<Rightarrow> None)"

section \<open>The contract\<close>

locale queue_base =
  fixes invar :: "'q \<Rightarrow> bool" and content :: "'q \<Rightarrow> addr list" and limit :: "'q \<Rightarrow> nat"
    and fresh :: "addr \<Rightarrow> 'q \<Rightarrow> bool"
    and enq :: "addr \<Rightarrow> addr \<Rightarrow> 'q \<Rightarrow> (int, 'q) outcome option"
    and deq :: "'q \<Rightarrow> (int \<times> addr, 'q) outcome option"
  assumes enq_law: "invar q \<Longrightarrow> fresh b q \<Longrightarrow> \<exists>c q'. enq b x q = Some (Returned c q') \<and> invar q' \<and>
      limit q' = limit q \<and>
      (if c = 0 then mset (content q') = add_mset x (mset (content q)) \<and> length (content q) < limit q
       else c < 0 \<and> content q' = content q)"
    and deq_law: "invar q \<Longrightarrow> \<exists>c d q'. deq q = Some (Returned (c, d) q') \<and> invar q' \<and>
      limit q' = limit q \<and>
      (if content q = [] then c < 0 \<and> d = NULL \<and> content q' = []
       else c = 0 \<and> content q = d # content q')"
begin

lemma enq_cases:
  assumes "invar q" "fresh b q"
  obtains (accepted) q' where "enq b x q = Some (Returned 0 q')" "invar q'" "limit q' = limit q"
      "mset (content q') = add_mset x (mset (content q))" "length (content q) < limit q"
    | (refused) c q' where "enq b x q = Some (Returned c q')" "invar q'" "limit q' = limit q"
      "c < 0" "content q' = content q"
  using enq_law [OF assms, of x] by (auto split: if_splits)

lemma deq_cases:
  assumes "invar q"
  obtains (empty) c q' where "deq q = Some (Returned (c, NULL) q')" "invar q'" "c < 0"
      "content q = []" "content q' = []"
    | (taken) d q' where "deq q = Some (Returned (0, d) q')" "invar q'"
      "content q = d # content q'"
  using deq_law [OF assms] by (auto split: if_splits)

lemma run_conserves:
  assumes "\<And>q. invar q \<Longrightarrow> fresh (alloc q) q" and "invar q"
  shows "\<exists>i out q'. run_calls enq deq alloc cs q = Some (i, out, q') \<and> invar q' \<and>
    mset (content q) + mset i = mset out + mset (content q')"
  using assms(2)
proof (induction cs arbitrary: q)
  case Nil
  then show ?case by simp
next
  case (Cons c cs)
  show ?case
  proof (cases c)
    case (Enq x)
    from Cons.prems assms(1) [OF Cons.prems] show ?thesis
    proof (cases rule: enq_cases [where x = x])
      case (accepted q')
      with Cons.IH [of q'] Enq show ?thesis by fastforce
    next
      case (refused e q')
      with Cons.IH [of q'] Enq show ?thesis by fastforce
    qed
  next
    case Deq
    from Cons.prems show ?thesis
    proof (cases rule: deq_cases)
      case (empty e q')
      with Cons.IH [of q'] Deq show ?thesis by fastforce
    next
      case (taken d q')
      with Cons.IH [of q'] Deq show ?thesis by fastforce
    qed
  qed
qed

lemma drain:
  assumes "invar q"
  shows "\<exists>q'. run_calls enq deq alloc (replicate (length (content q)) Deq) q =
      Some ([], content q, q') \<and> invar q' \<and> content q' = []"
  using assms
proof (induction "length (content q)" arbitrary: q)
  case 0
  then show ?case by simp
next
  case (Suc n)
  from Suc.prems show ?case
  proof (cases rule: deq_cases)
    case (empty e q')
    then show ?thesis using Suc.hyps(2) by simp
  next
    case (taken d q')
    then have "n = length (content q')" using Suc.hyps(2) by simp
    from Suc.hyps(1) [OF this taken(2)] taken show ?thesis by auto
  qed
qed

end

text \<open>A queue that keeps arrival order.\<close>

locale fifo_queue = queue_base +
  assumes enq_fifo: "invar q \<Longrightarrow> fresh b q \<Longrightarrow> enq b x q = Some (Returned 0 q') \<Longrightarrow>
    content q' = content q @ [x]"
begin

lemma run_fifo:
  assumes "\<And>q. invar q \<Longrightarrow> fresh (alloc q) q" and "invar q"
  shows "\<exists>i out q'. run_calls enq deq alloc cs q = Some (i, out, q') \<and> invar q' \<and>
    content q @ i = out @ content q'"
  using assms(2)
proof (induction cs arbitrary: q)
  case Nil
  then show ?case by simp
next
  case (Cons c cs)
  show ?case
  proof (cases c)
    case (Enq x)
    from Cons.prems assms(1) [OF Cons.prems] show ?thesis
    proof (cases rule: enq_cases [where x = x])
      case (accepted q')
      with Cons.IH [of q'] enq_fifo [OF Cons.prems assms(1) [OF Cons.prems] accepted(1)] Enq show ?thesis by fastforce
    next
      case (refused e q')
      with Cons.IH [of q'] Enq show ?thesis by fastforce
    qed
  next
    case Deq
    from Cons.prems show ?thesis
    proof (cases rule: deq_cases)
      case (empty e q')
      with Cons.IH [of q'] Deq show ?thesis by fastforce
    next
      case (taken d q')
      with Cons.IH [of q'] Deq show ?thesis by fastforce
    qed
  qed
qed

end

text \<open>A queue whose contents stay sorted by a relation of its own.\<close>

locale sorted_queue = queue_base +
  fixes rank :: "'q \<Rightarrow> addr \<Rightarrow> addr \<Rightarrow> bool"
  assumes content_sorted: "invar q \<Longrightarrow> sorted_wrt (rank q) (content q)"
    and enq_rank: "invar q \<Longrightarrow> fresh b q \<Longrightarrow> enq b x q = Some (Returned c q') \<Longrightarrow> rank q' = rank q"
    and deq_rank: "invar q \<Longrightarrow> deq q = Some (Returned r q') \<Longrightarrow> rank q' = rank q"
begin

lemma fill_keeps_rank:
  assumes "\<And>q. invar q \<Longrightarrow> fresh (alloc q) q" and "invar q"
  shows "\<exists>i q'. run_calls enq deq alloc (map Enq xs) q = Some (i, [], q') \<and> invar q' \<and>
    rank q' = rank q \<and> mset (content q') = mset (content q) + mset i"
  using assms(2)
proof (induction xs arbitrary: q)
  case Nil
  then show ?case by simp
next
  case (Cons x xs)
  note fr = assms(1) [OF Cons.prems]
  from Cons.prems fr show ?case
  proof (cases rule: enq_cases [where x = x])
    case (accepted q')
    with Cons.IH [of q'] enq_rank [OF Cons.prems fr accepted(1)] show ?thesis by fastforce
  next
    case (refused e q')
    with Cons.IH [of q'] enq_rank [OF Cons.prems fr refused(1)] show ?thesis by fastforce
  qed
qed

end

section \<open>The public operations without contention\<close>

lemma lock_rc_simps [simp]: "lock_rc 0 = 0" "rc \<noteq> 0 \<Longrightarrow> lock_rc rc = -2"
  by (simp_all add: lock_rc_def)

lemma qerr_zero: "qerr e = 0 \<longleftrightarrow> e = Q_OK"
  by (cases e) simp_all

lemma qerr_neg: "e \<noteq> Q_OK \<Longrightarrow> qerr e < 0"
  by (cases e) simp_all

lemma push_unlocked: "push 0 0 b x q = pushElement b x False [] q"
  by (simp add: push_def option.map_id)

lemma pop_unlocked: "pop 0 0 e0 q = popElement e0 False [] None NULL q"
  by (simp add: pop_def option.map_id)

lemma spec_insert_frame:
  assumes "spec_insert m x A = (c, A')"
  shows "room A' = room A" "ordering A' = ordering A" "accepting A' = accepting A"
  using assms by (auto simp: spec_insert_def split: if_splits)

lemma spec_push_frame:
  assumes "spec_push m x A = (c, A')" and "length (items A) \<le> room A"
  shows "room A' = room A" "ordering A' = ordering A" "accepting A' = accepting A"
    and "if c = 0 then items A' = place (ordering A) x (items A) \<and> length (items A) < room A
         else c < 0 \<and> items A' = items A"
  using assms by (auto simp: spec_push_def spec_insert_def split: if_splits)

lemma spec_pop_frame:
  assumes "spec_pop A = ((c, d), A')"
  shows "room A' = room A" "ordering A' = ordering A" "accepting A' = accepting A"
    and "if items A = [] then c < 0 \<and> d = NULL \<and> items A' = []
         else c = 0 \<and> items A = d # items A'"
  using assms by (auto split: list.splits)

lemma push_law:
  assumes ok: "queue_ok q" and fr: "fresh_block b q"
  shows "\<exists>c q'. push 0 0 b x q = Some (Returned c q') \<and> queue_ok q' \<and>
    mCapability q' = mCapability q \<and> order_of q' = order_of q \<and>
    mAllowedNewData q' = mAllowedNewData q \<and>
    (if c = 0 then contents q' = place (order_of q) x (contents q) \<and>
        length (contents q) < unat (mCapability q)
     else c < 0 \<and> contents q' = contents q)"
proof -
  from pushElement_core [OF assms, of x] obtain c q' where
    p: "pushElement b x False [] q = Some (Returned c q')" "queue_ok q'"
    and s: "spec_push (b \<noteq> NULL) x (abs_queue q) = (c, abs_queue q')"
    by blast
  from spec_push_frame [OF s abs_full(2) [OF ok]] p show ?thesis
    by (auto simp: push_unlocked word_unat_eq_iff)
qed

lemma pop_law:
  assumes ok: "queue_ok q"
  shows "\<exists>c d q'. pop 0 0 NULL q = Some (Returned (c, d) q') \<and> queue_ok q' \<and>
    mCapability q' = mCapability q \<and> order_of q' = order_of q \<and>
    mAllowedNewData q' = mAllowedNewData q \<and>
    (if contents q = [] then c < 0 \<and> d = NULL \<and> contents q' = []
     else c = 0 \<and> contents q = d # contents q')"
proof -
  from popElement_core [OF ok, of NULL] obtain c d q' where
    p: "popElement NULL False [] None NULL q = Some (Returned (c, d) q')" "queue_ok q'"
    and s: "spec_pop (abs_queue q) = ((c, d), abs_queue q')"
    by (metis surj_pair)
  from spec_pop_frame [OF s] p show ?thesis
    by (auto simp: pop_unlocked word_unat_eq_iff)
qed

section \<open>The model meets the contract\<close>

definition fifo_inv :: "Queue \<Rightarrow> bool" where
  "fifo_inv q \<longleftrightarrow> queue_ok q \<and> order_of q = None"

definition sorted_inv :: "Queue \<Rightarrow> bool" where
  "sorted_inv q \<longleftrightarrow> queue_ok q \<and>
     (case order_of q of None \<Rightarrow> False
      | Some (asc, cmp) \<Rightarrow> ordering_cmp cmp \<and> sorted_wrt (before asc cmp) (contents q))"

definition rank_of :: "Queue \<Rightarrow> addr \<Rightarrow> addr \<Rightarrow> bool" where
  "rank_of q = (case order_of q of None \<Rightarrow> \<lambda>_ _. True | Some (asc, cmp) \<Rightarrow> before asc cmp)"

definition capacity_of :: "Queue \<Rightarrow> nat" where
  "capacity_of q = unat (mCapability q)"

lemma capacity_of_wakeups [simp]: "capacity_of (q\<lparr>wakeups := w\<rparr>) = capacity_of q"
  by (simp add: capacity_of_def)

interpretation fifo: fifo_queue fifo_inv contents capacity_of fresh_block "push 0 0" "pop 0 0 NULL"
proof (unfold_locales, goal_cases)
  case (1 q b x)
  then have "queue_ok q" by (simp add: fifo_inv_def)
  from push_law [OF this 1(2), of x] 1 show ?case
    by (fastforce simp: fifo_inv_def capacity_of_def)
next
  case (2 q)
  then have "queue_ok q" by (simp add: fifo_inv_def)
  from pop_law [OF this] 2 show ?case
    by (fastforce simp: fifo_inv_def capacity_of_def)
next
  case (3 q b x q')
  then have "queue_ok q" by (simp add: fifo_inv_def)
  from push_law [OF this 3(2), of x] 3 show ?case by (auto simp: fifo_inv_def)
qed

interpretation sorted: sorted_queue sorted_inv contents capacity_of fresh_block
  "push 0 0" "pop 0 0 NULL" rank_of
proof (unfold_locales, goal_cases)
  case (1 q b x)
  then obtain asc cmp where ok: "queue_ok q" "order_of q = Some (asc, cmp)" "ordering_cmp cmp"
      "sorted_wrt (before asc cmp) (contents q)"
    by (auto simp: sorted_inv_def split: option.splits)
  from push_law [OF ok(1) 1(2), of x] obtain c q' where
    p: "push 0 0 b x q = Some (Returned c q')" "queue_ok q'" "mCapability q' = mCapability q"
      "order_of q' = order_of q"
    and r: "if c = 0 then contents q' = place (order_of q) x (contents q) \<and>
        length (contents q) < unat (mCapability q)
      else c < 0 \<and> contents q' = contents q"
    by blast
  have "sorted_wrt (before asc cmp) (contents q')"
    using r ok ordering_cmp.place_sorted [OF ok(3,4), of x] by (auto split: if_splits)
  then show ?case using p r ok
    by (intro exI [of _ c] exI [of _ q']) (auto simp: sorted_inv_def capacity_of_def split: if_splits)
next
  case (2 q)
  then obtain asc cmp where ok: "queue_ok q" "order_of q = Some (asc, cmp)" "ordering_cmp cmp"
      "sorted_wrt (before asc cmp) (contents q)"
    by (auto simp: sorted_inv_def split: option.splits)
  from pop_law [OF ok(1)] ok show ?case
    by (fastforce simp: sorted_inv_def capacity_of_def split: if_splits)
next
  case (3 q)
  then show ?case by (auto simp: sorted_inv_def rank_of_def split: option.splits)
next
  case (4 q b x c q')
  then have "queue_ok q" by (simp add: sorted_inv_def)
  from push_law [OF this 4(2), of x] 4 show ?case by (auto simp: rank_of_def)
next
  case (5 q r q')
  then have "queue_ok q" by (simp add: sorted_inv_def)
  from pop_law [OF this] 5 show ?case by (auto simp: rank_of_def)
qed

end
