(* ===== verification/Queue_Api.thy ===== *)
theory Queue_Api
  imports Queue_Run
begin

text \<open>
  The properties of the public interface of \<open>Queue\<close>: construction, the error codes of every
  branch, order of the elements over whole runs, waiting, counting and destruction.
\<close>

section \<open>Construction\<close>

lemma queue_init_ok [simp]: "queue_ok queue_init" "contents queue_init = []"
    "order_of queue_init = None" "mAllowedNewData queue_init" "unat (mCapability queue_init) = 2147483646"
proof -
  have "queue_wf queue_init []" by (simp add: queue_wf_def queue_init_def)
  then show "queue_ok queue_init" "contents queue_init = []" by (auto simp: contents_wf)
qed (simp_all add: queue_init_def order_of_def)

lemma queue_new_facts:
  "queue_ok (Queue_new_max_sorted n asc cmp)" "contents (Queue_new_max_sorted n asc cmp) = []"
  "unat (mCapability (Queue_new_max_sorted n asc cmp)) = (if n = 0 then 2147483646 else unat n)"
  "order_of (Queue_new_max_sorted n asc cmp) = map_option (Pair asc) cmp"
  "mAllowedNewData (Queue_new_max_sorted n asc cmp)"
proof -
  have "queue_wf (Queue_new_max_sorted n asc cmp) []"
    by (simp add: queue_wf_def Queue_new_max_sorted_def set_order_def set_capacity_def
        queue_init_def split: option.splits)
  then show "queue_ok (Queue_new_max_sorted n asc cmp)"
    "contents (Queue_new_max_sorted n asc cmp) = []" by (auto simp: contents_wf)
qed (auto simp: Queue_new_max_sorted_def set_order_def set_capacity_def queue_init_def
    order_of_def word_gt_0 split: option.splits)

lemma new_as_max_sorted:
  "Queue_new = Queue_new_max_sorted 0 True None"
  "Queue_new_max n = Queue_new_max_sorted n True None"
  "Queue_new_sorted asc cmp = Queue_new_max_sorted 0 asc cmp"
  by (simp_all add: Queue_new_def Queue_new_max_def Queue_new_sorted_def
      Queue_new_max_sorted_def set_capacity_def set_order_def)

text \<open>
  Every constructor yields a well-formed, empty, accepting queue; a limit of 0
  means the default of \<open>INT32_MAX - 1\<close>, and the queue is ordered exactly when a comparator is
  given.
\<close>

theorem constructors_ok:
  "abs_queue Queue_new = \<lparr>items = [], room = 2147483646, accepting = True, ordering = None\<rparr> \<and>
   abs_queue (Queue_new_max n) =
     \<lparr>items = [], room = (if n = 0 then 2147483646 else unat n), accepting = True, ordering = None\<rparr> \<and>
   abs_queue (Queue_new_sorted asc cmp) =
     \<lparr>items = [], room = 2147483646, accepting = True, ordering = map_option (Pair asc) cmp\<rparr> \<and>
   abs_queue (Queue_new_max_sorted n asc cmp) =
     \<lparr>items = [], room = (if n = 0 then 2147483646 else unat n), accepting = True,
      ordering = map_option (Pair asc) cmp\<rparr> \<and>
   queue_ok Queue_new \<and> queue_ok (Queue_new_max n) \<and> queue_ok (Queue_new_sorted asc cmp) \<and>
   queue_ok (Queue_new_max_sorted n asc cmp)"
  by (simp add: abs_queue_def new_as_max_sorted queue_new_facts)

section \<open>push and pop\<close>

text \<open>
  C1 (refinement): \<open>push\<close> on a well-formed queue, for any results of locking and any block
  \<open>calloc\<close> returns. A failing lock returns \<open>Q_ERR_LOCK\<close> and changes nothing. Otherwise only
  live cells are dereferenced, the queue stays well-formed, and code and contents are those
  of the abstract push (refused, full, out of memory, appended or placed in order); a failing
  unlock replaces the code only.
\<close>

theorem push_correct:
  assumes "queue_ok q" and "fresh_block b q"
  shows "\<exists>c q'. push lk ulk b x q = Some (Returned c q') \<and> queue_ok q' \<and>
    (if lk \<noteq> 0 then c = qerr Q_ERR_LOCK \<and> q' = q
     else abs_queue q' = snd (spec_push (b \<noteq> NULL) x (abs_queue q)) \<and>
       c = (if ulk \<noteq> 0 then qerr Q_ERR_LOCK else fst (spec_push (b \<noteq> NULL) x (abs_queue q))))"
  using pushElement_core [OF assms, of x] assms(1) by (cases "lk = 0") (auto simp: push_def)

theorem push_correct_witness:
  "\<exists>c q'. push 0 0 4 40 sample_queue = Some (Returned c q') \<and> queue_ok q' \<and>
     c = 0 \<and> items (abs_queue q') = [10, 20, 30, 40]"
proof -
  have "fresh_block 4 sample_queue" by (simp add: fresh_block_def sample_queue_def)
  from push_correct [OF sample_queue_ok this, of 0 0 40] show ?thesis
    by (auto simp: sample_queue_abs spec_push_def spec_insert_def dest!: contents_of_abs)
qed

text \<open>
  C2 (refinement): \<open>pop\<close> on a well-formed queue returns the element at the front and frees its
  cell, or \<open>Q_ERR_NUM_ELEMENTS\<close> and a null element when there is none; locking errors as for
  \<open>push\<close>, where a failing lock leaves \<open>*e\<close> as it was.
\<close>

theorem pop_correct:
  assumes "queue_ok q"
  shows "\<exists>c d q'. pop lk ulk e0 q = Some (Returned (c, d) q') \<and> queue_ok q' \<and>
    (if lk \<noteq> 0 then c = qerr Q_ERR_LOCK \<and> d = e0 \<and> q' = q
     else abs_queue q' = snd (spec_pop (abs_queue q)) \<and>
       d = snd (fst (spec_pop (abs_queue q))) \<and>
       c = (if ulk \<noteq> 0 then qerr Q_ERR_LOCK else fst (fst (spec_pop (abs_queue q)))))"
  using popElement_core [OF assms, of e0] assms by (cases "lk = 0") (auto simp: pop_def)

theorem pop_correct_witness:
  "\<exists>q'. pop 0 0 NULL sample_queue = Some (Returned (0, 10) q') \<and> contents q' = [20, 30]"
  using pop_correct [of sample_queue 0 0 NULL] by (auto simp: sample_queue_abs dest!: contents_of_abs)

text \<open>
  \<open>peek\<close> reads the element at a position and changes nothing. A negative
  position reads the first element, a position beyond the end is \<open>Q_ERR_INVALID_ELEMENT\<close>
  with a null element.
\<close>

theorem peek_correct:
  assumes "queue_ok q"
  shows "peek lk ulk pos q = Some
    ((if lk \<noteq> 0 then (qerr Q_ERR_LOCK, NULL)
      else (if ulk \<noteq> 0 then qerr Q_ERR_LOCK else fst (spec_peek NULL pos (abs_queue q)),
            snd (spec_peek NULL pos (abs_queue q)))), q)"
  using peekElement_core [OF assms, of NULL pos]
  by (cases "lk = 0"; cases "spec_peek NULL pos (abs_queue q)") (auto simp: peek_def)

theorem peek_correct_witness: "peek 0 0 2 sample_queue = Some ((0, 30), sample_queue)"
  using peek_correct [of sample_queue 0 0 2] by (simp add: spec_peek_def)

text \<open>
  C12 (functional): flushing ends, frees every cell of the queue, passes the elements to the
  callback once each in queue order, and leaves a well-formed empty queue. It wakes nobody.
\<close>

theorem flushAndCallback_correct:
  assumes "queue_ok q"
  shows "\<exists>q'. flushAndCallback 0 ulk u fcb q =
      Some ((if ulk \<noteq> 0 then qerr Q_ERR_LOCK else qerr Q_OK,
             case fcb of None \<Rightarrow> u | Some f \<Rightarrow> foldl f u (contents q)), q') \<and>
    queue_ok q' \<and> cells q' = Map.empty \<and> abs_queue q' = (abs_queue q)\<lparr>items := []\<rparr> \<and>
    wakeups q' = wakeups q"
  using flushElements_core [OF assms, of u fcb, unfolded abs_queue_fields] by (auto simp: flushAndCallback_def)

theorem flushAndCallback_correct_witness:
  "\<exists>q'. flushAndCallback 0 0 [] (Some (\<lambda>u d. u @ [d])) sample_queue = Some ((0, [10, 20, 30]), q') \<and>
    contents q' = []"
  using flushAndCallback_correct [of sample_queue 0 "[]" "Some (\<lambda>u d. u @ [d])"]
  by (auto simp: abs_queue_def)

section \<open>Whole runs\<close>

lemma arena_fresh [simp]: "fresh_block (arena q) q"
  by (auto simp: fresh_block_def arena_def)


text \<open>
  C4 (functional): first in, first out. For every sequence of pushes and pops on an unordered
  queue, the calls all return, and what was in the queue followed by the accepted elements is
  what was popped followed by what is left, in order.
\<close>

theorem fifo_order:
  assumes "queue_ok q" and "order_of q = None" and "\<And>q. fresh_block (alloc q) q"
  shows "\<exists>i out q'. run_calls (push 0 0) (pop 0 0 NULL) alloc cs q = Some (i, out, q') \<and>
    queue_ok q' \<and> contents q @ i = out @ contents q'"
  using fifo.run_fifo [of alloc q cs] assms by (auto simp: fifo_inv_def)

theorem fifo_order_witness:
  "\<exists>i out q'. run_calls (push 0 0) (pop 0 0 NULL)
      arena
      [Enq 10, Enq 20, Deq] Queue_new = Some (i, out, q') \<and> i = out @ contents q'"
  using fifo_order [of Queue_new arena
      "[Enq 10, Enq 20, Deq]"] by (auto simp: Queue_new_def)

lemma sorted_drain_core:
  assumes cmp: "ordering_cmp cmp" and alloc: "\<And>q. fresh_block (alloc q) q"
  shows "\<exists>i q1 out q2. run_calls (push 0 0) (pop 0 0 NULL) alloc (map Enq xs)
        (Queue_new_max_sorted n asc (Some cmp)) = Some (i, [], q1) \<and>
      run_calls (push 0 0) (pop 0 0 NULL) alloc (replicate (length i) Deq) q1 = Some ([], out, q2) \<and>
      sorted_wrt (before asc cmp) out \<and> mset out = mset i \<and> contents q2 = []"
proof -
  let ?q = "Queue_new_max_sorted n asc (Some cmp)"
  have inv: "sorted_inv ?q" by (simp add: sorted_inv_def queue_new_facts cmp)
  from sorted.fill_keeps_rank [of alloc ?q xs] inv alloc obtain i q1 where
    fill: "run_calls (push 0 0) (pop 0 0 NULL) alloc (map Enq xs) ?q = Some (i, [], q1)"
    and q1: "sorted_inv q1" "rank_of q1 = rank_of ?q" "mset (contents q1) = mset i"
    by (auto simp: queue_new_facts)
  have len: "length i = length (contents q1)" using q1(3) by (metis size_mset)
  from sorted.drain [OF q1(1), of alloc] obtain q2 where
    "run_calls (push 0 0) (pop 0 0 NULL) alloc (replicate (length i) Deq) q1 =
      Some ([], contents q1, q2)" "contents q2 = []"
    unfolding len by blast
  moreover have "sorted_wrt (before asc cmp) (contents q1)"
    using sorted.content_sorted [OF q1(1)] q1(2) by (simp add: rank_of_def queue_new_facts)
  ultimately show ?thesis using fill q1(3) by blast
qed

text \<open>
  C3 (functional): an ordered queue sorts. Whatever is pushed into an empty ordered queue whose
  comparator is a total preorder, popping as many elements as it then holds yields exactly the
  accepted ones, in the order of the comparator, and leaves the queue empty.
\<close>

theorem sorted_drain:
  assumes cmp: "ordering_cmp cmp" and alloc: "\<And>q. fresh_block (alloc q) q"
  shows "\<exists>i q1 out q2. run_calls (push 0 0) (pop 0 0 NULL) alloc (map Enq xs)
        (Queue_new_max_sorted n asc (Some cmp)) = Some (i, [], q1) \<and>
      run_calls (push 0 0) (pop 0 0 NULL) alloc (replicate (length i) Deq) q1 = Some ([], out, q2) \<and>
      sorted_wrt (before asc cmp) out \<and> mset out = mset i \<and> contents q2 = []"
  by (rule sorted_drain_core [OF cmp alloc])

theorem sorted_drain_witness:
  "\<exists>i q1 out q2. run_calls (push 0 0) (pop 0 0 NULL)
      arena
      (map Enq [20, 10]) (Queue_new_max_sorted 3 True (Some (\<lambda>a b. int a - int b))) = Some (i, [], q1) \<and>
    run_calls (push 0 0) (pop 0 0 NULL)
      arena
      (replicate (length i) Deq) q1 = Some ([], out, q2) \<and>
    sorted_wrt (before True (\<lambda>a b. int a - int b)) out \<and> mset out = mset i \<and> contents q2 = []"
  by (rule sorted_drain) (unfold_locales, simp_all)

section \<open>Waiting\<close>

text \<open>The queue after the first \<open>k\<close> interferences.\<close>

definition after :: "(Queue \<Rightarrow> Queue) list \<Rightarrow> nat \<Rightarrow> Queue \<Rightarrow> Queue" where
  "after envs k q = foldl (\<lambda>q e. e q) q (take k envs)"

lemma after_simps [simp]: "after envs 0 q = q" "after (e # es) (Suc k) q = after es k (e q)"
  by (simp_all add: after_def)

text \<open>The loop stops at the first state in which its condition fails.\<close>

lemma wait_while_first:
  "\<exists>k \<le> length envs. (\<forall>j < k. c (after envs j q)) \<and>
     (if c (after envs k q) then k = length envs \<and> wait_while c envs q = Asleep (after envs k q)
      else wait_while c envs q = Returned () (after envs k q))"
proof (induction envs arbitrary: q)
  case Nil
  then show ?case by simp
next
  case (Cons e es)
  show ?case
  proof (cases "c q")
    case True
    from Cons.IH [of "e q"] obtain k where k: "k \<le> length es" "\<forall>j < k. c (after es j (e q))"
      "if c (after es k (e q)) then k = length es \<and> wait_while c es (e q) = Asleep (after es k (e q))
       else wait_while c es (e q) = Returned () (after es k (e q))"
      by blast
    then have "\<forall>j < Suc k. c (after (e # es) j q)" using True by (auto simp: less_Suc_eq_0_disj)
    then show ?thesis using k True by (intro exI [of _ "Suc k"]) auto
  next
    case False
    then show ?thesis by (intro exI [of _ 0]) simp
  qed
qed

text \<open>
  C9 (functional): \<open>pushAndWait\<close> acts at the first moment the queue is not both full and
  accepting, and there it does what \<open>push\<close> does: it inserts if there is room, and returns
  \<open>Q_ERR_NONEWDATA\<close> if new data is refused. Until then it sleeps.
\<close>

theorem pushAndWait_first_room:
  assumes ok: "\<forall>k \<le> length envs. queue_ok (after envs k q) \<and> fresh_block b (after envs k q)"
  shows "\<exists>k \<le> length envs. let q1 = after envs k q in
    (\<forall>j < k. length (contents (after envs j q)) = unat (mCapability (after envs j q)) \<and>
       mAllowedNewData (after envs j q)) \<and>
    (if length (contents q1) = unat (mCapability q1) \<and> mAllowedNewData q1
     then k = length envs \<and> pushAndWait 0 0 b x envs q = Some (Asleep q1)
     else pushAndWait 0 0 b x envs q = push 0 0 b x q1)"
proof -
  let ?c = "\<lambda>q. mUsedElementCnts q = mCapability q \<and> mAllowedNewData q"
  from wait_while_first [of envs ?c q] obtain k where k: "k \<le> length envs"
    "\<forall>j < k. ?c (after envs j q)"
    "if ?c (after envs k q) then k = length envs \<and> wait_while ?c envs q = Asleep (after envs k q)
     else wait_while ?c envs q = Returned () (after envs k q)"
    by blast
  have full: "?c (after envs j q) \<longleftrightarrow>
      length (contents (after envs j q)) = unat (mCapability (after envs j q)) \<and>
      mAllowedNewData (after envs j q)" if "j \<le> k" for j
    using abs_full(1) [of "after envs j q"] ok that k(1) by auto
  let ?q1 = "after envs k q"
  have "if ?c ?q1 then k = length envs \<and> pushAndWait 0 0 b x envs q = Some (Asleep ?q1)
     else pushAndWait 0 0 b x envs q = push 0 0 b x ?q1"
  proof (cases k)
    case 0
    then show ?thesis using k(3)
      by (auto simp: pushAndWait_def push_def pushElement_def pushWaitLoop_def option.map_id)
  next
    case (Suc m)
    then have "?c q" using k(2) by (metis after_simps(1) zero_less_Suc)
    then show ?thesis using k(3)
      by (auto simp: pushAndWait_def push_def pushElement_def pushWaitLoop_def option.map_id)
  qed
  then show ?thesis using k(1,2) full by (intro exI [of _ k]) (auto simp: Let_def)
qed

theorem pushAndWait_first_room_witness:
  "let q = sample_queue\<lparr>mCapability := 3\<rparr> in pushAndWait 0 0 4 40 [] q = Some (Asleep q)"
proof -
  define q where "q = sample_queue\<lparr>mCapability := 3\<rparr>"
  have "queue_wf q [1, 2, 3]" using sample_queue_wf by (auto simp: queue_wf_def q_def)
  then have "queue_ok q" "length (contents q) = 3" by (auto simp: contents_wf)
  then show ?thesis
    using pushAndWait_first_room [of "[]" q 4 40]
    by (simp add: fresh_block_def Let_def q_def sample_queue_def)
qed

text \<open>
  C10 (functional): \<open>popAndWait\<close> acts at the first moment the queue is not both empty and
  accepting: it takes the front element if there is one, even when new data is refused, and
  otherwise returns \<open>Q_ERR_NONEWDATA\<close> with a null element.
\<close>

theorem popAndWait_first_element:
  assumes ok: "\<forall>k \<le> length envs. queue_ok (after envs k q)"
  shows "\<exists>k \<le> length envs. let q1 = after envs k q in
    (\<forall>j < k. contents (after envs j q) = [] \<and> mAllowedNewData (after envs j q)) \<and>
    (if contents q1 = [] then
       (if mAllowedNewData q1 then k = length envs \<and> popAndWait 0 0 envs q = Some (Asleep q1)
        else popAndWait 0 0 envs q = Some (Returned (qerr Q_ERR_NONEWDATA, NULL) q1))
     else popAndWait 0 0 envs q = pop 0 0 NULL q1)"
proof -
  let ?c = "\<lambda>q. mUsedElementCnts q = 0 \<and> mAllowedNewData q"
  from wait_while_first [of envs ?c q] obtain k where k: "k \<le> length envs"
    "\<forall>j < k. ?c (after envs j q)"
    "if ?c (after envs k q) then k = length envs \<and> wait_while ?c envs q = Asleep (after envs k q)
     else wait_while ?c envs q = Returned () (after envs k q)"
    by blast
  have empty: "mUsedElementCnts (after envs j q) = 0 \<longleftrightarrow> contents (after envs j q) = []"
    if "j \<le> k" for j
  proof -
    from ok that k(1) obtain as where "queue_wf (after envs j q) as"
      by (meson le_trans queue_okE)
    then show ?thesis by (metis contents_wf datas_simps(1,4) length_0_conv queue_wf_count(2))
  qed
  let ?q1 = "after envs k q"
  have "if mUsedElementCnts ?q1 = 0 then
       (if mAllowedNewData ?q1 then k = length envs \<and> popAndWait 0 0 envs q = Some (Asleep ?q1)
        else popAndWait 0 0 envs q = Some (Returned (qerr Q_ERR_NONEWDATA, NULL) ?q1))
     else popAndWait 0 0 envs q = pop 0 0 NULL ?q1"
  proof (cases k)
    case 0
    then show ?thesis using k(3)
      by (auto simp: popAndWait_def pop_def popElement_def popWaitLoop_def option.map_id)
  next
    case (Suc m)
    then have "?c q" using k(2) by (metis after_simps(1) zero_less_Suc)
    then show ?thesis using k(3)
      by (auto simp: popAndWait_def pop_def popElement_def popWaitLoop_def option.map_id)
  qed
  then show ?thesis using k(1,2) empty by (intro exI [of _ k]) (auto simp: Let_def)
qed

theorem popAndWait_first_element_witness:
  "popAndWait 0 0 [\<lambda>q. q, \<lambda>q. q\<lparr>mAllowedNewData := False\<rparr>] queue_init =
     Some (Returned (-4, NULL) (queue_init\<lparr>mAllowedNewData := False\<rparr>))"
proof -
  let ?q = "queue_init\<lparr>mAllowedNewData := False\<rparr>"
  have wf: "queue_wf ?q []" by (simp add: queue_wf_def queue_init_def)
  then have *: "queue_ok ?q" "contents ?q = []" by (auto simp: contents_wf)
  have "\<forall>k \<le> 2. queue_ok (after [\<lambda>q. q, \<lambda>q. q\<lparr>mAllowedNewData := False\<rparr>] k queue_init)"
    using * by (auto simp: eval_nat_numeral le_Suc_eq)
  then show ?thesis
    using popAndWait_first_element [of "[\<lambda>q. q, \<lambda>q. q\<lparr>mAllowedNewData := False\<rparr>]" queue_init] *
    by (auto simp: Let_def eval_nat_numeral le_Suc_eq less_Suc_eq)
qed

section \<open>Counting\<close>

text \<open>
  \<open>getCnt\<close> converts the 32-bit counter to a signed result. It is the number of
  elements whenever the limit is at most \<open>INT32_MAX\<close>, as for a default queue, and is the number
  reduced into the signed range otherwise; \<open>isEmpty\<close> agrees with the contents.
\<close>

theorem getCnt_correct:
  assumes "queue_ok q"
  shows "getCnt 0 0 q = to_i32 (int (length (contents q))) \<and>
    (unat (mCapability q) \<le> 2147483647 \<longrightarrow> getCnt 0 0 q = int (length (contents q))) \<and>
    (isEmpty q \<longleftrightarrow> contents q = [])"
proof -
  from assms obtain as where wf: "queue_wf q as" by blast
  have len: "length (contents q) = length as" by (simp add: contents_wf [OF wf])
  have n: "unat (mUsedElementCnts q) = length as" and le: "length as \<le> unat (mCapability q)"
    using wf by (auto simp: queue_wf_def)
  have "getCnt 0 0 q = sint (mUsedElementCnts q)" by (simp add: getCnt_def)
  also have "\<dots> = to_i32 (uint (mUsedElementCnts q))"
    by (simp add: sint_uint signed_take_bit_eq_take_bit_shift take_bit_eq_mod to_i32_def add.commute)
  also have "uint (mUsedElementCnts q) = int (length as)" by (simp flip: n)
  finally have cnt: "getCnt 0 0 q = to_i32 (int (length as))" .
  moreover have "unat (mCapability q) \<le> 2147483647 \<longrightarrow> to_i32 (int (length as)) = int (length as)"
    using le by (auto intro!: to_i32_id simp: machine_limits)
  moreover have "isEmpty q \<longleftrightarrow> contents q = []"
    unfolding isEmpty_def queue_wf_count(4,5) [OF wf] using len by (metis length_0_conv)
  ultimately show ?thesis by (simp add: len)
qed

theorem getCnt_correct_witness: "getCnt 0 0 sample_queue = 3 \<and> \<not> isEmpty sample_queue"
proof -
  have "unat (mCapability sample_queue) = 4" by (simp add: sample_queue_def)
  then show ?thesis using getCnt_correct [OF sample_queue_ok] by simp
qed

section \<open>Locking errors\<close>

text \<open>
  If the mutex cannot be locked, every operation returns \<open>Q_ERR_LOCK\<close> and leaves
  the queue alone; only \<open>isAllowedNewData\<close> answers "allowed", since its \<open>bool\<close> result cannot
  hold the code.
\<close>

theorem lock_failure:
  assumes "lk \<noteq> 0"
  shows "push lk ulk b x q = Some (Returned (-2) q) \<and>
    pushAndWait lk ulk b x envs q = Some (Returned (-2) q) \<and>
    pop lk ulk e0 q = Some (Returned (-2, e0) q) \<and>
    popAndWait lk ulk envs q = Some (Returned (-2, NULL) q) \<and>
    peek lk ulk pos q = Some ((-2, NULL), q) \<and>
    flush lk ulk q = Some (-2, q) \<and>
    getCnt lk ulk q = -2 \<and>
    setAllowedNewData lk ulk allowed q = (-2, q) \<and>
    isAllowedNewData lk ulk q = True"
  using assms
  by (simp add: push_def pushAndWait_def pop_def popAndWait_def peek_def flush_def getCnt_def
      setAllowedNewData_def isAllowedNewData_def)

theorem lock_failure_witness:
  "push 22 0 1 10 sample_queue = Some (Returned (-2) sample_queue) \<and>
   isAllowedNewData 22 0 (sample_queue\<lparr>mAllowedNewData := False\<rparr>) = True"
  using lock_failure [of 22 0 1 10 sample_queue] lock_failure [of 22 0 1 10 "sample_queue\<lparr>mAllowedNewData := False\<rparr>"]
  by simp

section \<open>Refusing new data\<close>

text \<open>
  C13 (functional): switching new data off refuses every later push with \<open>Q_ERR_NONEWDATA\<close>, keeps
  the elements for \<open>pop\<close>, and broadcasts to both condition variables; switching it on wakes
  nobody.
\<close>

theorem setAllowedNewData_correct:
  assumes "queue_ok q"
  shows "\<exists>q'. setAllowedNewData 0 0 allowed q = (qerr Q_OK, q') \<and> queue_ok q' \<and>
    abs_queue q' = (abs_queue q)\<lparr>accepting := allowed\<rparr> \<and>
    wakeups q' = wakeups q @ (if allowed then [] else [BroadcastGet, BroadcastPut]) \<and>
    (\<not> allowed \<longrightarrow> push 0 0 b x q' = Some (Returned (qerr Q_ERR_NONEWDATA) q') \<and>
       pushAndWait 0 0 b x envs q' = Some (Returned (qerr Q_ERR_NONEWDATA) q'))"
proof -
  define q1 where "q1 = q\<lparr>mAllowedNewData := allowed\<rparr>"
  have ad: "addrs q1 = addrs q" by (simp add: q1_def addrs_def)
  have "queue_wf q1 (addrs q)" using assms by (simp add: queue_ok_def queue_wf_def q1_def)
  then have "queue_ok q1" ..
  moreover have "abs_queue q1 = (abs_queue q)\<lparr>accepting := allowed\<rparr>"
    by (simp add: abs_queue_def contents_def ad) (simp add: q1_def order_of_def)
  moreover have "setAllowedNewData 0 0 allowed q = (0, notify_refused q1)"
    by (simp add: setAllowedNewData_def q1_def)
  ultimately show ?thesis
    by (auto simp: notify_refused_def q1_def push_def pushAndWait_def pushElement_def)
qed

theorem setAllowedNewData_correct_witness:
  "\<exists>q'. setAllowedNewData 0 0 False sample_queue = (0, q') \<and>
    push 0 0 4 40 q' = Some (Returned (-4) q')"
  using setAllowedNewData_correct [of sample_queue False 4 40 "[]"] by auto

section \<open>Destruction\<close>

lemma destroy_mutex_busy:
  "rc \<noteq> EBUSY \<Longrightarrow> destroy_mutex (replicate n EBUSY @ rc # rcs) = Some rc"
  by (induction n) auto

text \<open>
  C14 (termination): the destructor ends as soon as the mutex is no longer busy, however often
  it was, whether or not the locking calls succeed; it frees every cell and its result is the
  final result of \<open>pthread_mutex_destroy\<close>.
\<close>

theorem release_frees_all:
  assumes ok: "queue_ok q" and rc: "rc \<noteq> EBUSY"
  shows "\<exists>q'. release slk sulk (replicate n EBUSY @ rc # rcs) q = Some (rc, q') \<and>
    cells q' = Map.empty \<and> queue_ok q'"
proof -
  define q1 where "q1 = snd (setAllowedNewData slk sulk False q)"
  have same: "cells q1 = cells q" "mUsedFirstElement q1 = mUsedFirstElement q"
    "mUsedLastElement q1 = mUsedLastElement q" "mUsedElementCnts q1 = mUsedElementCnts q"
    "mCapability q1 = mCapability q" "mSort q1 = mSort q" "cmpEleFun q1 = cmpEleFun q"
    by (simp_all add: q1_def setAllowedNewData_def notify_refused_def Let_def)
  have "queue_ok q1" using ok by (simp add: queue_ok_def queue_wf_def addrs_def same)
  from flushElements_core [OF this, of "()" None] obtain q2 where
    q2: "flushElements () None q1 = Some ((0, ()), q2)" "queue_ok q2" "cells q2 = Map.empty"
    by auto
  then obtain as where wf: "queue_wf q2 as" by blast
  then have "as = []" using q2(3) by (cases as) (auto simp: queue_wf_def)
  with wf have "queue_wf (q2\<lparr>mUsedFirstElement := NULL, mUsedLastElement := NULL\<rparr>) []"
    by (simp add: queue_wf_def)
  then show ?thesis using q2 destroy_mutex_busy [OF rc, of n rcs]
    by (auto simp: release_def Let_def simp flip: q1_def)
qed

theorem release_frees_all_witness:
  "\<exists>q'. release 0 0 [EBUSY, EBUSY, 0] sample_queue = Some (0, q') \<and> cells q' = Map.empty"
  using release_frees_all [of sample_queue 0 0 0 2 "[]"] by (auto simp: EBUSY_def eval_nat_numeral)

end
