(* ===== verification/Queue_Conc.thy ===== *)
theory Queue_Conc
  imports Queue_Api
begin

text \<open>
  The queue shared by any number of threads. A thread takes the mutex, runs the body of an
  operation (the definitions of theory \<open>Queue\<close>) as one critical section, and leaves it, or
  falls asleep on \<open>mCondPut\<close> or \<open>mCondGet\<close> and competes for the mutex again once woken, by a
  signal, a broadcast or spuriously. \<open>setAllowedNewData\<close> reads its flag and broadcasts after it
  released the mutex, in steps of their own. Two histories record what was inserted and what
  was taken out.
\<close>

section \<open>The system\<close>

datatype qop =
  OpPush addr | OpPushWait addr | OpPop | OpPopWait | OpFlush | OpAllow bool

datatype qpc =
    Idle
  | Running qop
  | PutWait addr | PutWoken addr | PutResume addr
  | GetWait | GetWoken | GetResume
  | ReadFlag | CastGet | CastPut

record qsys =
  sq :: Queue
  owner :: "nat option"
  pcs :: "nat \<Rightarrow> qpc"
  hist_in :: "addr list"
  hist_out :: "addr list"

fun after_push :: "addr \<Rightarrow> (int, Queue) outcome \<Rightarrow> qpc \<times> addr list \<times> addr list \<times> Queue" where
  "after_push x (Returned c q) = (Idle, if c = qerr Q_OK then [x] else [], [], q)"
| "after_push x (Asleep q) = (PutWait x, [], [], q)"

fun after_pop :: "(int \<times> addr, Queue) outcome \<Rightarrow> qpc \<times> addr list \<times> addr list \<times> Queue" where
  "after_pop (Returned (c, d) q) = (Idle, [], if c = qerr Q_OK then [d] else [], q)"
| "after_pop (Asleep q) = (GetWait, [], [], q)"

text \<open>
  The critical section a thread runs from its program counter, with the block \<open>b\<close> that
  \<open>calloc\<close> returns: the next program counter, the elements inserted and taken out, and the
  queue. \<open>None\<close> is a fault, or a program counter outside any critical section.
\<close>

fun critical :: "addr \<Rightarrow> qpc \<Rightarrow> Queue \<Rightarrow> (qpc \<times> addr list \<times> addr list \<times> Queue) option" where
  "critical b (Running (OpPush x)) q = map_option (after_push x) (pushElement b x False [] q)"
| "critical b (Running (OpPushWait x)) q = map_option (after_push x) (pushElement b x True [] q)"
| "critical b (PutResume x) q = map_option (after_push x) (pushWaitLoop b x [] q)"
| "critical b (Running OpPop) q = map_option after_pop (popElement NULL False [] None NULL q)"
| "critical b (Running OpPopWait) q = map_option after_pop (popElement NULL True [] None NULL q)"
| "critical b GetResume q = map_option after_pop (popWaitLoop NULL [] None NULL q)"
| "critical b (Running OpFlush) q =
     map_option (\<lambda>((_, out), q'). (Idle, [], out, q')) (flushElements [] (Some (\<lambda>u d. u @ [d])) q)"
| "critical b (Running (OpAllow a)) q = Some (ReadFlag, [], [], q\<lparr>mAllowedNewData := a\<rparr>)"
| "critical b _ q = None"

fun in_critical :: "qpc \<Rightarrow> bool" where
  "in_critical (Running _) = True"
| "in_critical (PutResume _) = True"
| "in_critical GetResume = True"
| "in_critical _ = False"

fun wake_get :: "qpc \<Rightarrow> qpc" where
  "wake_get GetWait = GetWoken" | "wake_get pc = pc"

fun wake_put :: "qpc \<Rightarrow> qpc" where
  "wake_put (PutWait x) = PutWoken x" | "wake_put pc = pc"

text \<open>
  What a sequence of calls on the condition variables does to the sleeping threads: a signal
  wakes one sleeper if there is any, a broadcast wakes all of them.
\<close>

inductive wakes :: "wakeup list \<Rightarrow> (nat \<Rightarrow> qpc) \<Rightarrow> (nat \<Rightarrow> qpc) \<Rightarrow> bool" where
  wakes_none: "wakes [] p p"
| wakes_get_idle: "\<forall>i. p i \<noteq> GetWait \<Longrightarrow> wakes ws p p' \<Longrightarrow> wakes (SignalGet # ws) p p'"
| wakes_get_one: "p j = GetWait \<Longrightarrow> wakes ws (p(j := GetWoken)) p' \<Longrightarrow> wakes (SignalGet # ws) p p'"
| wakes_put_idle: "\<forall>i x. p i \<noteq> PutWait x \<Longrightarrow> wakes ws p p' \<Longrightarrow> wakes (SignalPut # ws) p p'"
| wakes_put_one: "p j = PutWait x \<Longrightarrow> wakes ws (p(j := PutWoken x)) p' \<Longrightarrow> wakes (SignalPut # ws) p p'"
| wakes_get_all: "wakes ws (wake_get \<circ> p) p' \<Longrightarrow> wakes (BroadcastGet # ws) p p'"
| wakes_put_all: "wakes ws (wake_put \<circ> p) p' \<Longrightarrow> wakes (BroadcastPut # ws) p p'"

inductive_cases wakes_NilE: "wakes [] p p'"
inductive_cases wakes_SignalGetE: "wakes (SignalGet # ws) p p'"
inductive_cases wakes_SignalPutE: "wakes (SignalPut # ws) p p'"
inductive_cases wakes_BroadcastGetE: "wakes (BroadcastGet # ws) p p'"
inductive_cases wakes_BroadcastPutE: "wakes (BroadcastPut # ws) p p'"

lemmas wakes_elims =
  wakes_NilE wakes_SignalGetE wakes_SignalPutE wakes_BroadcastGetE wakes_BroadcastPutE

text \<open>
  A \<open>calm\<close> run never flushes, never switches new data back on, and never runs out of memory.
\<close>

fun permitted :: "bool \<Rightarrow> qop \<Rightarrow> bool" where
  "permitted calm OpFlush = (\<not> calm)"
| "permitted calm (OpAllow a) = (calm \<longrightarrow> \<not> a)"
| "permitted calm _ = True"

inductive qstep :: "bool \<Rightarrow> qsys \<Rightarrow> qsys \<Rightarrow> bool" for calm where
  acquire: "pcs s i = Idle \<Longrightarrow> owner s = None \<Longrightarrow> permitted calm op \<Longrightarrow>
    qstep calm s (s\<lparr>owner := Some i, pcs := (pcs s)(i := Running op)\<rparr>)"
| reacquire_put: "pcs s i = PutWoken x \<Longrightarrow> owner s = None \<Longrightarrow>
    qstep calm s (s\<lparr>owner := Some i, pcs := (pcs s)(i := PutResume x)\<rparr>)"
| reacquire_get: "pcs s i = GetWoken \<Longrightarrow> owner s = None \<Longrightarrow>
    qstep calm s (s\<lparr>owner := Some i, pcs := (pcs s)(i := GetResume)\<rparr>)"
| critical_section: "owner s = Some i \<Longrightarrow> fresh_block b (sq s) \<Longrightarrow> (calm \<longrightarrow> b \<noteq> NULL) \<Longrightarrow>
    critical b (pcs s i) (sq s) = Some (pc', ins, outs, q') \<Longrightarrow> wakes (wakeups q') (pcs s) p \<Longrightarrow>
    qstep calm s \<lparr>sq = q'\<lparr>wakeups := []\<rparr>, owner = None, pcs = p(i := pc'),
      hist_in = hist_in s @ ins, hist_out = hist_out s @ outs\<rparr>"
| read_refused: "pcs s i = ReadFlag \<Longrightarrow> \<not> mAllowedNewData (sq s) \<Longrightarrow>
    qstep calm s (s\<lparr>pcs := (pcs s)(i := CastGet)\<rparr>)"
| read_allowed: "pcs s i = ReadFlag \<Longrightarrow> mAllowedNewData (sq s) \<Longrightarrow>
    qstep calm s (s\<lparr>pcs := (pcs s)(i := Idle)\<rparr>)"
| cast_get: "pcs s i = CastGet \<Longrightarrow> wakes [BroadcastGet] (pcs s) p \<Longrightarrow>
    qstep calm s (s\<lparr>pcs := p(i := CastPut)\<rparr>)"
| cast_put: "pcs s i = CastPut \<Longrightarrow> wakes [BroadcastPut] (pcs s) p \<Longrightarrow>
    qstep calm s (s\<lparr>pcs := p(i := Idle)\<rparr>)"
| spurious_get: "pcs s i = GetWait \<Longrightarrow> qstep calm s (s\<lparr>pcs := (pcs s)(i := GetWoken)\<rparr>)"
| spurious_put: "pcs s i = PutWait x \<Longrightarrow> qstep calm s (s\<lparr>pcs := (pcs s)(i := PutWoken x)\<rparr>)"

text \<open>All threads idle, a freshly constructed queue.\<close>

definition qstart :: "32 word \<Rightarrow> bool \<Rightarrow> comparator option \<Rightarrow> qsys" where
  "qstart n asc cmp = \<lparr>sq = Queue_new_max_sorted n asc cmp, owner = None, pcs = (\<lambda>_. Idle),
     hist_in = [], hist_out = []\<rparr>"

definition qinit :: "qsys \<Rightarrow> bool" where
  "qinit s \<longleftrightarrow> (\<exists>n asc cmp. s = qstart n asc cmp)"

lemma qstep_calm: "qstep True s t \<Longrightarrow> qstep False s t"
proof (induction rule: qstep.induct)
  case (acquire s i op)
  have "permitted False op" by (cases op) auto
  with acquire show ?case by (intro qstep.acquire)
qed (auto intro: qstep.intros)

section \<open>What a critical section does\<close>

lemma insertElement_wakeups:
  assumes "insertElement b x q = Some (c, q')"
  shows "wakeups q' = wakeups q @ (if c = 0 then [SignalGet] else [])"
  using assms
  by (auto simp: insertElement_def append_cell_def insert_sorted_cell_def Let_def bind_eq_Some_conv
      split: if_splits)

lemma insertElement_mem: "insertElement b x q = Some (c, q') \<Longrightarrow> c \<noteq> 0 \<Longrightarrow> b = NULL"
  by (auto simp: insertElement_def Let_def bind_eq_Some_conv split: if_splits)

text \<open>
  The possible effects, by the kind of section: \<open>m\<close> says that memory was available.
\<close>

inductive effect :: "bool \<Rightarrow> qpc \<Rightarrow> Queue \<Rightarrow> qpc \<Rightarrow> addr list \<Rightarrow> addr list \<Rightarrow> Queue \<Rightarrow> bool" where
  eff_insert: "pc \<in> {Running (OpPush x), Running (OpPushWait x), PutResume x} \<Longrightarrow>
    contents q' = place (order_of q) x (contents q) \<Longrightarrow> length (contents q) < capacity_of q \<Longrightarrow>
    mAllowedNewData q \<Longrightarrow> mAllowedNewData q' = mAllowedNewData q \<Longrightarrow>
    wakeups q' = wakeups q @ [SignalGet] \<Longrightarrow>
    effect m pc q Idle [x] [] q'"
| eff_remove: "pc \<in> {Running OpPop, Running OpPopWait, GetResume} \<Longrightarrow>
    contents q = d # contents q' \<Longrightarrow> mAllowedNewData q' = mAllowedNewData q \<Longrightarrow>
    wakeups q' = wakeups q @ [SignalPut] \<Longrightarrow> effect m pc q Idle [] [d] q'"
| eff_refused: "in_critical pc \<Longrightarrow> (\<forall>x. pc = PutResume x \<longrightarrow> mAllowedNewData q \<longrightarrow> \<not> m) \<Longrightarrow>
    (pc = GetResume \<longrightarrow> contents q = []) \<Longrightarrow> effect m pc q Idle [] [] q"
| eff_sleep_put: "pc \<in> {Running (OpPushWait x), PutResume x} \<Longrightarrow>
    length (contents q) = capacity_of q \<Longrightarrow> mAllowedNewData q \<Longrightarrow> effect m pc q (PutWait x) [] [] q"
| eff_sleep_get: "pc \<in> {Running OpPopWait, GetResume} \<Longrightarrow>
    contents q = [] \<Longrightarrow> mAllowedNewData q \<Longrightarrow> effect m pc q GetWait [] [] q"
| eff_flush: "contents q' = [] \<Longrightarrow> mAllowedNewData q' = mAllowedNewData q \<Longrightarrow>
    wakeups q' = wakeups q \<Longrightarrow> effect m (Running OpFlush) q Idle [] (contents q) q'"
| eff_allow: "contents q' = contents q \<Longrightarrow> mAllowedNewData q' = a \<Longrightarrow>
    wakeups q' = wakeups q \<Longrightarrow> effect m (Running (OpAllow a)) q ReadFlag [] [] q'"

lemma insert_effect:
  assumes ok: "queue_ok q" and fr: "fresh_block b q"
    and pc: "pc \<in> {Running (OpPush x), Running (OpPushWait x), PutResume x}"
    and room: "length (contents q) < capacity_of q" and allowed: "mAllowedNewData q"
  shows "\<exists>c q'. insertElement b x q = Some (c, q') \<and> queue_ok q' \<and>
    mCapability q' = mCapability q \<and> order_of q' = order_of q \<and>
    effect (b \<noteq> NULL) pc q Idle (if c = 0 then [x] else []) [] q'"
proof -
  from insertElement_refines [OF ok fr, of x] room obtain c q' where
    i: "insertElement b x q = Some (c, q')" "queue_ok q'"
      "spec_insert (b \<noteq> NULL) x (abs_queue q) = (c, abs_queue q')"
    by (auto simp: capacity_of_def)
  have frame: "mCapability q' = mCapability q" "order_of q' = order_of q"
      "mAllowedNewData q' = mAllowedNewData q"
    using spec_insert_frame [OF i(3)] by (simp_all add: word_unat_eq_iff)
  show ?thesis
  proof (cases "b = NULL")
    case True
    then have "insertElement b x q = Some (- 3, q)" by (simp add: insertElement_def)
    moreover have "effect (b \<noteq> NULL) pc q Idle [] [] q"
      using True pc by (intro eff_refused) auto
    ultimately show ?thesis using ok by simp
  next
    case False
    then have "c = 0" and "abs_queue q' = (abs_queue q)\<lparr>items := place (order_of q) x (contents q)\<rparr>"
      using i(3) by (simp_all add: spec_insert_def)
    then have "contents q' = place (order_of q) x (contents q)"
      by (auto dest: contents_of_abs)
    moreover have "wakeups q' = wakeups q @ [SignalGet]"
      using insertElement_wakeups [OF i(1)] \<open>c = 0\<close> by simp
    ultimately have "effect (b \<noteq> NULL) pc q Idle [x] [] q'"
      using pc room allowed frame(3) by (intro eff_insert)
    then show ?thesis using i(1,2) frame \<open>c = 0\<close> by simp
  qed
qed

lemma contents_empty_iff: "queue_ok q \<Longrightarrow> mUsedElementCnts q = 0 \<longleftrightarrow> contents q = []"
  by (metis contents_wf datas_simps(1,4) length_0_conv queue_okE queue_wf_count(2))

lemma full_iff: "queue_ok q \<Longrightarrow>
  mUsedElementCnts q = mCapability q \<longleftrightarrow> length (contents q) = capacity_of q"
  using abs_full(1) by (simp add: capacity_of_def)

lemma within_capacity: "queue_ok q \<Longrightarrow> length (contents q) \<le> capacity_of q"
  using abs_full(2) by (simp add: capacity_of_def)

lemma remove_effect:
  assumes ok: "queue_ok q" and pc: "pc \<in> {Running OpPop, Running OpPopWait, GetResume}"
    and ne: "contents q \<noteq> []"
  shows "\<exists>d q'. removeElement None NULL q = Some ((0, d), q') \<and> queue_ok q' \<and>
    mCapability q' = mCapability q \<and> order_of q' = order_of q \<and> effect m pc q Idle [] [d] q'"
proof -
  from ok obtain as where wf: "queue_wf q as" by blast
  then obtain a as' where as: "as = a # as'" using ne by (cases as) (auto simp: contents_wf)
  from removeElement_first [OF wf [unfolded as], of NULL] obtain q' where
    r: "removeElement None NULL q = Some ((qerr Q_OK, cell_data (cells q) a), q')"
      "queue_wf q' as'" "contents q' = datas (cells q) as'" "mCapability q' = mCapability q"
      "mAllowedNewData q' = mAllowedNewData q" "order_of q' = order_of q"
      "wakeups q' = wakeups q @ [SignalPut]"
    by blast
  have "contents q = cell_data (cells q) a # contents q'"
    using r(3) by (simp add: contents_wf [OF wf] as)
  then have "effect m pc q Idle [] [cell_data (cells q) a] q'" using pc r by (intro eff_remove)
  then show ?thesis using r by auto
qed

lemma push_effect:
  assumes ok: "queue_ok q" and fr: "fresh_block b q"
    and pc: "pc \<in> {Running (OpPush x), Running (OpPushWait x), PutResume x}"
    and room: "mUsedElementCnts q \<noteq> mCapability q" and allowed: "mAllowedNewData q"
  shows "\<exists>pc' ins out q'. map_option (after_push x) (lift_ret (insertElement b x q)) =
      Some (pc', ins, out, q') \<and> queue_ok q' \<and>
    mCapability q' = mCapability q \<and> order_of q' = order_of q \<and>
    effect (b \<noteq> NULL) pc q pc' ins out q'"
proof -
  have "length (contents q) < capacity_of q"
    using room full_iff [OF ok] within_capacity [OF ok] by auto
  from insert_effect [OF ok fr pc this allowed] obtain c q' where
    "insertElement b x q = Some (c, q')" "queue_ok q'" "mCapability q' = mCapability q"
      "order_of q' = order_of q" "effect (b \<noteq> NULL) pc q Idle (if c = 0 then [x] else []) [] q'"
    by blast
  then show ?thesis by (intro exI conjI) (simp_all add: lift_ret_def)
qed

lemma pop_effect:
  assumes ok: "queue_ok q" and pc: "pc \<in> {Running OpPop, Running OpPopWait, GetResume}"
    and ne: "mUsedElementCnts q \<noteq> 0"
  shows "\<exists>pc' ins out q'. map_option after_pop (lift_pop (removeElement None NULL q)) =
      Some (pc', ins, out, q') \<and> queue_ok q' \<and>
    mCapability q' = mCapability q \<and> order_of q' = order_of q \<and> effect m pc q pc' ins out q'"
proof -
  have "contents q \<noteq> []" using ne contents_empty_iff [OF ok] by simp
  from remove_effect [OF ok pc this, of m] obtain d q' where
    "removeElement None NULL q = Some ((0, d), q')" "queue_ok q'" "mCapability q' = mCapability q"
      "order_of q' = order_of q" "effect m pc q Idle [] [d] q'"
    by blast
  then show ?thesis by (intro exI conjI) (simp_all add: lift_pop_def)
qed

text \<open>
  Every critical section runs to its end from a well-formed queue: no fault, no endless loop.
\<close>

text \<open>A critical section ends well, with one of the effects.\<close>

definition section_ok :: "addr \<Rightarrow> qpc \<Rightarrow> Queue \<Rightarrow> bool" where
  "section_ok b pc q \<longleftrightarrow> (\<exists>pc' ins out q'. critical b pc q = Some (pc', ins, out, q') \<and> queue_ok q' \<and>
    mCapability q' = mCapability q \<and> order_of q' = order_of q \<and> effect (b \<noteq> NULL) pc q pc' ins out q')"

lemma put_section:
  assumes ok: "queue_ok q" and fr: "fresh_block b q"
    and pc: "pc \<in> {Running (OpPush x), Running (OpPushWait x), PutResume x}"
  shows "section_ok b pc q"
proof (cases "mAllowedNewData q \<and> mUsedElementCnts q \<noteq> mCapability q")
  case True
  with push_effect [OF ok fr pc] pc show ?thesis
    by (auto simp: section_ok_def pushElement_def pushWaitLoop_def)
next
  case False
  have full: "mUsedElementCnts q = mCapability q \<longleftrightarrow> length (contents q) = capacity_of q"
    by (rule full_iff [OF ok])
  show ?thesis
  proof (cases "pc = Running (OpPush x) \<or> \<not> mAllowedNewData q")
    case True
    then have "effect (b \<noteq> NULL) pc q Idle [] [] q" using pc by (intro eff_refused) auto
    with True False ok pc show ?thesis by (auto simp: section_ok_def pushElement_def pushWaitLoop_def)
  next
    case asleep: False
    with False full pc have "effect (b \<noteq> NULL) pc q (PutWait x) [] [] q" by (intro eff_sleep_put) auto
    with asleep False ok pc show ?thesis by (auto simp: section_ok_def pushElement_def pushWaitLoop_def)
  qed
qed

lemma get_section:
  assumes ok: "queue_ok q" and pc: "pc \<in> {Running OpPop, Running OpPopWait, GetResume}"
  shows "section_ok b pc q"
proof (cases "mUsedElementCnts q = 0")
  case False
  with pop_effect [OF ok pc, of "b \<noteq> NULL"] pc show ?thesis
    by (auto simp: section_ok_def popElement_def popWaitLoop_def)
next
  case True
  then have empty: "contents q = []" using contents_empty_iff [OF ok] by simp
  show ?thesis
  proof (cases "pc = Running OpPop \<or> \<not> mAllowedNewData q")
    case refused: True
    then have "effect (b \<noteq> NULL) pc q Idle [] [] q" using pc empty by (intro eff_refused) auto
    with refused True ok pc show ?thesis by (auto simp: section_ok_def popElement_def popWaitLoop_def)
  next
    case False
    with empty pc have "effect (b \<noteq> NULL) pc q GetWait [] [] q" by (intro eff_sleep_get) auto
    with False True ok pc show ?thesis by (auto simp: section_ok_def popElement_def popWaitLoop_def)
  qed
qed

lemma flush_section:
  assumes ok: "queue_ok q"
  shows "section_ok b (Running OpFlush) q"
proof -
  from flushElements_core [OF ok, of "[]" "Some (\<lambda>u d. u @ [d])"] obtain q' where
    f: "flushElements [] (Some (\<lambda>u d. u @ [d])) q = Some ((0, contents q), q')" "queue_ok q'"
      "abs_queue q' = (abs_queue q)\<lparr>items := []\<rparr>" "wakeups q' = wakeups q"
    by (auto simp: foldl_snoc)
  then have "mCapability q' = mCapability q" "order_of q' = order_of q"
    "mAllowedNewData q' = mAllowedNewData q" "contents q' = []"
    using abs_queue_fields [of q'] by (auto simp: word_unat_eq_iff)
  with f show ?thesis by (auto simp: section_ok_def intro: eff_flush)
qed

lemma allow_section:
  assumes ok: "queue_ok q"
  shows "section_ok b (Running (OpAllow a)) q"
proof -
  let ?q = "q\<lparr>mAllowedNewData := a\<rparr>"
  have "queue_wf ?q (addrs q)" using ok by (simp add: queue_ok_def queue_wf_def)
  then have "queue_ok ?q" "contents ?q = contents q"
    using contents_wf [of ?q "addrs q"] by (auto simp: contents_def [of q])
  moreover have "order_of ?q = order_of q" by (simp add: order_of_def)
  ultimately show ?thesis by (auto simp: section_ok_def intro: eff_allow)
qed

lemma critical_effect:
  assumes ok: "queue_ok q" and fr: "fresh_block b q" and pc: "in_critical pc"
  shows "\<exists>pc' ins out q'. critical b pc q = Some (pc', ins, out, q') \<and> queue_ok q' \<and>
    mCapability q' = mCapability q \<and> order_of q' = order_of q \<and>
    effect (b \<noteq> NULL) pc q pc' ins out q'"
proof -
  have "section_ok b pc q"
  proof (cases pc)
    case (Running op)
    then show ?thesis
      using put_section [OF ok fr] get_section [OF ok] flush_section [OF ok] allow_section [OF ok]
      by (cases op) auto
  qed (use pc put_section [OF ok fr] get_section [OF ok] in auto)
  then show ?thesis by (simp add: section_ok_def)
qed

section \<open>Wake-ups\<close>

definition woken_get :: "(nat \<Rightarrow> qpc) \<Rightarrow> nat set" where
  "woken_get p = {i. p i = GetWoken \<or> p i = GetResume}"

fun is_woken_put :: "qpc \<Rightarrow> bool" where
  "is_woken_put (PutWoken _) = True" | "is_woken_put (PutResume _) = True"
| "is_woken_put _ = False"

definition woken_put :: "(nat \<Rightarrow> qpc) \<Rightarrow> nat set" where
  "woken_put p = {i. is_woken_put (p i)}"

definition sleeps_put :: "(nat \<Rightarrow> qpc) \<Rightarrow> nat \<Rightarrow> bool" where
  "sleeps_put p i \<longleftrightarrow> (\<exists>x. p i = PutWait x)"

lemma woken_get_upd:
  "woken_get (p(i := pc)) =
    (if pc = GetWoken \<or> pc = GetResume then insert i (woken_get p) else woken_get p - {i})"
  by (auto simp: woken_get_def)

lemma woken_put_upd:
  "woken_put (p(i := pc)) =
    (if is_woken_put pc then insert i (woken_put p) else woken_put p - {i})"
  by (auto simp: woken_put_def)

lemma wake_get_cases: "wake_get pc = (if pc = GetWait then GetWoken else pc)"
  by (cases pc) auto

lemma wake_put_cases: "wake_put pc = (case pc of PutWait x \<Rightarrow> PutWoken x | _ \<Rightarrow> pc)"
  by (cases pc) auto

lemma wake_put_eq [simp]:
  "wake_put pc = GetWait \<longleftrightarrow> pc = GetWait" "wake_put pc = GetWoken \<longleftrightarrow> pc = GetWoken"
  "wake_put pc = GetResume \<longleftrightarrow> pc = GetResume" "wake_put pc = ReadFlag \<longleftrightarrow> pc = ReadFlag"
  "wake_put pc = CastGet \<longleftrightarrow> pc = CastGet" "wake_put pc = CastPut \<longleftrightarrow> pc = CastPut"
  "wake_put pc = Running op \<longleftrightarrow> pc = Running op" "wake_put pc \<noteq> PutWait x"
  by (cases pc; simp)+

lemma wake_get_eq [simp]:
  "wake_get pc \<noteq> GetWait" "is_woken_put (wake_get pc) = is_woken_put pc"
  "wake_get pc = GetResume \<longleftrightarrow> pc = GetResume" "wake_get pc = ReadFlag \<longleftrightarrow> pc = ReadFlag"
  "wake_get pc = CastGet \<longleftrightarrow> pc = CastGet" "wake_get pc = CastPut \<longleftrightarrow> pc = CastPut"
  "wake_get pc = Running op \<longleftrightarrow> pc = Running op" "wake_get pc = PutWait x \<longleftrightarrow> pc = PutWait x"
  by (cases pc; simp)+

text \<open>Calls on the condition variables only move sleepers.\<close>

lemma wakes_moves:
  "wakes ws p p' \<Longrightarrow>
   p' i = p i \<or> (p i = GetWait \<and> p' i = GetWoken) \<or> (\<exists>x. p i = PutWait x \<and> p' i = PutWoken x)"
proof (induction rule: wakes.induct)
  case (wakes_get_all ws p p')
  then show ?case by (auto simp: wake_get_cases split: if_splits)
next
  case (wakes_put_all ws p p')
  then show ?case by (auto simp: wake_put_cases split: qpc.splits)
qed (auto split: if_splits)

lemma wakes_frame:
  "wakes ws p p' \<Longrightarrow> p i \<noteq> GetWait \<Longrightarrow> \<not> sleeps_put p i \<Longrightarrow> p' i = p i"
  using wakes_moves [of ws p p' i] by (auto simp: sleeps_put_def)

lemma wakes_keeps:
  assumes "wakes ws p p'" and "in_critical (p i)" and "p j \<in> {ReadFlag, CastGet, CastPut}"
  shows "(p'(i := pc)) j = p j"
proof -
  have "p j \<noteq> GetWait" "\<not> sleeps_put p j" "j \<noteq> i"
    using assms(2,3) by (auto simp: sleeps_put_def)
  then show ?thesis using wakes_frame [OF assms(1), of j] by simp
qed

lemma wakes_SignalGet:
  "wakes [SignalGet] p p' \<Longrightarrow>
   (p' = p \<and> (\<forall>i. p i \<noteq> GetWait)) \<or> (\<exists>j. p j = GetWait \<and> p' = p(j := GetWoken))"
  by (auto elim!: wakes_SignalGetE wakes_NilE)

lemma wakes_SignalPut:
  "wakes [SignalPut] p p' \<Longrightarrow>
   (p' = p \<and> (\<forall>i. \<not> sleeps_put p i)) \<or> (\<exists>j x. p j = PutWait x \<and> p' = p(j := PutWoken x))"
  unfolding sleeps_put_def by (auto elim!: wakes_SignalPutE wakes_NilE)

lemma wakes_BroadcastGet: "wakes [BroadcastGet] p p' \<Longrightarrow> p' = wake_get \<circ> p"
  by (auto elim!: wakes_BroadcastGetE wakes_NilE)

lemma wakes_BroadcastPut: "wakes [BroadcastPut] p p' \<Longrightarrow> p' = wake_put \<circ> p"
  by (auto elim!: wakes_BroadcastPutE wakes_NilE)

section \<open>The invariants\<close>

definition busy :: "(nat \<Rightarrow> qpc) \<Rightarrow> nat set" where
  "busy p = {i. p i \<noteq> Idle}"

definition base_inv :: "qsys \<Rightarrow> bool" where
  "base_inv s \<longleftrightarrow> queue_ok (sq s) \<and> wakeups (sq s) = [] \<and> finite (busy (pcs s)) \<and>
     (\<forall>i. in_critical (pcs s i) \<longleftrightarrow> owner s = Some i) \<and>
     mset (hist_in s) = mset (hist_out s) + mset (contents (sq s)) \<and>
     (order_of (sq s) = None \<longrightarrow> hist_in s = hist_out s @ contents (sq s))"

definition get_inv :: "qsys \<Rightarrow> bool" where
  "get_inv s \<longleftrightarrow> (\<forall>i. pcs s i = GetWait \<longrightarrow>
     length (contents (sq s)) \<le> card (woken_get (pcs s)) \<and>
     (\<not> mAllowedNewData (sq s) \<longrightarrow> (\<exists>j. pcs s j = ReadFlag \<or> pcs s j = CastGet)))"

definition refuse_inv :: "qsys \<Rightarrow> bool" where
  "refuse_inv s \<longleftrightarrow> (\<forall>i. sleeps_put (pcs s) i \<longrightarrow> \<not> mAllowedNewData (sq s) \<longrightarrow>
     (\<exists>j. pcs s j = ReadFlag \<or> pcs s j = CastGet \<or> pcs s j = CastPut))"

text \<open>One critical section, in terms of its effect.\<close>

lemma section_effect:
  assumes inv: "base_inv s" and own: "owner s = Some i" and fr: "fresh_block b (sq s)"
    and sec: "critical b (pcs s i) (sq s) = Some (pc', ins, out, q')"
  shows "effect (b \<noteq> NULL) (pcs s i) (sq s) pc' ins out q'" and "queue_ok q'"
    and "mCapability q' = mCapability (sq s)" and "order_of q' = order_of (sq s)"
proof -
  have "queue_ok (sq s)" "in_critical (pcs s i)" using inv own by (auto simp: base_inv_def)
  from critical_effect [OF this(1) fr this(2)] sec
  show "effect (b \<noteq> NULL) (pcs s i) (sq s) pc' ins out q'" and "queue_ok q'"
    and "mCapability q' = mCapability (sq s)" and "order_of q' = order_of (sq s)"
    by auto
qed

lemma effect_histories:
  assumes "effect m pc q pc' ins out q'"
  shows "mset ins + mset (contents q) = mset out + mset (contents q')"
    and "order_of q = None \<Longrightarrow> contents q @ ins = out @ contents q'"
    and "\<not> in_critical pc'"
  using assms by (auto elim!: effect.cases)

lemma finite_busy_upd: "finite (busy p) \<Longrightarrow> finite (busy (p(i := pc)))"
  by (rule finite_subset [of _ "insert i (busy p)"]) (auto simp: busy_def split: if_splits)

lemma finite_busy_wakes:
  assumes "finite (busy p)" and "wakes ws p p'"
  shows "finite (busy p')"
proof (rule finite_subset)
  show "busy p' \<subseteq> busy p"
  proof
    fix k assume "k \<in> busy p'"
    then show "k \<in> busy p" using wakes_moves [OF assms(2), of k] by (auto simp: busy_def)
  qed
qed (rule assms(1))

lemma not_owner: "base_inv s \<Longrightarrow> \<not> in_critical (pcs s i) \<Longrightarrow> owner s \<noteq> Some i"
  by (auto simp: base_inv_def)

lemma wakes_in_critical: "wakes ws p p' \<Longrightarrow> in_critical (p' i) = in_critical (p i)"
  using wakes_moves [of ws p p' i] by auto

lemma base_inv_step:
  assumes inv: "base_inv s" and step: "qstep calm s t"
  shows "base_inv t"
  using step
proof cases
  case (critical_section i b pc' ins out q' p)
  note eff = section_effect [OF inv critical_section(2,3,5)]
  note h = effect_histories [OF eff(1)]
  have "finite (busy (p(i := pc')))"
    using inv critical_section(6) by (auto simp: base_inv_def intro: finite_busy_upd finite_busy_wakes)
  moreover have "in_critical ((p(i := pc')) k) \<longleftrightarrow> False" for k
    using inv h(3) wakes_in_critical [OF critical_section(6), of k] critical_section(2)
    by (auto simp: base_inv_def)
  ultimately show ?thesis using inv eff(2,4) h(1,2) critical_section(1)
    by (auto simp: base_inv_def ac_simps)
next
  case (cast_get i p)
  have "finite (busy (p(i := CastPut)))"
    using inv cast_get(3) by (auto simp: base_inv_def intro: finite_busy_upd finite_busy_wakes)
  then show ?thesis using inv cast_get wakes_in_critical [OF cast_get(3)] not_owner [OF inv, of i]
    by (auto simp: base_inv_def)
next
  case (cast_put i p)
  have "finite (busy (p(i := Idle)))"
    using inv cast_put(3) by (auto simp: base_inv_def intro: finite_busy_upd finite_busy_wakes)
  then show ?thesis using inv cast_put wakes_in_critical [OF cast_put(3)] not_owner [OF inv, of i]
    by (auto simp: base_inv_def)
next
  case (acquire i op)
  then show ?thesis using inv by (auto simp: base_inv_def intro: finite_busy_upd)
next
  case (reacquire_put i x)
  then show ?thesis using inv by (auto simp: base_inv_def intro: finite_busy_upd)
next
  case (reacquire_get i)
  then show ?thesis using inv by (auto simp: base_inv_def intro: finite_busy_upd)
next
  case (read_refused i)
  then show ?thesis using inv not_owner [OF inv, of i]
    by (auto simp: base_inv_def intro: finite_busy_upd)
next
  case (read_allowed i)
  then show ?thesis using inv not_owner [OF inv, of i]
    by (auto simp: base_inv_def intro: finite_busy_upd)
next
  case (spurious_get i)
  then show ?thesis using inv not_owner [OF inv, of i]
    by (auto simp: base_inv_def intro: finite_busy_upd)
next
  case (spurious_put i x)
  then show ?thesis using inv not_owner [OF inv, of i]
    by (auto simp: base_inv_def intro: finite_busy_upd)
qed

lemma finite_woken:
  assumes "finite (busy p)"
  shows "finite (woken_get p)" and "finite (woken_put p)"
  using assms by (auto simp: woken_get_def woken_put_def busy_def elim!: rev_finite_subset)

text \<open>
  A critical section, ready for the invariants of the sleepers: the mover is inside its section,
  and the signals of the body are exactly those of the effect.
\<close>

lemma section_facts:
  assumes inv: "base_inv s" and own: "owner s = Some i" and fr: "fresh_block b (sq s)"
    and sec: "critical b (pcs s i) (sq s) = Some (pc', ins, out, q')"
  shows "in_critical (pcs s i)" and "finite (woken_get (pcs s))" and "finite (woken_put (pcs s))"
    and "effect (b \<noteq> NULL) (pcs s i) (sq s) pc' ins out q'"
    and "capacity_of q' = capacity_of (sq s)" and "wakeups (sq s) = []"
  using section_effect [OF assms] inv own finite_woken [of "pcs s"]
  by (auto simp: base_inv_def capacity_of_def)

text \<open>How an insertion and a removal change the number of woken poppers.\<close>

lemma insert_wakes_get:
  assumes pc: "f i \<in> {Running (OpPush x), Running (OpPushWait x), PutResume x}"
    and wk: "wakes [SignalGet] f p" and k: "f k = GetWait" and fin: "finite (woken_get f)"
  shows "card (woken_get (p(i := Idle))) = Suc (card (woken_get f))"
proof -
  obtain j where j: "f j = GetWait" "p = f(j := GetWoken)"
    using wakes_SignalGet [OF wk] k by blast
  have "i \<noteq> j" "i \<notin> woken_get f" "j \<notin> woken_get f"
    using pc j(1) by (auto simp: woken_get_def)
  then have "woken_get (p(i := Idle)) = insert j (woken_get f)" using j by (auto simp: woken_get_upd)
  then show ?thesis using fin \<open>j \<notin> woken_get f\<close> by simp
qed

lemma signal_put_keeps_get:
  assumes "wakes [SignalPut] f p"
  shows "woken_get (p(i := Idle)) = woken_get f - {i}"
proof -
  from wakes_SignalPut [OF assms] have "woken_get p = woken_get f"
    by (auto simp: woken_get_def split: if_splits)
  then show ?thesis by (simp add: woken_get_upd)
qed

text \<open>What a sleeping popper needs: as many woken poppers as elements, or a thread about to refuse.\<close>

definition cared_for :: "Queue \<Rightarrow> (nat \<Rightarrow> qpc) \<Rightarrow> bool" where
  "cared_for q p \<longleftrightarrow> length (contents q) \<le> card (woken_get p) \<and>
     (\<not> mAllowedNewData q \<longrightarrow> (\<exists>j. p j = ReadFlag \<or> p j = CastGet))"

lemma get_inv_section:
  assumes inv: "base_inv s" "get_inv s" and own: "owner s = Some i"
    and fr: "fresh_block b (sq s)"
    and sec: "critical b (pcs s i) (sq s) = Some (pc', ins, out, q')"
    and wk: "wakes (wakeups q') (pcs s) p"
    and slp: "(p(i := pc')) k = GetWait"
  shows "cared_for q' (p(i := pc'))"
proof -
  note f = section_facts [OF inv(1) own fr sec]
  have old: "cared_for (sq s) (pcs s)" if "pcs s k' = GetWait" for k'
    using inv(2) that by (auto simp: get_inv_def cared_for_def)
  have keep: "\<exists>j. (p(i := pc')) j = ReadFlag \<or> (p(i := pc')) j = CastGet"
    if "\<exists>j. pcs s j = ReadFlag \<or> pcs s j = CastGet"
    using that wakes_keeps [OF wk f(1), of _ pc'] by (metis insertCI)
  have was: "pcs s k = GetWait" if "pc' \<noteq> GetWait"
    using slp that wakes_moves [OF wk, of k] by (auto split: if_splits)
  have nil: "p = pcs s" if "wakeups q' = wakeups (sq s)"
    using wk f(6) that by (auto elim: wakes_NilE)
  show ?thesis using f(4)
  proof cases
    case (eff_insert x)
    then have sg: "wakes [SignalGet] (pcs s) p" using wk f(6) by simp
    have k: "pcs s k = GetWait" using eff_insert was by simp
    have "length (contents q') = Suc (length (contents (sq s)))" using eff_insert by simp
    then show ?thesis
      using old [OF k] insert_wakes_get [OF eff_insert(4) sg k f(2)] keep eff_insert by (auto simp: cared_for_def)
  next
    case (eff_remove d)
    then have "wakes [SignalPut] (pcs s) p" using wk f(6) by simp
    from signal_put_keeps_get [OF this] have "woken_get (p(i := pc')) = woken_get (pcs s) - {i}"
      using eff_remove by simp
    moreover have "length (contents (sq s)) = Suc (length (contents q'))"
      using eff_remove by simp
    ultimately show ?thesis
      using old [OF was] card_remove_le [of "woken_get (pcs s)" i] keep eff_remove by (simp add: cared_for_def)
  next
    case eff_refused
    then have p: "p = pcs s" using nil by simp
    then have "woken_get (p(i := pc')) = woken_get (pcs s) - {i}"
      using eff_refused by (simp add: woken_get_upd)
    moreover have "i \<in> woken_get (pcs s) \<Longrightarrow> contents (sq s) = []"
      using eff_refused f(1) by (auto simp: woken_get_def)
    ultimately show ?thesis using old [OF was] keep eff_refused
      by (cases "i \<in> woken_get (pcs s)") (auto simp: cared_for_def)
  next
    case (eff_sleep_put x)
    then have "p = pcs s" "i \<notin> woken_get (pcs s)" using nil f(1) by (auto simp: woken_get_def)
    then show ?thesis using old [OF was] keep eff_sleep_put by (simp add: woken_get_upd cared_for_def)
  next
    case eff_sleep_get
    then show ?thesis by (simp add: cared_for_def)
  next
    case eff_flush
    then show ?thesis using old [OF was] keep by (simp add: cared_for_def)
  next
    case (eff_allow a)
    then have "p = pcs s" "i \<notin> woken_get (pcs s)" using nil by (auto simp: woken_get_def)
    then show ?thesis using old [OF was] eff_allow by (auto simp: woken_get_upd cared_for_def)
  qed
qed

lemma get_inv_transfer:
  assumes inv: "get_inv s" and q: "sq t = sq s"
    and woken: "card (woken_get (pcs s)) \<le> card (woken_get (pcs t))"
    and slp: "\<And>k. pcs t k = GetWait \<Longrightarrow> pcs s k = GetWait"
    and note_: "\<And>j. \<not> mAllowedNewData (sq s) \<Longrightarrow> pcs s j = ReadFlag \<or> pcs s j = CastGet \<Longrightarrow>
      pcs t j = ReadFlag \<or> pcs t j = CastGet"
  shows "get_inv t"
  unfolding get_inv_def q
proof (intro allI impI conjI)
  fix k assume k: "pcs t k = GetWait"
  then have old: "length (contents (sq s)) \<le> card (woken_get (pcs s))"
    "\<not> mAllowedNewData (sq s) \<longrightarrow> (\<exists>j. pcs s j = ReadFlag \<or> pcs s j = CastGet)"
    using inv slp by (auto simp: get_inv_def)
  show "length (contents (sq s)) \<le> card (woken_get (pcs t))" using old(1) woken by linarith
  assume "\<not> mAllowedNewData (sq s)"
  then show "\<exists>j. pcs t j = ReadFlag \<or> pcs t j = CastGet" using old(2) note_ by blast
qed

text \<open>A move that is neutral for the sleepers on \<open>mCondGet\<close>.\<close>

lemma woken_get_same:
  assumes "pc = GetWoken \<or> pc = GetResume \<longleftrightarrow> p i = GetWoken \<or> p i = GetResume"
  shows "woken_get (p(i := pc)) = woken_get p"
  using assms by (auto simp: woken_get_def)

lemma get_inv_move:
  assumes "get_inv s" and "pc \<noteq> GetWait"
    and "pc = GetWoken \<or> pc = GetResume \<longleftrightarrow> pcs s i = GetWoken \<or> pcs s i = GetResume"
    and "\<not> mAllowedNewData (sq s) \<Longrightarrow> pcs s i = ReadFlag \<or> pcs s i = CastGet \<Longrightarrow>
      pc = ReadFlag \<or> pc = CastGet"
  shows "get_inv (s\<lparr>owner := ow, pcs := (pcs s)(i := pc)\<rparr>)"
  using assms by (intro get_inv_transfer [OF assms(1)]) (auto simp: woken_get_same split: if_splits)

lemma get_inv_step:
  assumes inv: "base_inv s" "get_inv s" and step: "qstep calm s t"
  shows "get_inv t"
  using step
proof cases
  case (critical_section i b pc' ins out q' p)
  show ?thesis
    using get_inv_section [OF inv critical_section(2,3,5,6)] critical_section(1)
    by (auto simp: get_inv_def cared_for_def simp del: fun_upd_apply)
next
  case (acquire i op)
  then show ?thesis using get_inv_move [OF inv(2), of "Running op" i] by simp
next
  case (reacquire_put i x)
  then show ?thesis using get_inv_move [OF inv(2), of "PutResume x" i] by simp
next
  case (reacquire_get i)
  then show ?thesis using get_inv_move [OF inv(2), of GetResume i] by simp
next
  case (read_refused i)
  then show ?thesis using get_inv_move [OF inv(2), of CastGet i "owner s"] by simp
next
  case (read_allowed i)
  then show ?thesis using get_inv_move [OF inv(2), of Idle i "owner s"] by simp
next
  case (cast_get i p)
  then show ?thesis using wakes_BroadcastGet [OF cast_get(3)] by (auto simp: get_inv_def)
next
  case (cast_put i p)
  note p = wakes_BroadcastPut [OF cast_put(3)]
  have "woken_get (pcs t) = woken_get (pcs s)"
    using cast_put(1,2) by (auto simp: p woken_get_def)
  then show ?thesis using cast_put(1,2)
    by (intro get_inv_transfer [OF inv(2)]) (auto simp: p split: if_splits)
next
  case (spurious_get i)
  then have "card (woken_get (pcs s)) \<le> card (woken_get (pcs t))"
    using finite_woken(1) [of "pcs s"] inv(1)
    by (auto simp: woken_get_upd base_inv_def intro: card_mono)
  then show ?thesis using spurious_get
    by (intro get_inv_transfer [OF inv(2)]) (auto split: if_splits)
next
  case (spurious_put i x)
  then show ?thesis using get_inv_move [OF inv(2), of "PutWoken x" i "owner s"] by simp
qed

end
