(* ===== verification/Queue_Live.thy ===== *)
theory Queue_Live
  imports Queue_Conc
begin

text \<open>
  The invariants of the shared queue of theory \<open>Queue_Conc\<close>, as inductive invariants of its step
  relation, and what they give in every reachable state: mutual exclusion without faults, the
  queue as a first-in first-out channel between threads, and which wake-ups cannot be lost.
\<close>

section \<open>Putters asleep while new data is refused\<close>

lemma refuse_inv_transfer:
  assumes inv: "refuse_inv s" and q: "mAllowedNewData (sq t) = mAllowedNewData (sq s)"
    and slp: "\<And>k. sleeps_put (pcs t) k \<Longrightarrow> \<not> mAllowedNewData (sq t) \<Longrightarrow> sleeps_put (pcs s) k"
    and note_: "\<And>j. pcs s j \<in> {ReadFlag, CastGet, CastPut} \<Longrightarrow> \<exists>i. sleeps_put (pcs t) i \<Longrightarrow>
      \<not> mAllowedNewData (sq s) \<Longrightarrow> pcs t j \<in> {ReadFlag, CastGet, CastPut}"
  shows "refuse_inv t"
  unfolding refuse_inv_def
proof (intro allI impI)
  fix k assume k: "sleeps_put (pcs t) k" and na: "\<not> mAllowedNewData (sq t)"
  then obtain j where "pcs s j \<in> {ReadFlag, CastGet, CastPut}"
    using inv slp q by (auto simp: refuse_inv_def)
  with note_ k na q have "pcs t j \<in> {ReadFlag, CastGet, CastPut}" by auto
  then show "\<exists>j. pcs t j = ReadFlag \<or> pcs t j = CastGet \<or> pcs t j = CastPut" by auto
qed

lemma wakes_sleeps_put: "wakes ws p p' \<Longrightarrow> sleeps_put p' k \<Longrightarrow> sleeps_put p k"
  using wakes_moves [of ws p p' k] by (auto simp: sleeps_put_def)

lemma sleeps_put_upd:
  "sleeps_put (p(i := pc)) k = (if k = i then \<exists>x. pc = PutWait x else sleeps_put p k)"
  by (auto simp: sleeps_put_def)

lemma refuse_inv_section:
  assumes inv: "base_inv s" "refuse_inv s" and own: "owner s = Some i"
    and fr: "fresh_block b (sq s)"
    and sec: "critical b (pcs s i) (sq s) = Some (pc', ins, out, q')"
    and wk: "wakes (wakeups q') (pcs s) p" and t: "pcs t = p(i := pc')" "sq t = q'\<lparr>wakeups := []\<rparr>"
  shows "refuse_inv t"
proof (cases "pc' = ReadFlag")
  case True
  then show ?thesis using t by (auto simp: refuse_inv_def intro!: exI [of _ i])
next
  case False
  note f = section_facts [OF inv(1) own fr sec]
  have flag: "mAllowedNewData q' = mAllowedNewData (sq s)"
    and put: "\<And>x. pc' = PutWait x \<Longrightarrow> mAllowedNewData q'"
    using f(4) False by (auto elim!: effect.cases)
  show ?thesis
  proof (rule refuse_inv_transfer [OF inv(2)])
    show "mAllowedNewData (sq t) = mAllowedNewData (sq s)" using flag t by simp
  next
    fix k assume "sleeps_put (pcs t) k" and "\<not> mAllowedNewData (sq t)"
    then show "sleeps_put (pcs s) k"
      using put t wakes_sleeps_put [OF wk] by (auto simp: sleeps_put_upd split: if_splits)
  next
    fix j assume "pcs s j \<in> {ReadFlag, CastGet, CastPut}"
    then show "pcs t j \<in> {ReadFlag, CastGet, CastPut}"
      using wakes_keeps [OF wk f(1), of j pc'] t by metis
  qed
qed

lemma refuse_inv_move:
  assumes "refuse_inv s" and "\<And>x. pc \<noteq> PutWait x"
    and "pcs s i \<in> {ReadFlag, CastGet, CastPut} \<Longrightarrow> \<not> mAllowedNewData (sq s) \<Longrightarrow>
      pc \<in> {ReadFlag, CastGet, CastPut}"
  shows "refuse_inv (s\<lparr>owner := ow, pcs := (pcs s)(i := pc)\<rparr>)"
  using assms(2,3)
  by (intro refuse_inv_transfer [OF assms(1)]) (auto simp: sleeps_put_upd split: if_splits)

lemma refuse_inv_step:
  assumes inv: "base_inv s" "refuse_inv s" and step: "qstep calm s t"
  shows "refuse_inv t"
  using step
proof cases
  case (critical_section i b pc' ins out q' p)
  then show ?thesis using refuse_inv_section [OF inv critical_section(2,3,5,6)] by simp
next
  case (acquire i op)
  then show ?thesis using refuse_inv_move [OF inv(2), of "Running op" i] by simp
next
  case (reacquire_put i x)
  then show ?thesis using refuse_inv_move [OF inv(2), of "PutResume x" i] by simp
next
  case (reacquire_get i)
  then show ?thesis using refuse_inv_move [OF inv(2), of GetResume i] by simp
next
  case (read_refused i)
  then show ?thesis using refuse_inv_move [OF inv(2), of CastGet i "owner s"] by simp
next
  case (read_allowed i)
  then show ?thesis using refuse_inv_move [OF inv(2), of Idle i "owner s"] by simp
next
  case (cast_get i p)
  have "pcs t i = CastPut" using cast_get(1) by simp
  then show ?thesis by (auto simp: refuse_inv_def)
next
  case (cast_put i p)
  then show ?thesis using wakes_BroadcastPut [OF cast_put(3)]
    by (auto simp: refuse_inv_def sleeps_put_def split: if_splits)
next
  case (spurious_get i)
  then show ?thesis using refuse_inv_move [OF inv(2), of GetWoken i "owner s"] by simp
next
  case (spurious_put i x)
  then show ?thesis using refuse_inv_move [OF inv(2), of "PutWoken x" i "owner s"] by simp
qed

section \<open>Free room while putters are asleep\<close>

definition room_inv :: "qsys \<Rightarrow> bool" where
  "room_inv s \<longleftrightarrow> (\<forall>i. sleeps_put (pcs s) i \<longrightarrow> mAllowedNewData (sq s) \<longrightarrow>
     capacity_of (sq s) - length (contents (sq s)) \<le> card (woken_put (pcs s)))"

definition quiet_inv :: "qsys \<Rightarrow> bool" where
  "quiet_inv s \<longleftrightarrow> (\<forall>i. pcs s i \<noteq> Running OpFlush \<and> pcs s i \<noteq> Running (OpAllow True))"

lemma quiet_inv_wakes:
  assumes "quiet_inv s" and "wakes ws (pcs s) p"
    and "pc \<noteq> Running OpFlush" and "pc \<noteq> Running (OpAllow True)" and "pcs t = p(i := pc)"
  shows "quiet_inv t"
  unfolding quiet_inv_def assms(5)
proof
  fix k show "(p(i := pc)) k \<noteq> Running OpFlush \<and> (p(i := pc)) k \<noteq> Running (OpAllow True)"
    using assms(1,3,4) wakes_moves [OF assms(2), of k] by (auto simp: quiet_inv_def)
qed

lemma quiet_inv_step:
  assumes inv: "base_inv s" "quiet_inv s" and step: "qstep True s t"
  shows "quiet_inv t"
  using step
proof cases
  case (critical_section i b pc' ins out q' p)
  have "\<not> in_critical pc'"
    using section_effect(1) [OF inv(1) critical_section(2,3,5)] effect_histories(3) by blast
  then show ?thesis using critical_section
    by (intro quiet_inv_wakes [OF inv(2) critical_section(6)]) auto
next
  case (cast_get i p)
  then show ?thesis by (intro quiet_inv_wakes [OF inv(2) cast_get(3)]) auto
next
  case (cast_put i p)
  then show ?thesis by (intro quiet_inv_wakes [OF inv(2) cast_put(3)]) auto
qed (use inv(2) in \<open>auto simp: quiet_inv_def\<close>)

lemma wakes_woken_put:
  "wakes ws p p' \<Longrightarrow> SignalPut \<notin> set ws \<Longrightarrow> BroadcastPut \<notin> set ws \<Longrightarrow> woken_put p' = woken_put p"
proof (induction rule: wakes.induct)
  case (wakes_get_one p j ws p')
  then show ?case by (auto simp: woken_put_upd woken_put_def)
next
  case (wakes_get_all ws p p')
  then show ?case by (auto simp: woken_put_def)
qed auto

lemma room_inv_section:
  assumes inv: "base_inv s" "room_inv s" "quiet_inv s" and own: "owner s = Some i"
    and fr: "fresh_block b (sq s)" and mem: "b \<noteq> NULL"
    and sec: "critical b (pcs s i) (sq s) = Some (pc', ins, out, q')"
    and wk: "wakes (wakeups q') (pcs s) p"
    and slp: "sleeps_put (p(i := pc')) k" and allowed: "mAllowedNewData q'"
  shows "capacity_of q' - length (contents q') \<le> card (woken_put (p(i := pc')))"
proof -
  note f = section_facts [OF inv(1) own fr sec]
  have cap: "length (contents (sq s)) \<le> capacity_of (sq s)"
    using inv(1) by (auto simp: base_inv_def intro: within_capacity)
  have old: "capacity_of (sq s) - length (contents (sq s)) \<le> card (woken_put (pcs s))"
    if "sleeps_put (pcs s) k'" "mAllowedNewData (sq s)" for k'
    using inv(2) that by (auto simp: room_inv_def)
  have was: "sleeps_put (pcs s) k" if "\<And>x. pc' \<noteq> PutWait x"
    using slp that wakes_sleeps_put [OF wk, of k] by (auto simp: sleeps_put_upd split: if_splits)
  show ?thesis using f(4)
  proof cases
    case (eff_insert x)
    then have "woken_put p = woken_put (pcs s)" using wakes_woken_put [OF wk] f(6) by simp
    then have "woken_put (p(i := pc')) = woken_put (pcs s) - {i}"
      using eff_insert by (simp add: woken_put_upd)
    moreover have "length (contents q') = Suc (length (contents (sq s)))" using eff_insert by simp
    ultimately show ?thesis
      using old [OF was] allowed card_remove_le [of "woken_put (pcs s)" i] eff_insert f(5) by simp
  next
    case (eff_remove d)
    then have sg: "wakes [SignalPut] (pcs s) p" using wk f(6) by simp
    have k: "sleeps_put (pcs s) k" using was eff_remove by simp
    with wakes_SignalPut [OF sg] obtain j x where j: "pcs s j = PutWait x"
      "p = (pcs s)(j := PutWoken x)" by blast
    have "i \<noteq> j" "i \<notin> woken_put (pcs s)" "j \<notin> woken_put (pcs s)"
      using f(1) j(1) eff_remove by (auto simp: woken_put_def)
    then have "woken_put (p(i := pc')) = insert j (woken_put (pcs s))"
      using j eff_remove by (auto simp: woken_put_upd)
    moreover have "length (contents (sq s)) = Suc (length (contents q'))"
      using eff_remove by simp
    ultimately show ?thesis
      using old [OF k] f(3,5) \<open>j \<notin> woken_put (pcs s)\<close> allowed cap eff_remove by simp
  next
    case eff_refused
    then have p: "p = pcs s" using wk f(6) by (auto elim: wakes_NilE)
    have "i \<notin> woken_put (pcs s)"
      using eff_refused mem allowed f(1) by (auto simp: woken_put_def elim!: is_woken_put.elims)
    then show ?thesis using old [OF was] p allowed eff_refused f(5) by (simp add: woken_put_upd)
  next
    case (eff_sleep_put x)
    then show ?thesis using f(5) by simp
  next
    case eff_sleep_get
    then have "p = pcs s" "i \<notin> woken_put (pcs s)"
      using wk f(6) by (auto elim: wakes_NilE simp: woken_put_def)
    then show ?thesis using old [OF was] allowed eff_sleep_get f(5) by (simp add: woken_put_upd)
  next
    case eff_flush
    then show ?thesis using inv(3) by (auto simp: quiet_inv_def)
  next
    case (eff_allow a)
    then show ?thesis using inv(3) allowed by (auto simp: quiet_inv_def)
  qed
qed

lemma room_inv_transfer:
  assumes inv: "room_inv s" and q: "sq t = sq s"
    and woken: "card (woken_put (pcs s)) \<le> card (woken_put (pcs t))"
    and slp: "\<And>k. sleeps_put (pcs t) k \<Longrightarrow> sleeps_put (pcs s) k"
  shows "room_inv t"
  using inv slp woken unfolding room_inv_def q by (meson le_trans)

lemma room_inv_move:
  assumes "room_inv s" and "\<And>x. pc \<noteq> PutWait x" and "is_woken_put pc = is_woken_put (pcs s i)"
  shows "room_inv (s\<lparr>owner := ow, pcs := (pcs s)(i := pc)\<rparr>)"
proof -
  have "woken_put ((pcs s)(i := pc)) = woken_put (pcs s)"
    using assms(3) by (auto simp: woken_put_def)
  then show ?thesis using assms(2)
    by (intro room_inv_transfer [OF assms(1)]) (auto simp: sleeps_put_upd split: if_splits)
qed

lemma room_inv_step:
  assumes inv: "base_inv s" "room_inv s" "quiet_inv s" and step: "qstep True s t"
  shows "room_inv t"
  using step
proof cases
  case (critical_section i b pc' ins out q' p)
  then have "b \<noteq> NULL" by simp
  from room_inv_section [OF inv critical_section(2,3) this critical_section(5,6)]
  show ?thesis using critical_section(1)
    by (auto simp: room_inv_def capacity_of_def simp del: fun_upd_apply)
next
  case (acquire i op)
  then show ?thesis using room_inv_move [OF inv(2), of "Running op" i] by simp
next
  case (reacquire_put i x)
  then show ?thesis using room_inv_move [OF inv(2), of "PutResume x" i] by simp
next
  case (reacquire_get i)
  then show ?thesis using room_inv_move [OF inv(2), of GetResume i] by simp
next
  case (read_refused i)
  then show ?thesis using room_inv_move [OF inv(2), of CastGet i "owner s"] by simp
next
  case (read_allowed i)
  then show ?thesis using room_inv_move [OF inv(2), of Idle i "owner s"] by simp
next
  case (cast_get i p)
  have "woken_put (pcs t) = woken_put (pcs s)"
    using cast_get(1,2) wakes_woken_put [OF cast_get(3)] by (simp add: woken_put_upd)
      (auto simp: woken_put_def)
  then show ?thesis using cast_get(1) wakes_sleeps_put [OF cast_get(3)]
    by (intro room_inv_transfer [OF inv(2)]) (auto simp: sleeps_put_upd split: if_splits)
next
  case (cast_put i p)
  then show ?thesis using wakes_BroadcastPut [OF cast_put(3)]
    by (auto simp: room_inv_def sleeps_put_def split: if_splits)
next
  case (spurious_get i)
  then show ?thesis using room_inv_move [OF inv(2), of GetWoken i "owner s"] by simp
next
  case (spurious_put i x)
  then have "card (woken_put (pcs s)) \<le> card (woken_put (pcs t))"
    using finite_woken(2) [of "pcs s"] inv(1)
    by (auto simp: woken_put_upd base_inv_def intro: card_mono)
  then show ?thesis using spurious_put
    by (intro room_inv_transfer [OF inv(2)]) (auto simp: sleeps_put_upd split: if_splits)
qed

section \<open>Inductive invariants of the runs\<close>

lemma qinit_facts:
  assumes "qinit s"
  shows "queue_ok (sq s)" "contents (sq s) = []" "wakeups (sq s) = []" "owner s = None"
    "pcs s = (\<lambda>_. Idle)" "hist_in s = []" "hist_out s = []"
proof -
  from assms obtain n asc cmp where s: "s = qstart n asc cmp" by (auto simp: qinit_def)
  have "wakeups (Queue_new_max_sorted n asc cmp) = []"
    by (simp add: Queue_new_max_sorted_def set_order_def set_capacity_def queue_init_def
        split: option.splits)
  then show "queue_ok (sq s)" "contents (sq s) = []" "wakeups (sq s) = []" "owner s = None"
    "pcs s = (\<lambda>_. Idle)" "hist_in s = []" "hist_out s = []"
    by (simp_all add: s qstart_def queue_new_facts)
qed

lemma qinit_inv:
  assumes "qinit s"
  shows "base_inv s" "get_inv s" "refuse_inv s" "quiet_inv s" "room_inv s"
  using qinit_facts [OF assms]
  by (simp_all add: base_inv_def get_inv_def refuse_inv_def quiet_inv_def room_inv_def busy_def
      sleeps_put_def)

definition shared_inv :: "qsys \<Rightarrow> bool" where
  "shared_inv s \<longleftrightarrow> base_inv s \<and> get_inv s \<and> refuse_inv s"

definition calm_inv :: "qsys \<Rightarrow> bool" where
  "calm_inv s \<longleftrightarrow> base_inv s \<and> quiet_inv s \<and> room_inv s"

interpretation shared: invariant_system qinit "qstep calm" shared_inv for calm
  by unfold_locales
    (auto simp: shared_inv_def intro: qinit_inv base_inv_step get_inv_step refuse_inv_step)

interpretation calmly: invariant_system qinit "qstep True" calm_inv
  by unfold_locales
    (auto simp: calm_inv_def intro: qinit_inv base_inv_step quiet_inv_step room_inv_step)

section \<open>Sample runs\<close>

text \<open>An idle thread runs one whole critical section on a free queue.\<close>

lemma reach_section:
  assumes "reach qinit (qstep c) \<lparr>sq = q, owner = None, pcs = p, hist_in = hi, hist_out = ho\<rparr>"
    and "p i = Idle" "permitted c op" "fresh_block b q" "c \<longrightarrow> b \<noteq> NULL"
    and "critical b (Running op) q = Some (pc', ins, out, q')"
    and "wakes (wakeups q') (p(i := Running op)) p'"
  shows "reach qinit (qstep c) \<lparr>sq = q'\<lparr>wakeups := []\<rparr>, owner = None, pcs = p'(i := pc'),
      hist_in = hi @ ins, hist_out = ho @ out\<rparr>"
proof -
  let ?s = "\<lparr>sq = q, owner = None, pcs = p, hist_in = hi, hist_out = ho\<rparr>"
  have "qstep c ?s (?s\<lparr>owner := Some i, pcs := (pcs ?s)(i := Running op)\<rparr>)"
    using assms(2,3) by (intro acquire) simp_all
  then have "reach qinit (qstep c)
      \<lparr>sq = q, owner = Some i, pcs = p(i := Running op), hist_in = hi, hist_out = ho\<rparr>"
    using assms(1) by (simp add: reach.intros)
  from reach_step [OF this critical_section] assms(4-) show ?thesis by simp
qed

text \<open>A getter that found the queue empty; then an element is pushed.\<close>

definition empty_queue :: Queue where
  "empty_queue = Queue_new_max_sorted 1 True None"

definition single_queue :: Queue where
  "single_queue = empty_queue\<lparr>cells := [1 \<mapsto> \<lparr>edata = 7, enext = NULL\<rparr>],
     mUsedFirstElement := 1, mUsedLastElement := 1, mUsedElementCnts := 1\<rparr>"

lemmas empty_queue_defs = empty_queue_def Queue_new_max_sorted_def set_order_def set_capacity_def
  queue_init_def

lemma sample_sections:
  "critical b (Running OpPopWait) empty_queue = Some (GetWait, [], [], empty_queue)"
  "critical 1 (Running (OpPush 7)) empty_queue =
     Some (Idle, [7], [], single_queue\<lparr>wakeups := [SignalGet]\<rparr>)"
  "critical b (Running (OpPushWait 8)) single_queue = Some (PutWait 8, [], [], single_queue)"
  "critical b (Running OpFlush) single_queue = Some (Idle, [], [7], empty_queue)"
  by (simp_all add: empty_queue_defs single_queue_def popElement_def popWaitLoop_def
      pushElement_def pushWaitLoop_def lift_ret_def insertElement_def append_cell_def
      flushElements_def flush_loop.simps next_of_def data_of_def free_cell_def)

lemma sample_wakeups: "wakeups empty_queue = []" "wakeups single_queue = []"
  "empty_queue\<lparr>wakeups := []\<rparr> = empty_queue" "single_queue\<lparr>wakeups := []\<rparr> = single_queue"
  by (simp_all add: empty_queue_defs single_queue_def)

lemma sample_contents: "contents empty_queue = []" "contents single_queue = [7]"
proof -
  have "queue_wf empty_queue []" "queue_wf single_queue [1]"
    by (simp_all add: queue_wf_def empty_queue_defs single_queue_def)
  then show "contents empty_queue = []" "contents single_queue = [7]"
    by (simp_all add: contents_wf) (simp add: single_queue_def cell_data_def)
qed

lemma reach_start:
  "reach qinit (qstep c)
     \<lparr>sq = empty_queue, owner = None, pcs = (\<lambda>_. Idle), hist_in = [], hist_out = []\<rparr>"
  by (rule reach_init) (auto simp: qinit_def qstart_def empty_queue_def)

lemma sample_fresh: "fresh_block b empty_queue" "fresh_block 2 single_queue"
  by (simp_all add: fresh_block_def empty_queue_defs single_queue_def)

lemma wakes_nothing: "wakeups q = [] \<Longrightarrow> wakes (wakeups q) p p"
  by (simp add: wakes_none)

text \<open>The states of the sample runs.\<close>

definition running_state :: qsys where
  "running_state = \<lparr>sq = empty_queue, owner = Some 0,
     pcs = (\<lambda>_. Idle)(0 := Running OpPopWait), hist_in = [], hist_out = []\<rparr>"

definition getter_state :: qsys where
  "getter_state = \<lparr>sq = empty_queue, owner = None, pcs = (\<lambda>_. Idle)(0 := GetWait),
     hist_in = [], hist_out = []\<rparr>"

definition single_state :: qsys where
  "single_state = \<lparr>sq = single_queue, owner = None, pcs = (\<lambda>_. Idle),
     hist_in = [7], hist_out = []\<rparr>"

definition putter_state :: qsys where
  "putter_state = \<lparr>sq = single_queue, owner = None, pcs = (\<lambda>_. Idle)(1 := PutWait 8),
     hist_in = [7], hist_out = []\<rparr>"

definition flushed_state :: qsys where
  "flushed_state = \<lparr>sq = empty_queue, owner = None, pcs = (\<lambda>_. Idle)(1 := PutWait 8),
     hist_in = [7], hist_out = [7]\<rparr>"

lemmas sample_states = running_state_def getter_state_def single_state_def putter_state_def
  flushed_state_def

lemma reach_getter: "reach qinit (qstep c) getter_state"
  using reach_section [OF reach_start, where c = c and i = 0,
      OF _ _ sample_fresh(1) [of 1] _ sample_sections(1) wakes_nothing]
  by (simp add: sample_wakeups sample_states)

lemma reach_single: "reach qinit (qstep c) single_state"
proof -
  have "wakes [SignalGet] ((\<lambda>_. Idle)(0 := Running (OpPush 7))) ((\<lambda>_. Idle)(0 := Running (OpPush 7)))"
    by (rule wakes_get_idle [OF _ wakes_none]) simp
  then have "wakes (wakeups (single_queue\<lparr>wakeups := [SignalGet]\<rparr>))
      ((\<lambda>_. Idle)(0 := Running (OpPush 7))) ((\<lambda>_. Idle)(0 := Running (OpPush 7)))"
    by simp
  from reach_section [OF reach_start, where c = c and i = 0,
      OF _ _ sample_fresh(1) [of 1] _ sample_sections(2) this]
  show ?thesis by (simp add: sample_wakeups sample_states fun_upd_idem)
qed

lemma reach_putter: "reach qinit (qstep c) putter_state"
  using reach_section [OF reach_single [unfolded sample_states], where c = c and i = 1,
      OF _ _ sample_fresh(2) _ sample_sections(3) wakes_nothing]
  by (simp add: sample_wakeups sample_states)

lemma reach_flushed: "reach qinit (qstep False) flushed_state"
proof -
  have "(0::nat) \<noteq> 1" by simp
  then have "((\<lambda>_. Idle)(1 := PutWait 8, 0 := Idle)) = (\<lambda>_::nat. Idle)(1 := PutWait 8)"
    by (simp add: fun_eq_iff)
  then show ?thesis
    using reach_section [OF reach_putter [unfolded sample_states], where c = False and i = 0,
        OF _ _ sample_fresh(2) _ sample_sections(4) wakes_nothing]
    by (simp add: sample_wakeups sample_states)
qed

section \<open>Progress of the owner\<close>

lemma wakes_total: "\<exists>p'. wakes ws p p'"
proof (induction ws arbitrary: p)
  case Nil
  show ?case by (auto intro: wakes_none)
next
  case (Cons w ws)
  show ?case
  proof (cases w)
    case SignalGet
    then show ?thesis using Cons by (metis wakes_get_idle wakes_get_one)
  next
    case SignalPut
    then show ?thesis using Cons by (metis wakes_put_idle wakes_put_one)
  next
    case BroadcastGet
    then show ?thesis using Cons by (metis wakes_get_all)
  next
    case BroadcastPut
    then show ?thesis using Cons by (metis wakes_put_all)
  qed
qed

lemma owner_progress:
  assumes inv: "base_inv s" and own: "in_critical (pcs s i)" and fr: "fresh_block b (sq s)"
    and mem: "b \<noteq> NULL"
  shows "\<exists>t. qstep calm s t \<and> owner t = None \<and> \<not> in_critical (pcs t i)"
proof -
  have o: "owner s = Some i" using inv own by (auto simp: base_inv_def)
  have "queue_ok (sq s)" using inv by (simp add: base_inv_def)
  from critical_effect [OF this fr own] obtain pc' ins out q' where
    c: "critical b (pcs s i) (sq s) = Some (pc', ins, out, q')" by blast
  from section_effect(1) [OF inv o fr c] effect_histories(3) have "\<not> in_critical pc'" by blast
  moreover obtain p where "wakes (wakeups q') (pcs s) p" using wakes_total by blast
  ultimately show ?thesis
    using critical_section [OF o fr _ c, of calm p] mem
    by (intro exI conjI) (assumption | simp)+
qed

section \<open>Properties\<close>

text \<open>
  In every reachable state of any number of threads, at most one thread is inside
  a critical section, and it is the owner of the mutex; the thread inside it never faults and
  never hangs: given memory, it can finish its section and leave the mutex.
\<close>

theorem mutual_exclusion:
  assumes "reach qinit (qstep calm) s" and "in_critical (pcs s i)"
  shows "(\<forall>j. in_critical (pcs s j) \<longrightarrow> j = i) \<and> owner s = Some i \<and>
    (\<forall>b. fresh_block b (sq s) \<longrightarrow> critical b (pcs s i) (sq s) \<noteq> None) \<and>
    (\<forall>b. fresh_block b (sq s) \<longrightarrow> b \<noteq> NULL \<longrightarrow>
       (\<exists>t. qstep calm s t \<and> owner t = None \<and> \<not> in_critical (pcs t i)))"
proof -
  have inv: "base_inv s" using shared.reach_inv [OF assms(1)] by (simp add: shared_inv_def)
  then have o: "owner s = Some j" if "in_critical (pcs s j)" for j
    using that by (simp add: base_inv_def)
  have "queue_ok (sq s)" using inv by (simp add: base_inv_def)
  then have "critical b (pcs s i) (sq s) \<noteq> None" if "fresh_block b (sq s)" for b
    using critical_effect [OF _ that assms(2)] by fastforce
  moreover have "\<forall>j. in_critical (pcs s j) \<longrightarrow> j = i" using o o [OF assms(2)] by fastforce
  ultimately show ?thesis using o [OF assms(2)] owner_progress [OF inv assms(2)] by blast
qed

lemma reach_running: "reach qinit (qstep c) running_state"
proof (rule reach_step [OF reach_start])
  let ?s = "\<lparr>sq = empty_queue, owner = None, pcs = (\<lambda>_. Idle), hist_in = [], hist_out = []\<rparr>"
  show "qstep c ?s running_state"
    using acquire [of ?s 0 c OpPopWait] by (simp add: running_state_def)
qed

lemma running_facts: "in_critical (pcs running_state 0)" "sq running_state = empty_queue"
  by (simp_all add: running_state_def)

theorem mutual_exclusion_witness:
  "owner running_state = Some 0 \<and>
   (\<exists>t. qstep True running_state t \<and> owner t = None \<and> \<not> in_critical (pcs t 0))"
  using mutual_exclusion [OF reach_running [of True] running_facts(1)] sample_fresh(1) [of 1]
  unfolding running_facts(2) by simp

text \<open>
  C6 (invariant): in every reachable state the queue is well-formed and within its limit, no
  element is lost or duplicated between threads (what was inserted is what was taken out plus
  what is inside), and an unordered queue is a first-in first-out channel.
\<close>

theorem shared_channel:
  assumes "reach qinit (qstep calm) s"
  shows "queue_ok (sq s) \<and> length (contents (sq s)) \<le> capacity_of (sq s) \<and>
    mset (hist_in s) = mset (hist_out s) + mset (contents (sq s)) \<and>
    (order_of (sq s) = None \<longrightarrow> hist_in s = hist_out s @ contents (sq s))"
  using shared.reach_inv [OF assms] within_capacity [of "sq s"]
  by (auto simp: shared_inv_def base_inv_def)

theorem shared_channel_witness:
  "hist_in single_state = [7] \<and>
   hist_in single_state = hist_out single_state @ contents (sq single_state)"
proof
  have "order_of (sq single_state) = None"
    by (simp add: single_state_def single_queue_def empty_queue_defs order_of_def)
  then show "hist_in single_state = hist_out single_state @ contents (sq single_state)"
    using shared_channel [OF reach_single [of True]] by blast
qed (simp add: single_state_def)

text \<open>
  C7 (liveness): no wake-up of a popping thread is lost, in any run, with flushes, failing
  allocations, spurious wake-ups and switches of \<open>setAllowedNewData\<close>. While a thread sleeps in
  \<open>popAndWait\<close>, at least as many woken poppers are on their way as there are elements; and if
  new data is refused, the broadcast on \<open>mCondGet\<close> is still to come.
\<close>

theorem popper_wakeups:
  assumes "reach qinit (qstep calm) s" and "pcs s i = GetWait"
  shows "length (contents (sq s)) \<le> card (woken_get (pcs s)) \<and>
    (\<not> mAllowedNewData (sq s) \<longrightarrow> (\<exists>j. pcs s j = ReadFlag \<or> pcs s j = CastGet))"
  using shared.reach_inv [OF assms(1)] assms(2) by (auto simp: shared_inv_def get_inv_def)

theorem popper_wakeups_witness:
  "pcs getter_state 0 = GetWait \<and>
   length (contents (sq getter_state)) \<le> card (woken_get (pcs getter_state))"
proof -
  have "pcs getter_state 0 = GetWait" by (simp add: getter_state_def)
  then show ?thesis using popper_wakeups [OF reach_getter [of True]] by blast
qed

text \<open>
  C8 (liveness): a thread sleeping in \<open>pushAndWait\<close> while new data is refused still has the
  broadcast on \<open>mCondPut\<close> to come. If moreover the run never flushes, never accepts new data
  again and always gets memory, then as long as data is accepted at least as many woken pushers
  are on their way as there are free places.
\<close>

theorem pusher_wakeups:
  assumes "reach qinit (qstep calm) s" and "sleeps_put (pcs s) i"
  shows "(\<not> mAllowedNewData (sq s) \<longrightarrow>
      (\<exists>j. pcs s j = ReadFlag \<or> pcs s j = CastGet \<or> pcs s j = CastPut)) \<and>
    (calm \<longrightarrow> mAllowedNewData (sq s) \<longrightarrow>
      capacity_of (sq s) - length (contents (sq s)) \<le> card (woken_put (pcs s)))"
  using shared.reach_inv [OF assms(1)] calmly.reach_inv [of s] assms
  by (cases calm) (auto simp: shared_inv_def refuse_inv_def calm_inv_def room_inv_def)

theorem pusher_wakeups_witness:
  "sleeps_put (pcs putter_state) 1 \<and> mAllowedNewData (sq putter_state) \<and>
   capacity_of (sq putter_state) - length (contents (sq putter_state)) \<le>
     card (woken_put (pcs putter_state))"
proof -
  have "sleeps_put (pcs putter_state) 1" "mAllowedNewData (sq putter_state)"
    by (simp_all add: putter_state_def sleeps_put_def single_queue_def empty_queue_defs)
  then show ?thesis using pusher_wakeups [OF reach_putter [of True]] by blast
qed

text \<open>
  The restriction is needed. \<open>flush\<close> empties the queue without signalling
  \<open>mCondPut\<close>: a reachable state has an empty queue of capacity one that accepts data, nobody
  inside, no wake-up on its way, and a thread asleep in \<open>pushAndWait\<close>.
\<close>

theorem flush_strands_pusher:
  "\<exists>s. reach qinit (qstep False) s \<and> pcs s 1 = PutWait 8 \<and> {i. pcs s i \<noteq> Idle} = {1} \<and>
    owner s = None \<and> contents (sq s) = [] \<and> capacity_of (sq s) = 1 \<and> mAllowedNewData (sq s)"
proof (intro exI conjI)
  show "reach qinit (qstep False) flushed_state" by (rule reach_flushed)
  show "contents (sq flushed_state) = []" by (simp add: flushed_state_def sample_contents)
  show "mAllowedNewData (sq flushed_state)" "capacity_of (sq flushed_state) = 1"
    by (simp_all add: flushed_state_def capacity_of_def empty_queue_defs)
qed (simp_all add: flushed_state_def)

text \<open>
  So is the condition on memory. The pop that makes room wakes one of two sleeping pushers; its
  allocation fails, it returns without passing the wake-up on, and the other one sleeps on beside an
  empty queue that accepts data.
\<close>

lemma failing_sections:
  "critical b (Running (OpPushWait 9)) single_queue = Some (PutWait 9, [], [], single_queue)"
  "critical b (Running OpPop) single_queue = Some (Idle, [], [7], empty_queue\<lparr>wakeups := [SignalPut]\<rparr>)"
  "critical 0 (PutResume 8) empty_queue = Some (Idle, [], [], empty_queue)"
  by (simp_all add: empty_queue_defs single_queue_def popElement_def lift_pop_def removeElement_def
      find_match.simps pushElement_def pushWaitLoop_def lift_ret_def insertElement_def next_of_def data_of_def
      free_cell_def)

definition stranded_pcs :: "nat \<Rightarrow> qpc" where
  "stranded_pcs = (\<lambda>_. Idle)(2 := PutWait 9)"

lemma stranded_pcs_upd:
  "(\<lambda>_::nat. Idle)(1 := PutWait 8, 2 := PutWait 9) = stranded_pcs(1 := PutWait 8)"
  "stranded_pcs(0 := Idle) = stranded_pcs" "stranded_pcs(1 := Idle) = stranded_pcs"
  "stranded_pcs(1 := pc, 0 := Idle) = stranded_pcs(1 := pc)"
  by (auto simp: stranded_pcs_def fun_eq_iff)

lemma empty_accepts: "mAllowedNewData empty_queue"
  by (simp add: empty_queue_defs)

theorem failed_push_strands:
  "\<exists>s. reach qinit (qstep False) s \<and> pcs s = stranded_pcs \<and> owner s = None \<and>
    contents (sq s) = [] \<and> mAllowedNewData (sq s)"
proof -
  let ?s = "\<lambda>q ow p out. \<lparr>sq = q, owner = ow, pcs = p, hist_in = [7], hist_out = out\<rparr>"
  have r1: "reach qinit (qstep False) (?s single_queue None (stranded_pcs(1 := PutWait 8)) [])"
    using reach_section [OF reach_putter [unfolded sample_states], where c = False and i = 2,
        OF _ _ sample_fresh(2) _ failing_sections(1) wakes_nothing]
    by (simp add: sample_wakeups stranded_pcs_upd del: One_nat_def)
  let ?woken = "stranded_pcs(1 := PutWait 8, 0 := Running OpPop, 1 := PutWoken 8)"
  have "wakes [SignalPut] (stranded_pcs(1 := PutWait 8, 0 := Running OpPop)) ?woken"
    by (rule wakes_put_one [OF _ wakes_none]) simp
  then have w: "wakes (wakeups (empty_queue\<lparr>wakeups := [SignalPut]\<rparr>))
      (stranded_pcs(1 := PutWait 8, 0 := Running OpPop)) ?woken"
    by simp
  have "stranded_pcs 0 = Idle" by (simp add: stranded_pcs_def)
  then have "reach qinit (qstep False)
      (?s ((empty_queue\<lparr>wakeups := [SignalPut]\<rparr>)\<lparr>wakeups := []\<rparr>) None (?woken(0 := Idle)) [7])"
    using reach_section [OF r1, where i = 0, OF _ _ sample_fresh(2) _ failing_sections(2) w]
    by (simp del: One_nat_def)
  moreover have "?woken(0 := Idle) = stranded_pcs(1 := PutWoken 8)"
    by (auto simp: stranded_pcs_def fun_eq_iff)
  ultimately have r2: "reach qinit (qstep False) (?s empty_queue None (stranded_pcs(1 := PutWoken 8)) [7])"
    by (simp add: sample_wakeups del: One_nat_def)
  have r3: "reach qinit (qstep False) (?s empty_queue (Some 1) (stranded_pcs(1 := PutResume 8)) [7])"
    using reach_step [OF r2 reacquire_put [of _ 1 8]] by (simp del: One_nat_def)
  have w': "wakes [] (stranded_pcs(1 := PutResume 8)) (stranded_pcs(1 := PutResume 8))" by (rule wakes_none)
  have "reach qinit (qstep False)
      (?s (empty_queue\<lparr>wakeups := []\<rparr>) None (stranded_pcs(1 := PutResume 8, 1 := Idle)) [7])"
    using reach_step [OF r3 critical_section [of _ 1 0 False Idle "[]" "[]" empty_queue
        "stranded_pcs(1 := PutResume 8)"]] failing_sections(3) w' sample_fresh(1) [of 0]
    by (simp add: sample_wakeups del: One_nat_def fun_upd_upd critical.simps)
  then have "reach qinit (qstep False) (?s empty_queue None stranded_pcs [7])"
    by (simp add: sample_wakeups stranded_pcs_upd del: One_nat_def)
  then show ?thesis
    using sample_contents(1) empty_accepts
    by (intro exI [of _ "?s empty_queue None stranded_pcs [7]"]) simp
qed

end
