(* ===== verification/Queue_Lin.thy ===== *)
theory Queue_Lin
  imports Queue_Live
begin

text \<open>
  The shared queue of theory \<open>Queue_Conc\<close> implements an atomic queue. The atomic system knows no
  mutex, no condition variables, no list cells and no waiting: its steps are the operations of the
  abstract queue of theory \<open>Queue_Refine\<close>, at once. Every critical section of a thread is one such
  operation or none, and all other steps of a thread do not show.
\<close>

section \<open>The atomic queue\<close>

record asys =
  aq :: aqueue
  ains :: "addr list"
  aouts :: "addr list"

inductive astep :: "asys \<Rightarrow> asys \<Rightarrow> bool" where
  atomic_push: "spec_push True x (aq S) = (qerr Q_OK, A) \<Longrightarrow>
    astep S (S\<lparr>aq := A, ains := ains S @ [x]\<rparr>)"
| atomic_pop: "spec_pop (aq S) = ((qerr Q_OK, d), A) \<Longrightarrow>
    astep S (S\<lparr>aq := A, aouts := aouts S @ [d]\<rparr>)"
| atomic_flush: "astep S (S\<lparr>aq := (aq S)\<lparr>items := []\<rparr>, aouts := aouts S @ items (aq S)\<rparr>)"
| atomic_allow: "astep S (S\<lparr>aq := (aq S)\<lparr>accepting := a\<rparr>\<rparr>)"

definition ainit :: "asys \<Rightarrow> bool" where
  "ainit S \<longleftrightarrow> items (aq S) = [] \<and> accepting (aq S) \<and> 0 < room (aq S) \<and> ains S = [] \<and> aouts S = []"

definition abs_sys :: "qsys \<Rightarrow> asys" where
  "abs_sys s = \<lparr>aq = abs_queue (sq s), ains = hist_in s, aouts = hist_out s\<rparr>"

section \<open>Critical sections are atomic operations\<close>

lemma abs_queue_upd:
  assumes "mCapability q' = mCapability q" and "order_of q' = order_of q"
  shows "abs_queue q' = (abs_queue q)\<lparr>items := contents q', accepting := mAllowedNewData q'\<rparr>"
  using assms by (simp add: abs_queue_def)

lemma effect_atomic:
  assumes e: "effect m pc q pc' ins out q'"
    and frame: "mCapability q' = mCapability q" "order_of q' = order_of q"
  shows "(ins = [] \<and> out = [] \<and> abs_queue q' = abs_queue q) \<or>
    astep \<lparr>aq = abs_queue q, ains = h, aouts = k\<rparr>
      \<lparr>aq = abs_queue q', ains = h @ ins, aouts = k @ out\<rparr>"
  using e
proof cases
  case (eff_insert x)
  have "spec_push True x (abs_queue q) = (qerr Q_OK, abs_queue q')"
    using eff_insert by (simp add: spec_push_def spec_insert_def capacity_of_def abs_queue_upd [OF frame])
  from atomic_push [of x "\<lparr>aq = abs_queue q, ains = h, aouts = k\<rparr>"] this eff_insert show ?thesis by simp
next
  case (eff_remove d)
  have "spec_pop (abs_queue q) = ((qerr Q_OK, d), abs_queue q')"
    using eff_remove by (simp add: abs_queue_upd [OF frame])
  from atomic_pop [of "\<lparr>aq = abs_queue q, ains = h, aouts = k\<rparr>"] this eff_remove show ?thesis by simp
next
  case eff_flush
  have "abs_queue q' = (abs_queue q)\<lparr>items := []\<rparr>" using eff_flush frame by (simp add: abs_queue_def)
  with eff_flush show ?thesis
    using atomic_flush [of "\<lparr>aq = abs_queue q, ains = h, aouts = k\<rparr>"] by simp
next
  case (eff_allow a)
  have "abs_queue q' = (abs_queue q)\<lparr>accepting := a\<rparr>" using eff_allow frame by (simp add: abs_queue_def)
  with eff_allow show ?thesis
    using atomic_allow [of "\<lparr>aq = abs_queue q, ains = h, aouts = k\<rparr>" a] by simp
qed simp_all

lemma qstep_atomic:
  assumes inv: "shared_inv s" and step: "qstep calm s t"
  shows "abs_sys t = abs_sys s \<or> astep (abs_sys s) (abs_sys t)"
  using step
proof cases
  case (critical_section i b pc' ins out q' p)
  have "base_inv s" using inv by (simp add: shared_inv_def)
  note sec = section_effect [OF this critical_section(2,3,5)]
  show ?thesis
    using effect_atomic [OF sec(1,3,4), of "hist_in s" "hist_out s"] critical_section(1)
    by (auto simp: abs_sys_def)
qed (simp_all add: abs_sys_def)

lemma qinit_atomic: "qinit s \<Longrightarrow> ainit (abs_sys s)"
proof -
  assume "qinit s"
  then obtain n asc cmp where s: "s = qstart n asc cmp" by (auto simp: qinit_def)
  have "0 < unat (mCapability (Queue_new_max_sorted n asc cmp))"
    unfolding queue_new_facts by (simp add: unat_gt_0)
  then show "ainit (abs_sys s)" by (simp add: s qstart_def ainit_def abs_sys_def queue_new_facts)
qed

interpretation atomic: simulation qinit "qstep calm" shared_inv ainit astep abs_sys for calm
  by unfold_locales (auto intro: qinit_atomic dest: qstep_atomic)

section \<open>Properties\<close>

text \<open>
  C5 (refinement): the queue shared by any number of threads implements the atomic queue. Each
  step of a thread either does not show or is one atomic operation, a successful push or pop, a
  flush or a switch of the flag, on the abstract contents and histories; so every reachable state
  is, seen abstractly, a state the atomic queue can reach.
\<close>

theorem shared_atomic:
  assumes "reach qinit (qstep calm) s"
  shows "reach ainit astep (abs_sys s) \<and>
    (\<forall>t. qstep calm s t \<longrightarrow> abs_sys t = abs_sys s \<or> astep (abs_sys s) (abs_sys t))"
  using atomic.reach_sim [OF assms] atomic.step_sim [OF shared.reach_inv [OF assms]] by blast

theorem shared_atomic_witness:
  "reach ainit astep (abs_sys single_state) \<and> ains (abs_sys single_state) = [7]"
  using shared_atomic [OF reach_single [of True]] by (simp add: abs_sys_def single_state_def)

end
