(* ===== verification/Queue_Destroy.thy ===== *)
theory Queue_Destroy
  imports Queue_Live
begin

text \<open>
  The destructor of the queue (\<open>Queue::~Queue\<close>, \<open>_release\<close>) while other threads are inside calls:
  thread 0 of the system of theory \<open>Queue_Conc\<close> refuses new data, takes the mutex, frees the cells,
  destroys the two condition variables, and destroys the mutex once nobody holds it.
\<close>

section \<open>The system\<close>

text \<open>
  Where the destructor stands: before its call of \<open>setAllowedNewData\<close>, inside it, before \<open>_lock\<close>,
  before \<open>_flushElements\<close>, before the destruction of \<open>mCondGet\<close>, of \<open>mCondPut\<close>, before \<open>_unlock\<close>, in
  the loop on \<open>pthread_mutex_destroy\<close>, and after it, when the object is gone.
\<close>

datatype dpc = DStart | DCall | DLock | DFlush | DGet | DPut | DUnlock | DMutex | DEnd

record dsys =
  base :: qsys
  dest :: dpc

definition get_gone :: "dpc \<Rightarrow> bool" where "get_gone d \<longleftrightarrow> d \<in> {DPut, DUnlock, DMutex, DEnd}"

definition put_gone :: "dpc \<Rightarrow> bool" where "put_gone d \<longleftrightarrow> d \<in> {DUnlock, DMutex, DEnd}"

text \<open>
  The next access of a thread, or its sleep, is on something that is destroyed; the mutex and the
  flag live until the end.
\<close>

fun touches :: "dpc \<Rightarrow> qpc \<Rightarrow> bool" where
  "touches d Idle = False"
| "touches d GetWait = get_gone d"
| "touches d CastGet = get_gone d"
| "touches d (PutWait x) = put_gone d"
| "touches d CastPut = put_gone d"
| "touches d pc = (d = DEnd)"

text \<open>
  Other threads move as before, as long as what they use exists; none of them switches new data on.
  The flush has the callback that records what it drops, for the histories.
\<close>

inductive dstep :: "dsys \<Rightarrow> dsys \<Rightarrow> bool" where
  others: "qstep False (base s) u \<Longrightarrow> pcs u 0 = pcs (base s) 0 \<Longrightarrow> dest s \<noteq> DEnd \<Longrightarrow>
    \<forall>i. touches (dest s) (pcs (base s) i) \<longrightarrow> pcs u i = pcs (base s) i \<Longrightarrow>
    \<forall>i. pcs u i = Running (OpAllow True) \<longrightarrow> pcs (base s) i = Running (OpAllow True) \<Longrightarrow>
    dstep s (s\<lparr>base := u\<rparr>)"
| call: "dest s = DStart \<Longrightarrow> owner (base s) = None \<Longrightarrow> dstep s (s\<lparr>dest := DCall,
    base := (base s)\<lparr>owner := Some 0, pcs := (pcs (base s))(0 := Running (OpAllow False))\<rparr>\<rparr>)"
| in_call: "dest s = DCall \<Longrightarrow> qstep False (base s) u \<Longrightarrow> pcs u 0 \<noteq> pcs (base s) 0 \<Longrightarrow>
    dstep s (s\<lparr>base := u, dest := (if pcs u 0 = Idle then DLock else DCall)\<rparr>)"
| lock: "dest s = DLock \<Longrightarrow> owner (base s) = None \<Longrightarrow> dstep s (s\<lparr>dest := DFlush,
    base := (base s)\<lparr>owner := Some 0, pcs := (pcs (base s))(0 := Running OpFlush)\<rparr>\<rparr>)"
| flush: "dest s = DFlush \<Longrightarrow>
    flushElements [] (Some (\<lambda>u d. u @ [d])) (sq (base s)) = Some ((r, outs), q') \<Longrightarrow>
    dstep s (s\<lparr>dest := DGet, base := (base s)\<lparr>sq := q'\<lparr>mUsedFirstElement := NULL, mUsedLastElement := NULL\<rparr>,
      hist_out := hist_out (base s) @ outs\<rparr>\<rparr>)"
| destroy_get: "dest s = DGet \<Longrightarrow> dstep s (s\<lparr>dest := DPut\<rparr>)"
| destroy_put: "dest s = DPut \<Longrightarrow> dstep s (s\<lparr>dest := DUnlock\<rparr>)"
| unlock: "dest s = DUnlock \<Longrightarrow> dstep s (s\<lparr>dest := DMutex,
    base := (base s)\<lparr>owner := None, pcs := (pcs (base s))(0 := Idle)\<rparr>\<rparr>)"
| busy_mutex: "dest s = DMutex \<Longrightarrow> owner (base s) \<noteq> None \<Longrightarrow> dstep s s"
| destroy_mutex: "dest s = DMutex \<Longrightarrow> owner (base s) = None \<Longrightarrow> dstep s (s\<lparr>dest := DEnd\<rparr>)"

text \<open>The destructor may be called in any state the threads can reach.\<close>

definition dinit :: "dsys \<Rightarrow> bool" where
  "dinit s \<longleftrightarrow> reach qinit (qstep False) (base s) \<and> dest s = DStart \<and> pcs (base s) 0 = Idle \<and>
     (\<forall>i. pcs (base s) i \<noteq> Running (OpAllow True))"

section \<open>A queue that refuses new data\<close>

text \<open>Then no thread falls asleep, and an empty queue stays empty.\<close>

definition refusing :: "qsys \<Rightarrow> bool" where
  "refusing s \<longleftrightarrow> \<not> mAllowedNewData (sq s) \<and> (\<forall>i. pcs s i \<noteq> Running (OpAllow True))"

definition no_worse :: "qsys \<Rightarrow> qsys \<Rightarrow> bool" where
  "no_worse s t \<longleftrightarrow> \<not> mAllowedNewData (sq t) \<and> (\<forall>k. pcs t k = GetWait \<longrightarrow> pcs s k = GetWait) \<and>
     (\<forall>k. sleeps_put (pcs t) k \<longrightarrow> sleeps_put (pcs s) k) \<and> (contents (sq s) = [] \<longrightarrow> contents (sq t) = [])"

lemma refused_section:
  assumes inv: "base_inv s" and ref: "refusing s" and own: "owner s = Some i" and fr: "fresh_block b (sq s)"
    and sec: "critical b (pcs s i) (sq s) = Some (pc', ins, out, q')"
  shows "pc' = Idle \<or> pc' = ReadFlag" "\<not> mAllowedNewData q'" "contents (sq s) = [] \<Longrightarrow> contents q' = []"
    "contents (sq s) = [] \<Longrightarrow> ins = [] \<and> out = [] \<and> wakeups q' = wakeups (sq s)"
proof -
  from section_effect(1) [OF inv own fr sec] ref
  have "(pc' = Idle \<or> pc' = ReadFlag) \<and> \<not> mAllowedNewData q' \<and> (contents (sq s) = [] \<longrightarrow> contents q' = []) \<and>
      (contents (sq s) = [] \<longrightarrow> ins = [] \<and> out = [] \<and> wakeups q' = wakeups (sq s))"
  proof cases
    case (eff_allow a)
    have "pcs s i \<noteq> Running (OpAllow True)" using ref by (simp add: refusing_def)
    with eff_allow show ?thesis by (cases a) simp_all
  qed (use ref in \<open>simp_all add: refusing_def\<close>)
  then show "pc' = Idle \<or> pc' = ReadFlag" "\<not> mAllowedNewData q'" "contents (sq s) = [] \<Longrightarrow> contents q' = []"
    "contents (sq s) = [] \<Longrightarrow> ins = [] \<and> out = [] \<and> wakeups q' = wakeups (sq s)" by blast+
qed

lemma refused_step:
  assumes inv: "base_inv s" and ref: "refusing s" and step: "qstep c s t"
  shows "no_worse s t"
proof -
  have na: "\<not> mAllowedNewData (sq s)" using ref by (simp add: refusing_def)
  from step show ?thesis
  proof cases
    case (critical_section i b pc' ins out q' p)
    note r = refused_section [OF inv ref critical_section(2,3,5)]
    have "pcs s k = GetWait" if "(p(i := pc')) k = GetWait" for k
      using that r(1) wakes_moves [OF critical_section(6), of k] by (auto split: if_splits)
    moreover have "sleeps_put (pcs s) k" if "sleeps_put (p(i := pc')) k" for k
      using that r(1) wakes_sleeps_put [OF critical_section(6)] by (auto simp: sleeps_put_upd split: if_splits)
    ultimately show ?thesis using critical_section(1) r(2,3) by (simp add: no_worse_def)
  next
    case (cast_get i p)
    then show ?thesis using na by (auto simp: no_worse_def sleeps_put_def dest!: wakes_BroadcastGet split: if_splits)
  next
    case (cast_put i p)
    then show ?thesis using na by (auto simp: no_worse_def sleeps_put_def dest!: wakes_BroadcastPut split: if_splits)
  qed (use na in \<open>auto simp: no_worse_def sleeps_put_def split: if_splits\<close>)
qed

section \<open>The invariant\<close>

definition own_pc :: "dpc \<Rightarrow> qpc \<Rightarrow> bool" where
  "own_pc d pc \<longleftrightarrow> (case d of
       DCall \<Rightarrow> pc \<in> {Running (OpAllow False), ReadFlag, CastGet, CastPut}
     | DFlush \<Rightarrow> pc = Running OpFlush | DGet \<Rightarrow> pc = Running OpFlush
     | DPut \<Rightarrow> pc = Running OpFlush | DUnlock \<Rightarrow> pc = Running OpFlush
     | _ \<Rightarrow> pc = Idle)"

text \<open>How far the destructor is: the flag is off, the getters are woken, the putters are, the list is empty.\<close>

fun progress :: "dpc \<Rightarrow> qpc \<Rightarrow> nat" where
  "progress DStart pc = 0"
| "progress DCall pc =
     (if pc = Running (OpAllow False) then 0 else if pc = CastPut then 2 else 1)"
| "progress DLock pc = 3" | "progress DFlush pc = 3"
| "progress d pc = 4"

definition reached :: "nat \<Rightarrow> qsys \<Rightarrow> bool" where
  "reached n b \<longleftrightarrow> (1 \<le> n \<longrightarrow> \<not> mAllowedNewData (sq b)) \<and> (2 \<le> n \<longrightarrow> (\<forall>k. pcs b k \<noteq> GetWait)) \<and>
     (3 \<le> n \<longrightarrow> (\<forall>k. \<not> sleeps_put (pcs b) k)) \<and> (4 \<le> n \<longrightarrow> contents (sq b) = [])"

definition dest_inv :: "dsys \<Rightarrow> bool" where
  "dest_inv s \<longleftrightarrow> base_inv (base s) \<and> own_pc (dest s) (pcs (base s) 0) \<and>
     (\<forall>i. pcs (base s) i \<noteq> Running (OpAllow True)) \<and>
     reached (progress (dest s) (pcs (base s) 0)) (base s) \<and> (dest s = DEnd \<longrightarrow> owner (base s) = None)"

lemma dest_invD:
  assumes "dest_inv s"
  shows "base_inv (base s)" "own_pc (dest s) (pcs (base s) 0)" "pcs (base s) i \<noteq> Running (OpAllow True)"
    "reached (progress (dest s) (pcs (base s) 0)) (base s)"
  using assms by (simp_all add: dest_inv_def)

lemma reached_no_worse: "reached n s \<Longrightarrow> (1 \<le> n \<Longrightarrow> no_worse s t) \<Longrightarrow> reached n t"
  unfolding reached_def no_worse_def by (metis le_trans one_le_numeral)

lemma dest_no_worse:
  assumes inv: "dest_inv s" and n: "1 \<le> progress (dest s) (pcs (base s) 0)" and step: "qstep c (base s) u"
  shows "no_worse (base s) u"
proof (rule refused_step [OF dest_invD(1) [OF inv] _ step])
  show "refusing (base s)" using dest_invD(3,4) [OF inv] n by (simp add: refusing_def reached_def)
qed

text \<open>The steps of \<open>setAllowedNewData(false)\<close> in the destructor.\<close>

definition moves_on :: "qsys \<Rightarrow> qsys \<Rightarrow> bool" where
  "moves_on s t \<longleftrightarrow> pcs s 0 = Running (OpAllow False) \<and> pcs t 0 = ReadFlag \<and> \<not> mAllowedNewData (sq t) \<or>
    pcs s 0 = ReadFlag \<and> pcs t 0 = (if mAllowedNewData (sq s) then Idle else CastGet) \<or>
    pcs s 0 = CastGet \<and> pcs t 0 = CastPut \<and> (\<forall>k. pcs t k \<noteq> GetWait) \<or>
    pcs s 0 = CastPut \<and> pcs t 0 = Idle \<and> (\<forall>k. \<not> sleeps_put (pcs t) k)"

lemma call_step:
  assumes inv: "base_inv s" and step: "qstep c s t" and moved: "pcs t 0 \<noteq> pcs s 0"
    and pc: "pcs s 0 \<in> {Running (OpAllow False), ReadFlag, CastGet, CastPut}"
  shows "moves_on s t \<and> (\<forall>k. k \<noteq> 0 \<longrightarrow> pcs t k = pcs s k \<or> pcs t k = GetWoken \<or> (\<exists>x. pcs t k = PutWoken x))"
  using step
proof cases
  case (critical_section i b pc' ins out q' p)
  have p0: "p 0 = pcs s 0" using wakes_frame [OF critical_section(6), of 0] pc by (auto simp: sleeps_put_def)
  have i: "i = 0"
  proof (rule ccontr)
    assume "i \<noteq> 0"
    with moved critical_section(1) p0 show False by simp
  qed
  with inv critical_section(2) have "in_critical (pcs s 0)" by (simp add: base_inv_def)
  with pc have run: "pcs s 0 = Running (OpAllow False)" by auto
  with critical_section(5) i have pc': "pc' = ReadFlag \<and> \<not> mAllowedNewData q'" by auto
  have "pcs t k = pcs s k \<or> pcs t k = GetWoken \<or> (\<exists>x. pcs t k = PutWoken x)" if "k \<noteq> 0" for k
    using that critical_section(1) i wakes_moves [OF critical_section(6), of k] by auto
  with run pc' i critical_section(1) show ?thesis by (simp add: moves_on_def)
next
  case (cast_get i p)
  note p = wakes_BroadcastGet [OF cast_get(3)]
  have "i = 0"
  proof (rule ccontr)
    assume "i \<noteq> 0"
    with moved cast_get(1) p have "wake_get (pcs s 0) \<noteq> pcs s 0" by simp
    with pc show False by auto
  qed
  with cast_get p show ?thesis by (simp add: moves_on_def wake_get_cases)
next
  case (cast_put i p)
  note p = wakes_BroadcastPut [OF cast_put(3)]
  have "i = 0"
  proof (rule ccontr)
    assume "i \<noteq> 0"
    with moved cast_put(1) p have "wake_put (pcs s 0) \<noteq> pcs s 0" by simp
    with pc show False by auto
  qed
  moreover have "wake_put pc = pc \<or> (\<exists>x. wake_put pc = PutWoken x)" for pc by (cases pc) simp_all
  ultimately show ?thesis using cast_put p by (simp add: moves_on_def sleeps_put_def) blast
next
  case (read_refused i)
  with moved have "i = 0" by (cases "i = 0") simp_all
  with read_refused show ?thesis by (simp add: moves_on_def)
next
  case (read_allowed i)
  with moved have "i = 0" by (cases "i = 0") simp_all
  with read_allowed show ?thesis by (simp add: moves_on_def)
next
  case (acquire i op)
  with moved pc show ?thesis by (cases "i = 0") simp_all
next
  case (reacquire_put i x)
  with moved pc show ?thesis by (cases "i = 0") simp_all
next
  case (reacquire_get i)
  with moved pc show ?thesis by (cases "i = 0") simp_all
next
  case (spurious_get i)
  with moved pc show ?thesis by (cases "i = 0") simp_all
next
  case (spurious_put i x)
  with moved pc show ?thesis by (cases "i = 0") simp_all
qed

lemma dest_inv_others:
  assumes inv: "dest_inv s" and step: "qstep False (base s) u" and zero: "pcs u 0 = pcs (base s) 0"
    and live: "dest s \<noteq> DEnd"
    and off: "\<forall>i. pcs u i = Running (OpAllow True) \<longrightarrow> pcs (base s) i = Running (OpAllow True)"
  shows "dest_inv (s\<lparr>base := u\<rparr>)"
proof -
  have "reached (progress (dest s) (pcs (base s) 0)) u"
    by (rule reached_no_worse [OF dest_invD(4) [OF inv] dest_no_worse [OF inv _ step]])
  moreover have "\<forall>i. pcs u i \<noteq> Running (OpAllow True)" using off dest_invD(3) [OF inv] by blast
  ultimately show ?thesis
    using dest_invD(2) [OF inv] base_inv_step [OF dest_invD(1) [OF inv] step] zero live
    by (simp add: dest_inv_def)
qed

lemma dest_inv_call:
  assumes inv: "dest_inv s" and d: "dest s = DCall" and step: "qstep False (base s) u"
    and moved: "pcs u 0 \<noteq> pcs (base s) 0"
  shows "dest_inv (s\<lparr>base := u, dest := (if pcs u 0 = Idle then DLock else DCall)\<rparr>)"
proof -
  let ?b = "base s"
  have pc: "pcs ?b 0 \<in> {Running (OpAllow False), ReadFlag, CastGet, CastPut}"
    using dest_invD(2) [OF inv] d by (simp add: own_pc_def)
  from call_step [OF dest_invD(1) [OF inv] step moved pc]
  have m: "moves_on ?b u" and o1: "\<And>k. k \<noteq> 0 \<Longrightarrow> pcs u k = pcs ?b k \<or> pcs u k = GetWoken \<or> (\<exists>x. pcs u k = PutWoken x)"
    by blast+
  have u: "base_inv u" by (rule base_inv_step [OF dest_invD(1) [OF inv] step])
  have keep: "reached n u" if "reached n ?b" "n \<noteq> 0 \<Longrightarrow> pcs ?b 0 \<noteq> Running (OpAllow False)" for n
    by (rule reached_no_worse [OF that(1) dest_no_worse [OF inv _ step]]) (use that(2) d in auto)
  have r: "reached (progress DCall (pcs ?b 0)) ?b" using dest_invD(4) [OF inv] d by simp
  have "pcs u i \<noteq> Running (OpAllow True)" for i
  proof (cases "i = 0")
    case True
    with m show ?thesis by (auto simp: moves_on_def split: if_splits)
  next
    case False
    show ?thesis using o1 [OF False] dest_invD(3) [OF inv, of i] by auto
  qed
  moreover consider (set) "pcs ?b 0 = Running (OpAllow False)" "pcs u 0 = ReadFlag" "\<not> mAllowedNewData (sq u)"
    | (read) "pcs ?b 0 = ReadFlag" "pcs u 0 = CastGet"
    | (get) "pcs ?b 0 = CastGet" "pcs u 0 = CastPut" "\<forall>k. pcs u k \<noteq> GetWait"
    | (put) "pcs ?b 0 = CastPut" "pcs u 0 = Idle" "\<forall>k. \<not> sleeps_put (pcs u) k"
    using m r unfolding moves_on_def by (auto simp: reached_def split: if_splits)
  then have "own_pc (if pcs u 0 = Idle then DLock else DCall) (pcs u 0) \<and>
      reached (progress (if pcs u 0 = Idle then DLock else DCall) (pcs u 0)) u"
  proof cases
    case set
    then show ?thesis by (simp add: own_pc_def reached_def)
  next
    case read
    with keep [of 1] r show ?thesis by (simp add: own_pc_def)
  next
    case get
    with keep [of 1] r show ?thesis by (simp add: own_pc_def reached_def)
  next
    case put
    with keep [of 2] r show ?thesis by (simp add: own_pc_def reached_def)
  qed
  ultimately show ?thesis using u by (simp add: dest_inv_def)
qed

lemma dest_inv_begin:
  assumes inv: "dest_inv s" and free: "owner (base s) = None"
    and d: "dest s = DStart \<and> d = DCall \<and> op = OpAllow False \<or> dest s = DLock \<and> d = DFlush \<and> op = OpFlush"
  shows "dest_inv (s\<lparr>dest := d, base := (base s)\<lparr>owner := Some 0, pcs := (pcs (base s))(0 := Running op)\<rparr>\<rparr>)"
proof -
  have "pcs (base s) 0 = Idle" using dest_invD(2) [OF inv] d by (auto simp: own_pc_def)
  then have "qstep False (base s) ((base s)\<lparr>owner := Some 0, pcs := (pcs (base s))(0 := Running op)\<rparr>)"
    using free d by (intro acquire) auto
  then have "base_inv ((base s)\<lparr>owner := Some 0, pcs := (pcs (base s))(0 := Running op)\<rparr>)"
    by (rule base_inv_step [OF dest_invD(1) [OF inv]])
  moreover have "reached (progress d (Running op)) ((base s)\<lparr>owner := Some 0, pcs := (pcs (base s))(0 := Running op)\<rparr>)"
    using dest_invD(4) [OF inv] d by (auto simp: reached_def sleeps_put_def)
  ultimately show ?thesis using dest_invD(3) [OF inv] d by (auto simp: dest_inv_def own_pc_def)
qed

lemma dest_inv_flush:
  assumes inv: "dest_inv s" and d: "dest s = DFlush"
    and f: "flushElements [] (Some (\<lambda>u d. u @ [d])) (sq (base s)) = Some ((r, outs), q')"
  shows "dest_inv (s\<lparr>dest := DGet, base := (base s)\<lparr>sq := q'\<lparr>mUsedFirstElement := NULL, mUsedLastElement := NULL\<rparr>,
    hist_out := hist_out (base s) @ outs\<rparr>\<rparr>)"
proof -
  let ?b = "base s"
  have b: "base_inv ?b" by (rule dest_invD(1) [OF inv])
  then have ok: "queue_ok (sq ?b)" by (simp add: base_inv_def)
  have q: "outs = contents (sq ?b)" "queue_ok q'" "abs_queue q' = (abs_queue (sq ?b))\<lparr>items := []\<rparr>"
    "wakeups q' = wakeups (sq ?b)"
    using flushElements_core [OF ok, of "[]" "Some (\<lambda>u d. u @ [d])"] f by (auto simp: foldl_snoc)
  have "q'\<lparr>mUsedFirstElement := NULL, mUsedLastElement := NULL\<rparr> = q'" using f by (auto simp: flushElements_def bind_eq_Some_conv)
  moreover have "contents q' = []" "order_of q' = order_of (sq ?b)" "mAllowedNewData q' = mAllowedNewData (sq ?b)"
    using q(3) abs_queue_fields [of q'] by auto
  ultimately show ?thesis
    using b q dest_invD(2-4) [OF inv] d by (simp add: dest_inv_def base_inv_def own_pc_def reached_def)
qed

lemma dest_inv_unlock:
  assumes inv: "dest_inv s" and d: "dest s = DUnlock"
  shows "dest_inv (s\<lparr>dest := DMutex, base := (base s)\<lparr>owner := None, pcs := (pcs (base s))(0 := Idle)\<rparr>\<rparr>)"
proof -
  have "in_critical (pcs (base s) 0)" using dest_invD(2) [OF inv] d by (simp add: own_pc_def)
  then have own: "owner (base s) = Some 0" using dest_invD(1) [OF inv] unfolding base_inv_def by blast
  have b: "base_inv (base s)" by (rule dest_invD(1) [OF inv])
  then have "\<not> in_critical (pcs (base s) k)" if "k \<noteq> 0" for k using own that by (auto simp: base_inv_def)
  then have "base_inv ((base s)\<lparr>owner := None, pcs := (pcs (base s))(0 := Idle)\<rparr>)"
    using b finite_busy_upd [of "pcs (base s)" 0 Idle] by (auto simp: base_inv_def)
  then show ?thesis
    using dest_invD(3,4) [OF inv] d by (simp add: dest_inv_def own_pc_def reached_def sleeps_put_def)
qed

lemma dest_inv_step:
  assumes inv: "dest_inv s" and step: "dstep s t"
  shows "dest_inv t"
  using step
proof cases
  case (others u)
  then show ?thesis using dest_inv_others [OF inv] by blast
next
  case call
  then show ?thesis using dest_inv_begin [OF inv, of DCall "OpAllow False"] by simp
next
  case (in_call u)
  then show ?thesis using dest_inv_call [OF inv] by blast
next
  case lock
  then show ?thesis using dest_inv_begin [OF inv, of DFlush OpFlush] by simp
next
  case (flush r outs q')
  then show ?thesis using dest_inv_flush [OF inv] by blast
next
  case unlock
  then show ?thesis using dest_inv_unlock [OF inv] by blast
qed (use inv in \<open>simp_all add: dest_inv_def own_pc_def\<close>)

lemma dinit_inv: "dinit s \<Longrightarrow> dest_inv s"
  using shared.reach_inv [of False "base s"]
  by (auto simp: dinit_def dest_inv_def own_pc_def reached_def shared_inv_def)

interpretation destroyed: invariant_system dinit dstep dest_inv
  by unfold_locales (auto intro: dinit_inv dest_inv_step)

section \<open>The destructor by itself\<close>

text \<open>
  With the mutex free the destructor can run to its end while no other thread moves: it wakes every
  sleeper and leaves it behind.
\<close>

definition asleep_woken :: "(nat \<Rightarrow> qpc) \<Rightarrow> nat \<Rightarrow> qpc" where
  "asleep_woken p = (wake_put \<circ> (wake_get \<circ> p))(0 := Idle)"

lemma dreach:
  assumes "reach dinit dstep \<lparr>base = b, dest = d\<rparr>" and "dstep \<lparr>base = b, dest = d\<rparr> \<lparr>base = b', dest = d'\<rparr>"
  shows "reach dinit dstep \<lparr>base = b', dest = d'\<rparr>"
  using assms by (rule reach_step)

lemma destructor_call_alone:
  assumes init: "dinit \<lparr>base = b, dest = DStart\<rparr>" and free: "owner b = None"
  shows "reach dinit dstep \<lparr>base = b\<lparr>sq := (sq b)\<lparr>mAllowedNewData := False\<rparr>, pcs := asleep_woken (pcs b)\<rparr>, dest = DLock\<rparr>"
proof -
  let ?f = "(sq b)\<lparr>mAllowedNewData := False\<rparr>" and ?p = "pcs b"
  have w: "wakeups (sq b) = []" using dinit_inv [OF init] by (simp add: dest_inv_def base_inv_def)
  let ?b1 = "b\<lparr>owner := Some 0, pcs := ?p(0 := Running (OpAllow False))\<rparr>"
  have "reach dinit dstep \<lparr>base = b, dest = DStart\<rparr>" by (rule reach_init) (rule init)
  moreover have "dstep \<lparr>base = b, dest = DStart\<rparr> \<lparr>base = ?b1, dest = DCall\<rparr>"
    using call [of "\<lparr>base = b, dest = DStart\<rparr>"] free by simp
  ultimately have r1: "reach dinit dstep \<lparr>base = ?b1, dest = DCall\<rparr>" by (rule dreach)
  have call: "reach dinit dstep \<lparr>base = v, dest = (if pcs v 0 = Idle then DLock else DCall)\<rparr>"
    if "reach dinit dstep \<lparr>base = u, dest = DCall\<rparr>" "qstep False u v" "pcs v 0 \<noteq> pcs u 0" for u v
    using in_call [of "\<lparr>base = u, dest = DCall\<rparr>" v] that by (intro dreach [OF that(1)]) simp
  let ?b2 = "b\<lparr>sq := ?f, pcs := ?p(0 := ReadFlag)\<rparr>"
  let ?c = "\<lparr>sq = (sq b)\<lparr>mAllowedNewData := False, wakeups := []\<rparr>, owner = None, pcs = ?p(0 := ReadFlag),
      hist_in = hist_in b, hist_out = hist_out b\<rparr>"
  have eq: "?c = ?b2" using free w by (cases b; cases "sq b") simp
  have "qstep False ?b1 ?c"
    using critical_section [of ?b1 0 0 False ReadFlag "[]" "[]" ?f "?p(0 := Running (OpAllow False))"] free w
    by (simp add: fresh_block_def wakes_none)
  then have "qstep False ?b1 ?b2" by (simp only: eq)
  from call [OF r1 this] have r2: "reach dinit dstep \<lparr>base = ?b2, dest = DCall\<rparr>" by simp
  let ?b3 = "b\<lparr>sq := ?f, pcs := ?p(0 := CastGet)\<rparr>"
  have "qstep False ?b2 ?b3" using read_refused [of ?b2 0] by simp
  from call [OF r2 this] have r3: "reach dinit dstep \<lparr>base = ?b3, dest = DCall\<rparr>" by simp
  let ?b4 = "b\<lparr>sq := ?f, pcs := (wake_get \<circ> ?p)(0 := CastPut)\<rparr>"
  have "wakes [BroadcastGet] (?p(0 := CastGet)) (wake_get \<circ> (?p(0 := CastGet)))"
    by (rule wakes_get_all) (rule wakes_none)
  with cast_get [of ?b3 0] have "qstep False ?b3 (?b3\<lparr>pcs := (wake_get \<circ> (?p(0 := CastGet)))(0 := CastPut)\<rparr>)" by simp
  moreover have "(wake_get \<circ> (?p(0 := CastGet)))(0 := CastPut) = (wake_get \<circ> ?p)(0 := CastPut)" by auto
  ultimately have "qstep False ?b3 ?b4" by simp
  from call [OF r3 this] have r4: "reach dinit dstep \<lparr>base = ?b4, dest = DCall\<rparr>" by simp
  let ?g = "(wake_get \<circ> ?p)(0 := CastPut)"
  let ?b5 = "b\<lparr>sq := ?f, pcs := asleep_woken ?p\<rparr>"
  have "wakes [BroadcastPut] ?g (wake_put \<circ> ?g)" by (rule wakes_put_all) (rule wakes_none)
  with cast_put [of ?b4 0] have "qstep False ?b4 (?b4\<lparr>pcs := (wake_put \<circ> ?g)(0 := Idle)\<rparr>)" by simp
  moreover have "(wake_put \<circ> ?g)(0 := Idle) = asleep_woken ?p" by (auto simp: asleep_woken_def)
  ultimately have "qstep False ?b4 ?b5" by simp
  from call [OF r4 this] show ?thesis by (simp add: asleep_woken_def)
qed

lemma destructor_alone:
  assumes init: "dinit \<lparr>base = b, dest = DStart\<rparr>" and free: "owner b = None"
  shows "\<exists>t. reach dinit dstep t \<and> dest t = DEnd \<and> pcs (base t) = asleep_woken (pcs b)"
proof -
  let ?p = "asleep_woken (pcs b)"
  let ?b5 = "b\<lparr>sq := (sq b)\<lparr>mAllowedNewData := False\<rparr>, pcs := ?p\<rparr>"
  have p0: "?p(0 := Idle) = ?p" by (simp add: asleep_woken_def)
  note r5 = destructor_call_alone [OF init free]
  have "queue_ok (sq ?b5)"
    using destroyed.reach_inv [OF r5] by (simp add: dest_inv_def base_inv_def)
  then obtain r outs q' where
    f: "flushElements [] (Some (\<lambda>u d. u @ [d])) (sq ?b5) = Some ((r, outs), q')"
    using flushElements_core [of "sq ?b5" "[]" "Some (\<lambda>u d. u @ [d])"] by auto
  let ?b6 = "?b5\<lparr>owner := Some 0, pcs := ?p(0 := Running OpFlush)\<rparr>"
  have r6: "reach dinit dstep \<lparr>base = ?b6, dest = DFlush\<rparr>"
    using lock [of "\<lparr>base = ?b5, dest = DLock\<rparr>"] free by (intro dreach [OF r5]) simp
  let ?b7 = "?b6\<lparr>sq := q'\<lparr>mUsedFirstElement := NULL, mUsedLastElement := NULL\<rparr>, hist_out := hist_out b @ outs\<rparr>"
  have r7: "reach dinit dstep \<lparr>base = ?b7, dest = DGet\<rparr>"
    using flush [of "\<lparr>base = ?b6, dest = DFlush\<rparr>" r outs q'] f by (intro dreach [OF r6]) simp
  have r8: "reach dinit dstep \<lparr>base = ?b7, dest = DPut\<rparr>"
    using destroy_get [of "\<lparr>base = ?b7, dest = DGet\<rparr>"] by (intro dreach [OF r7]) simp
  have r9: "reach dinit dstep \<lparr>base = ?b7, dest = DUnlock\<rparr>"
    using destroy_put [of "\<lparr>base = ?b7, dest = DPut\<rparr>"] by (intro dreach [OF r8]) simp
  let ?b10 = "?b7\<lparr>owner := None, pcs := ?p\<rparr>"
  have r10: "reach dinit dstep \<lparr>base = ?b10, dest = DMutex\<rparr>"
    using unlock [of "\<lparr>base = ?b7, dest = DUnlock\<rparr>"] by (intro dreach [OF r9]) (simp add: p0)
  have "reach dinit dstep \<lparr>base = ?b10, dest = DEnd\<rparr>"
    using destroy_mutex [of "\<lparr>base = ?b10, dest = DMutex\<rparr>"] by (intro dreach [OF r10]) simp
  then show ?thesis by (intro exI [of _ "\<lparr>base = ?b10, dest = DEnd\<rparr>"]) simp
qed

section \<open>Properties\<close>

lemma empty_cells:
  assumes "queue_ok q" and "contents q = []"
  shows "cells q = Map.empty"
proof -
  from assms(1) obtain as where wf: "queue_wf q as" by blast
  with assms(2) have "as = []" by (cases as) (simp_all add: contents_wf)
  with wf show ?thesis by (simp add: queue_wf_def)
qed

text \<open>A thread that uses something destroyed has been woken, or is about to notify the sleepers itself.\<close>

definition left_behind :: "qpc \<Rightarrow> bool" where
  "left_behind pc \<longleftrightarrow> pc = GetWoken \<or> (\<exists>x. pc = PutWoken x) \<or> pc \<in> {ReadFlag, CastGet, CastPut}"

lemma touching_left_behind:
  assumes inv: "dest_inv s" and t: "touches (dest s) (pcs (base s) i)"
  shows "i \<noteq> 0 \<and> left_behind (pcs (base s) i)"
proof
  have gone: "progress (dest s) (pcs (base s) 0) = 4" "own_pc (dest s) (pcs (base s) 0)"
    using t dest_invD(2) [OF inv] by (cases "pcs (base s) i"; cases "dest s"; simp add: get_gone_def put_gone_def)+
  show "i \<noteq> 0"
  proof
    assume "i = 0"
    with t gone(2) show False by (cases "dest s") (auto simp: own_pc_def get_gone_def put_gone_def)
  qed
  have "pcs (base s) i \<noteq> GetWait \<and> \<not> sleeps_put (pcs (base s)) i"
    using dest_invD(4) [OF inv] gone(1) by (simp add: reached_def)
  moreover have "in_critical (pcs (base s) i) \<Longrightarrow> dest s \<noteq> DEnd"
    using inv unfolding dest_inv_def base_inv_def by fastforce
  ultimately show "left_behind (pcs (base s) i)"
    using t by (cases "pcs (base s) i") (auto simp: left_behind_def sleeps_put_def)
qed

lemma touches_iff:
  assumes inv: "dest_inv s"
  shows "touches (dest s) (pcs (base s) i) \<longleftrightarrow> dest s = DEnd \<and> left_behind (pcs (base s) i) \<or>
    get_gone (dest s) \<and> pcs (base s) i = CastGet \<or> put_gone (dest s) \<and> pcs (base s) i = CastPut"
proof
  assume t: "touches (dest s) (pcs (base s) i)"
  from touching_left_behind [OF inv this] have "left_behind (pcs (base s) i)" by blast
  with t show "dest s = DEnd \<and> left_behind (pcs (base s) i) \<or>
    get_gone (dest s) \<and> pcs (base s) i = CastGet \<or> put_gone (dest s) \<and> pcs (base s) i = CastPut"
    by (cases "pcs (base s) i") (auto simp: left_behind_def)
qed (auto simp: left_behind_def get_gone_def put_gone_def)


text \<open>A thread asleep on \<open>mCondPut\<close> when the destructor is called is woken by it and left with a destroyed mutex.\<close>

theorem destructor_race:
  "\<exists>s. reach dinit dstep s \<and> dest s = DEnd \<and> pcs (base s) 1 = PutWoken 8 \<and> touches (dest s) (pcs (base s) 1)"
proof -
  have "dinit \<lparr>base = putter_state, dest = DStart\<rparr>"
    using reach_putter [of False] by (simp add: dinit_def putter_state_def)
  from destructor_alone [OF this] obtain s where
    "reach dinit dstep s" "dest s = DEnd" "pcs (base s) = asleep_woken (pcs putter_state)"
    by (auto simp: putter_state_def)
  then show ?thesis by (intro exI [of _ s]) (simp add: asleep_woken_def putter_state_def)
qed


end
