(* ===== verification/QueueSimple.thy ===== *)
theory QueueSimple
  imports Queue_Live
begin

text \<open>
  \<open>QueueSimple.cpp\<close>: the demonstration of the queue. Producers allocate a record and push it,
  consumers peek at the front, read it, pop an element, read it and free it. The records live in
  a memory of their own; reading or freeing one that is not allocated is undefined: \<open>None\<close>.
\<close>

section \<open>Records and their order\<close>

record Test =
  ttype :: int
  tvalue :: int

type_synonym memory = "addr \<rightharpoonup> Test"

definition MAX_CNT :: int where "MAX_CNT = 1000000"
definition MAX_TYPE :: nat where "MAX_TYPE = 10"

definition value_at :: "memory \<Rightarrow> addr \<Rightarrow> int" where
  "value_at mem a = (case mem a of None \<Rightarrow> 0 | Some t \<Rightarrow> tvalue t)"

text \<open>The comparator, on allocated records.\<close>

definition cmp_int_ptr :: "memory \<Rightarrow> comparator" where
  "cmp_int_ptr mem a b =
     (if value_at mem a < value_at mem b then - 1
      else if value_at mem a > value_at mem b then 1 else 0)"

interpretation by_value: ordering_cmp "cmp_int_ptr mem" for mem
  by unfold_locales (auto simp: cmp_int_ptr_def split: if_splits)

lemma before_by_value: "before True (cmp_int_ptr mem) a b \<longleftrightarrow> value_at mem a \<le> value_at mem b"
  by (auto simp: before_def cmp_int_ptr_def)

definition free_test :: "memory \<Rightarrow> addr \<Rightarrow> memory option" where
  "free_test mem a =
     (if a \<noteq> NULL then if mem a = None then None else Some (mem(a := None)) else Some mem)"

section \<open>Producers\<close>

record Producer =
  mType :: int
  cnt :: int
  allCnt :: int

text \<open>The constructor; \<open>type\<close> is a signed byte.\<close>

definition ProduceThread_new :: "int \<Rightarrow> Producer" where
  "ProduceThread_new type = \<lparr>mType = type, cnt = 1, allCnt = 0\<rparr>"

text \<open>
  \<open>ProduceThread::threadLoop\<close> up to the count of the push: \<open>m\<close> is what \<open>malloc\<close> returns, \<open>b\<close> what
  \<open>calloc\<close> returns inside the queue. The result is what the push returned, or \<open>None\<close> when there was
  no memory for the record.
\<close>

definition push_record ::
  "addr \<Rightarrow> addr \<Rightarrow> Producer \<Rightarrow> Queue \<Rightarrow> memory \<Rightarrow> (int option \<times> Producer, Queue \<times> memory) outcome option" where
  "push_record m b pr q mem =
     (if m = NULL then Some (Returned (None, pr) (q, mem))
      else
        let mem1 = mem(m \<mapsto> \<lparr>ttype = mType pr, tvalue = cnt pr\<rparr>)
        in map_option
          (\<lambda>r. case r of
             Asleep q' \<Rightarrow> Asleep (q', mem1)
           | Returned ret q' \<Rightarrow>
               Returned (Some ret, if ret = qerr Q_OK then pr\<lparr>allCnt := allCnt pr + 1\<rparr> else pr) (q', mem1))
          (pushAndWait 0 0 b m [] q))"

text \<open>
  Every 100000th record is printed after it was pushed: the producer reads a record that a consumer
  may have taken in the meantime.
\<close>

definition shows_record :: "int \<Rightarrow> Producer \<Rightarrow> bool" where
  "shows_record ret pr \<longleftrightarrow> ret = qerr Q_OK \<and> allCnt pr mod 100000 = 0"

definition show_record :: "memory \<Rightarrow> addr \<Rightarrow> (int \<times> int) option" where
  "show_record mem m = map_option (\<lambda>t. (ttype t, tvalue t)) (mem m)"

text \<open>The end of \<open>threadLoop\<close>; the result says whether to go on.\<close>

definition count_record :: "Producer \<Rightarrow> bool \<times> Producer" where
  "count_record pr = (let pr1 = pr\<lparr>cnt := cnt pr + 1\<rparr> in (\<not> cnt pr1 > MAX_CNT, pr1))"

text \<open>
  A producer is about to call \<open>threadLoop\<close>, to print the record at an address, or its loop has
  returned false.
\<close>

datatype producer = PPush Producer | PShow addr Producer | PStop Producer

definition counted :: "Producer \<Rightarrow> producer" where
  "counted pr = (case count_record pr of (go, pr1) \<Rightarrow> if go then PPush pr1 else PStop pr1)"

fun produce :: "addr \<Rightarrow> addr \<Rightarrow> Queue \<Rightarrow> memory \<Rightarrow> producer \<Rightarrow> (producer, Queue \<times> memory) outcome option" where
  "produce m b q mem (PPush pr) = map_option
     (\<lambda>r. case r of
        Asleep s \<Rightarrow> Asleep s
      | Returned (None, pr1) s \<Rightarrow> Returned (PStop pr1) s
      | Returned (Some ret, pr1) s \<Rightarrow> Returned (if shows_record ret pr1 then PShow m pr1 else counted pr1) s)
     (push_record m b pr q mem)"
| "produce m b q mem (PShow e pr) = map_option (\<lambda>_. Returned (counted pr) (q, mem)) (show_record mem e)"
| "produce m b q mem (PStop pr) = Some (Returned (PStop pr) (q, mem))"

section \<open>Consumers\<close>

text \<open>
  \<open>ConsumeThread::threadLoop\<close>, up to each call on the queue and each access to the record: at the
  peek, at the reading of the peeked record, at the pop, at the use of the popped record; or the
  loop has returned false, at a record or because the pop failed. The reads of one record between
  two calls on the queue are one step.
\<close>

datatype consumer = CPeek | CRead addr | CPop | CUse addr | CStop "addr option"

fun consume :: "Queue \<Rightarrow> memory \<Rightarrow> consumer \<Rightarrow> (consumer \<times> Queue \<times> memory) option" where
  "consume q mem CPeek =
     map_option (\<lambda>((ret, test), q'). (if ret = qerr Q_OK then CRead test else CPeek, q', mem)) (peek 0 0 0 q)"
| "consume q mem (CRead test) = map_option (\<lambda>t. (CPop, q, mem)) (mem test)"
| "consume q mem CPop =
     map_option (\<lambda>r. case r of
         Returned (ret, test) q' \<Rightarrow> (if ret \<noteq> qerr Q_OK then CStop None else CUse test, q', mem)
       | Asleep q' \<Rightarrow> (CPop, q', mem))
       (pop 0 0 NULL q)"
| "consume q mem (CUse test) =
     Option.bind (mem test) (\<lambda>t.
       if tvalue t \<ge> MAX_CNT then Some (CStop (Some test), q, mem)
       else map_option (\<lambda>mem'. (CPeek, q, mem')) (free_test mem test))"
| "consume q mem (CStop at) = Some (CStop at, q, mem)"

text \<open>The loop of \<open>main\<close> goes on while both counts of finished threads are below ten.\<close>

definition main_waits :: "nat \<Rightarrow> nat \<Rightarrow> bool" where
  "main_waits proFound comFound \<longleftrightarrow> proFound < MAX_TYPE \<and> comFound < MAX_TYPE"

section \<open>The system\<close>

record csys =
  cq :: Queue
  records :: memory
  producers :: "nat \<Rightarrow> producer"
  consumers :: "nat \<Rightarrow> consumer"

text \<open>\<open>n\<close> consumers and any number of producers.\<close>

inductive cstep :: "nat \<Rightarrow> csys \<Rightarrow> csys \<Rightarrow> bool" for n where
  producing: "records s m = None \<Longrightarrow> fresh_block b (cq s) \<Longrightarrow>
    produce m b (cq s) (records s) (producers s j) = Some (Returned pc (q', mem')) \<Longrightarrow>
    cstep n s (s\<lparr>cq := q', records := mem', producers := (producers s)(j := pc)\<rparr>)"
| consuming: "i < n \<Longrightarrow> consume (cq s) (records s) (consumers s i) = Some (pc, q', mem') \<Longrightarrow>
    cstep n s (s\<lparr>cq := q', records := mem', consumers := (consumers s)(i := pc)\<rparr>)"

definition cinit :: "csys \<Rightarrow> bool" where
  "cinit s \<longleftrightarrow> cq s = Queue_new \<and> records s = Map.empty \<and> consumers s = (\<lambda>_. CPeek)"

section \<open>One consumer\<close>

fun consumer_ok :: "Queue \<Rightarrow> memory \<Rightarrow> consumer \<Rightarrow> bool" where
  "consumer_ok q mem (CRead e) \<longleftrightarrow> (\<exists>r. contents q = e # r)"
| "consumer_ok q mem CPop \<longleftrightarrow> contents q \<noteq> []"
| "consumer_ok q mem (CUse e) \<longleftrightarrow> e \<in> dom mem \<and> e \<notin> set (contents q)"
| "consumer_ok q mem _ \<longleftrightarrow> True"

definition records_ok :: "Queue \<Rightarrow> memory \<Rightarrow> bool" where
  "records_ok q mem \<longleftrightarrow> queue_ok q \<and> order_of q = None \<and> distinct (contents q) \<and>
     set (contents q) \<subseteq> dom mem \<and> NULL \<notin> dom mem"

definition single_inv :: "csys \<Rightarrow> bool" where
  "single_inv s \<longleftrightarrow> records_ok (cq s) (records s) \<and> consumer_ok (cq s) (records s) (consumers s 0)"

lemma push_waited:
  "pushElement b x True [] q = Some (Returned c q') \<Longrightarrow> pushElement b x False [] q = Some (Returned c q')"
  by (auto simp: pushElement_def pushWaitLoop_def split: if_splits)

lemma push_record_cases:
  assumes ok: "records_ok q mem" and fr: "fresh_block b q" "mem m = None"
    and p: "push_record m b pr q mem = Some (Returned (ret, pr') (q', mem'))"
  shows "records_ok q' mem'" and "dom mem \<subseteq> dom mem'"
    and "contents q' = contents q \<or> contents q' = contents q @ [m]"
proof (atomize (full), cases "m = NULL")
  have q: "queue_ok q" "order_of q = None" using ok by (simp_all add: records_ok_def)
  case False
  with p obtain r where r: "pushAndWait 0 0 b m [] q = Some r"
    by (auto simp: push_record_def Let_def)
  with p False obtain c where c: "pushAndWait 0 0 b m [] q = Some (Returned c q')"
    and m': "mem' = mem(m \<mapsto> \<lparr>ttype = mType pr, tvalue = cnt pr\<rparr>)"
    by (cases r) (auto simp: push_record_def Let_def)
  then obtain r' where r': "pushElement b m True [] q = Some r'"
    by (auto simp: pushAndWait_def)
  with c have "pushElement b m True [] q = Some (Returned c q')"
    by (cases r') (auto simp: pushAndWait_def)
  from push_waited [OF this] have "push 0 0 b m q = Some (Returned c q')"
    by (simp add: push_unlocked)
  with push_law [OF q(1) fr(1), of m] q(2) have "queue_ok q'" "order_of q' = None"
    "contents q' = contents q \<or> contents q' = contents q @ [m]"
    by (auto split: if_splits)
  then show "records_ok q' mem' \<and> dom mem \<subseteq> dom mem' \<and>
      (contents q' = contents q \<or> contents q' = contents q @ [m])"
    using ok False fr(2) m' by (auto simp: records_ok_def)
qed (use p ok in \<open>simp add: push_record_def\<close>)

lemma produce_push:
  assumes "produce m b q mem (PPush pr) = Some (Returned pc' s')"
  obtains ret pr1 where "push_record m b pr q mem = Some (Returned (ret, pr1) s')"
    "pc' = (case ret of None \<Rightarrow> PStop pr1 | Some c \<Rightarrow> if shows_record c pr1 then PShow m pr1 else counted pr1)"
proof -
  from assms obtain r where r: "push_record m b pr q mem = Some r" by auto
  with assms obtain ret pr1 where "r = Returned (ret, pr1) s'"
    by (cases r) (auto split: option.splits)
  with r assms show thesis by (intro that [of ret pr1]) (auto split: option.splits)
qed

lemma produce_cases:
  assumes ok: "records_ok q mem" and fr: "fresh_block b q" "mem m = None"
    and p: "produce m b q mem pc = Some (Returned pc' (q', mem'))"
  shows "records_ok q' mem'" and "dom mem \<subseteq> dom mem'"
    and "contents q' = contents q \<or> contents q' = contents q @ [m]"
proof (atomize (full), cases pc)
  case (PPush pr)
  from p obtain ret pr1 where "push_record m b pr q mem = Some (Returned (ret, pr1) (q', mem'))"
    unfolding PPush by (rule produce_push)
  from push_record_cases [OF ok fr this] show "records_ok q' mem' \<and> dom mem \<subseteq> dom mem' \<and>
      (contents q' = contents q \<or> contents q' = contents q @ [m])" by blast
qed (use p ok in auto)

lemma peek_front:
  assumes "queue_ok q"
  shows "peek 0 0 0 q = Some (if contents q = [] then (- 5, NULL) else (0, hd (contents q)), q)"
  using peekElement_core [OF assms, of NULL 0]
  by (cases "contents q") (simp_all add: peek_def spec_peek_def)

text \<open>The only consumer never reads a record that is not allocated.\<close>

lemma consume_ok:
  assumes ok: "records_ok q mem" "consumer_ok q mem pc"
  shows "\<exists>pc' q' mem'. consume q mem pc = Some (pc', q', mem') \<and> records_ok q' mem' \<and>
    consumer_ok q' mem' pc'"
proof -
  have q: "queue_ok q" "order_of q = None" "distinct (contents q)" "set (contents q) \<subseteq> dom mem"
    "NULL \<notin> dom mem"
    using ok(1) by (simp_all add: records_ok_def)
  show ?thesis
  proof (cases pc)
    case CPeek
    then show ?thesis using ok peek_front [OF q(1)] by (cases "contents q") simp_all
  next
    case (CRead e)
    with ok q(4) obtain t where "mem e = Some t" by (cases "contents q") auto
    with CRead ok show ?thesis by auto
  next
    case CPop
    then have "contents q \<noteq> []" using ok(2) by simp
    with pop_law [OF q(1)] obtain d q' where p: "pop 0 0 NULL q = Some (Returned (0, d) q')"
      "queue_ok q'" "order_of q' = order_of q" "contents q = d # contents q'" by auto
    then show ?thesis using CPop q by (auto simp: records_ok_def)
  next
    case (CUse e)
    with ok(2) obtain t where t: "mem e = Some t" "e \<notin> set (contents q)" by auto
    moreover have "e \<noteq> NULL" using t(1) q(5) by auto
    ultimately show ?thesis using CUse ok(1) q by (auto simp: free_test_def records_ok_def)
  next
    case CStop
    then show ?thesis using ok by simp
  qed
qed

lemma consumer_ok_produce:
  assumes "consumer_ok q mem pc" and "dom mem \<subseteq> dom mem'" and "mem m = None"
    and "contents q' = contents q \<or> contents q' = contents q @ [m]"
  shows "consumer_ok q' mem' pc"
  using assms by (cases pc) auto

lemma single_inv_step:
  assumes inv: "single_inv s" and step: "cstep 1 s t"
  shows "single_inv t"
  using step
proof cases
  case (producing m b j pc q' mem')
  have ok: "records_ok (cq s) (records s)" using inv by (simp add: single_inv_def)
  note p = produce_cases [OF ok producing(3,2,4)]
  show ?thesis
    using producing(1) p(1) consumer_ok_produce [OF _ p(2) producing(2) p(3)] inv
    by (simp add: single_inv_def)
next
  case (consuming i pc q' mem')
  then have "i = 0" by simp
  with consuming consume_ok [of "cq s" "records s" "consumers s 0"] inv show ?thesis
    by (auto simp: single_inv_def)
qed

interpretation lone: invariant_system cinit "cstep 1" single_inv
proof
  show "single_inv s" if "cinit s" for s
    using that by (simp add: cinit_def single_inv_def records_ok_def Queue_new_def order_of_def)
      (simp add: queue_init_def)
qed (rule single_inv_step)

section \<open>Properties\<close>

definition simple_start :: csys where
  "simple_start = \<lparr>cq = Queue_new, records = Map.empty,
     producers = (\<lambda>_. PPush (ProduceThread_new 0)), consumers = (\<lambda>_. CPeek)\<rparr>"

text \<open>The queue without and with one element, after some notifications.\<close>

definition no_element :: "wakeup list \<Rightarrow> Queue" where
  "no_element w = Queue_new\<lparr>wakeups := w\<rparr>"

definition one_element :: "addr \<Rightarrow> wakeup list \<Rightarrow> Queue" where
  "one_element m w = Queue_new\<lparr>cells := [1 \<mapsto> \<lparr>edata = m, enext = NULL\<rparr>],
     mUsedFirstElement := 1, mUsedLastElement := 1, mUsedElementCnts := 1, wakeups := w\<rparr>"

abbreviation pushed_queue :: Queue where "pushed_queue \<equiv> one_element 7 [SignalGet]"
abbreviation popped_queue :: Queue where "popped_queue \<equiv> no_element [SignalGet, SignalPut]"

lemmas simple_defs = Queue_new_def queue_init_def one_element_def no_element_def

lemma simple_push: "pushAndWait 0 0 1 m [] (no_element w) = Some (Returned 0 (one_element m (w @ [SignalGet])))"
  by (simp add: pushAndWait_def pushElement_def lift_ret_def insertElement_def
      append_cell_def simple_defs lock_rc_def Let_def)

lemma simple_peek: "peek 0 0 0 (one_element m w) = Some ((0, m), one_element m w)"
  by (simp add: peek_def peekElement_def peek_walk.simps data_of_def simple_defs lock_rc_def)

lemma simple_pop: "pop 0 0 NULL (one_element m w) = Some (Returned (0, m) (no_element (w @ [SignalPut])))"
  by (simp add: pop_def popElement_def removeElement_def lift_pop_def data_of_def next_of_def
      free_cell_def simple_defs lock_rc_def)

lemma Queue_new_no_element: "Queue_new = no_element []"
  by (simp add: simple_defs)

lemma simple_produce:
  "produce 7 1 Queue_new Map.empty (PPush (ProduceThread_new 0)) =
     Some (Returned (PPush \<lparr>mType = 0, cnt = 2, allCnt = 1\<rparr>)
       (pushed_queue, [7 \<mapsto> \<lparr>ttype = 0, tvalue = 1\<rparr>]))"
  unfolding Queue_new_no_element
  by (simp add: push_record_def simple_push shows_record_def counted_def count_record_def ProduceThread_new_def
      MAX_CNT_def Let_def del: One_nat_def)

definition one_record :: memory where
  "one_record = [7 \<mapsto> \<lparr>ttype = 0, tvalue = 1\<rparr>]"

definition simple_state :: "Queue \<Rightarrow> memory \<Rightarrow> consumer \<Rightarrow> consumer \<Rightarrow> csys" where
  "simple_state q m c0 c1 = \<lparr>cq = q, records = m,
     producers = (producers simple_start)(0 := PPush \<lparr>mType = 0, cnt = 2, allCnt = 1\<rparr>),
     consumers = (\<lambda>_. CPeek)(0 := c0, 1 := c1)\<rparr>"

lemma reach_produced: "reach cinit (cstep n) (simple_state pushed_queue one_record CPeek CPeek)"
proof (rule reach_step)
  show "reach cinit (cstep n) simple_start"
    by (rule reach_init) (simp add: cinit_def simple_start_def)
  have fr: "fresh_block 1 (cq simple_start)"
    by (simp add: fresh_block_def simple_start_def Queue_new_def queue_init_def)
  have upd: "(\<lambda>_. CPeek)(0 := CPeek, Suc 0 := CPeek) = (\<lambda>_::nat. CPeek)" by (simp add: fun_eq_iff)
  show "cstep n simple_start (simple_state pushed_queue one_record CPeek CPeek)"
    using producing [of simple_start 7 1 0, OF _ fr] simple_produce
    by (simp add: simple_start_def simple_state_def one_record_def upd)
qed

lemma reach_consumer0:
  assumes "reach cinit (cstep n) (simple_state q m c0 c1)" and "0 < n"
    and "consume q m c0 = Some (c, q', m')"
  shows "reach cinit (cstep n) (simple_state q' m' c c1)"
proof (rule reach_step [OF assms(1)])
  show "cstep n (simple_state q m c0 c1) (simple_state q' m' c c1)"
    using consuming [of 0 n "simple_state q m c0 c1" c q' m'] assms(2,3)
    by (simp add: simple_state_def fun_upd_twist [of 0])
qed

lemma reach_consumer1:
  assumes "reach cinit (cstep n) (simple_state q m c0 c1)" and "1 < n"
    and "consume q m c1 = Some (c, q', m')"
  shows "reach cinit (cstep n) (simple_state q' m' c0 c)"
proof (rule reach_step [OF assms(1)])
  show "cstep n (simple_state q m c0 c1) (simple_state q' m' c0 c)"
    using consuming [of 1 n "simple_state q m c0 c1" c q' m'] assms(2,3)
    by (simp add: simple_state_def)
qed

text \<open>
  With one consumer and any number of producers, in every reachable state the
  consumer's next step never reads or frees a record that is not allocated, and its pop never
  finds the queue empty.
\<close>

theorem lone_consumer_safe:
  assumes "reach cinit (cstep 1) s"
  shows "\<exists>pc q m. consume (cq s) (records s) (consumers s 0) = Some (pc, q, m) \<and>
    (consumers s 0 = CPop \<longrightarrow> pc \<noteq> CStop None)"
proof -
  have inv: "records_ok (cq s) (records s)" "consumer_ok (cq s) (records s) (consumers s 0)"
    using lone.reach_inv [OF assms] by (simp_all add: single_inv_def)
  from consume_ok [OF inv] obtain pc q m where
    c: "consume (cq s) (records s) (consumers s 0) = Some (pc, q, m)" by blast
  have "pc \<noteq> CStop None" if "consumers s 0 = CPop"
  proof -
    have "queue_ok (cq s)" "contents (cq s) \<noteq> []" using inv that by (simp_all add: records_ok_def)
    with pop_law [of "cq s"] c that show ?thesis by auto
  qed
  with c show ?thesis by blast
qed

theorem lone_consumer_safe_witness:
  "\<exists>pc q m. consume pushed_queue one_record (CRead 7) = Some (pc, q, m)"
proof -
  have "reach cinit (cstep 1) (simple_state pushed_queue one_record (CRead 7) CPeek)"
    by (rule reach_consumer0 [OF reach_produced]) (simp_all add: simple_peek)
  from lone_consumer_safe [OF this] show ?thesis by (auto simp: simple_state_def)
qed

text \<open>
  The demonstration runs ten consumers. Already with two, a reachable state
  has a consumer about to read the record it peeked at, which the other one popped and freed.
\<close>

theorem consumers_race:
  "\<exists>s. reach cinit (cstep 2) s \<and> consumers s 0 = CRead 7 \<and>
     consume (cq s) (records s) (consumers s 0) = None"
proof -
  have "reach cinit (cstep 2) (simple_state pushed_queue one_record (CRead 7) CPeek)"
    by (rule reach_consumer0 [OF reach_produced]) (simp_all add: simple_peek)
  then have "reach cinit (cstep 2) (simple_state pushed_queue one_record (CRead 7) (CRead 7))"
    by (rule reach_consumer1) (simp_all add: simple_peek)
  then have "reach cinit (cstep 2) (simple_state pushed_queue one_record (CRead 7) CPop)"
    by (rule reach_consumer1) (simp_all add: one_record_def)
  then have "reach cinit (cstep 2) (simple_state popped_queue one_record (CRead 7) (CUse 7))"
    by (rule reach_consumer1) (simp_all add: simple_pop)
  then have "reach cinit (cstep 2) (simple_state popped_queue Map.empty (CRead 7) CPeek)"
    by (rule reach_consumer1) (simp_all add: one_record_def MAX_CNT_def free_test_def)
  then show ?thesis
    by (intro exI [of _ "simple_state popped_queue Map.empty (CRead 7) CPeek"])
      (simp add: simple_state_def)
qed

text \<open>
  A queue ordered by \<open>cmp_int_ptr\<close> returns the records in ascending order of their values.
\<close>

lemma sorted_by_value:
  assumes "\<And>q. fresh_block (alloc q) q"
  shows "\<exists>i q1 out q2. run_calls (push 0 0) (pop 0 0 NULL) alloc (map Enq xs)
        (Queue_new_max_sorted n True (Some (cmp_int_ptr m))) = Some (i, [], q1) \<and>
      run_calls (push 0 0) (pop 0 0 NULL) alloc (replicate (length i) Deq) q1 = Some ([], out, q2) \<and>
      sorted (map (value_at m) out) \<and> mset out = mset i"
proof -
  have "before True (cmp_int_ptr m) = (\<lambda>a b. value_at m a \<le> value_at m b)"
    by (intro ext) (rule before_by_value)
  then have "sorted_wrt (before True (cmp_int_ptr m)) out \<longleftrightarrow> sorted (map (value_at m) out)" for out
    by (simp add: sorted_map)
  with sorted_drain_core [OF by_value.ordering_cmp_axioms assms, where xs = xs and n = n and asc = True]
  show ?thesis by metis
qed

end
