(* ===== verification/QueueSimple_Many.thy ===== *)
theory QueueSimple_Many
  imports QueueSimple Thread
begin

text \<open>
  \<open>QueueSimple.cpp\<close> with all its threads: any number of consumers next to the ten producers of
  \<open>main\<close>. Which access can go wrong and which cannot, why the producers never wait, in which order
  their records travel, and how often the producer's \<open>threadLoop\<close> is called by its \<open>Thread\<close>.
\<close>

section \<open>Any number of consumers\<close>

text \<open>
  The popped record that a consumer holds: the one it is about to use, or the one at which its loop
  ended, which it never frees.
\<close>

fun holds :: "consumer \<Rightarrow> addr option" where
  "holds (CUse e) = Some e"
| "holds (CStop at) = at"
| "holds _ = None"

definition many_inv :: "nat \<Rightarrow> csys \<Rightarrow> bool" where
  "many_inv n s \<longleftrightarrow> records_ok (cq s) (records s) \<and>
     (\<forall>i < n. \<forall>e. holds (consumers s i) = Some e \<longrightarrow> e \<in> dom (records s) \<and> e \<notin> set (contents (cq s)) \<and>
       (\<forall>j < n. holds (consumers s j) = Some e \<longrightarrow> j = i))"

lemma many_invD:
  assumes "many_inv n s" and "i < n" and "holds (consumers s i) = Some e"
  shows "e \<in> dom (records s)" "e \<notin> set (contents (cq s))"
    "\<And>j. j < n \<Longrightarrow> holds (consumers s j) = Some e \<Longrightarrow> j = i"
  using assms unfolding many_inv_def by blast+

lemma many_invI:
  assumes "records_ok (cq s) (records s)"
    and "\<And>i e. i < n \<Longrightarrow> holds (consumers s i) = Some e \<Longrightarrow> e \<in> dom (records s) \<and> e \<notin> set (contents (cq s))"
    and "\<And>i j e. i < n \<Longrightarrow> j < n \<Longrightarrow> holds (consumers s i) = Some e \<Longrightarrow> holds (consumers s j) = Some e \<Longrightarrow> j = i"
  shows "many_inv n s"
  using assms unfolding many_inv_def by blast

lemma many_inv_keep:
  assumes inv: "many_inv n s" and "records_ok (cq t) (records t)"
    and old: "\<And>i e. holds (consumers t i) = Some e \<Longrightarrow> holds (consumers s i) = Some e"
    and free: "\<And>e. e \<in> dom (records s) \<Longrightarrow> e \<notin> set (contents (cq s)) \<Longrightarrow>
      e \<in> dom (records t) \<and> e \<notin> set (contents (cq t))"
  shows "many_inv n t"
proof (rule many_invI [OF assms(2)])
  fix i e assume i: "i < n" "holds (consumers t i) = Some e"
  from many_invD(1,2) [OF inv i(1) old [OF i(2)]]
  show "e \<in> dom (records t) \<and> e \<notin> set (contents (cq t))" by (rule free)
next
  fix i j e assume "i < n" "j < n" "holds (consumers t i) = Some e" "holds (consumers t j) = Some e"
  with old many_invD(3) [OF inv] show "j = i" by blast
qed

lemma records_okD:
  assumes "records_ok q mem"
  shows "queue_ok q" "order_of q = None" "distinct (contents q)" "set (contents q) \<subseteq> dom mem" "NULL \<notin> dom mem"
  using assms by (simp_all add: records_ok_def)

text \<open>A consumer's step changes the queue and the records in one of three ways.\<close>

lemma consume_effect:
  assumes ok: "records_ok q mem" and c: "consume q mem pc = Some (pc', q', mem')"
  obtains (same) "q' = q" "mem' = mem" "holds pc' = holds pc"
    | (failed) "pc = CPop" "pc' = CStop None" "mem' = mem" "contents q' = contents q" "records_ok q' mem"
      "mCapability q' = mCapability q" "mAllowedNewData q' = mAllowedNewData q"
    | (popped) d where "pc = CPop" "pc' = CUse d" "mem' = mem" "contents q = d # contents q'" "records_ok q' mem"
      "mCapability q' = mCapability q" "mAllowedNewData q' = mAllowedNewData q"
    | (freed) e where "pc = CUse e" "pc' = CPeek" "q' = q" "mem' = mem(e := None)" "e \<in> dom mem"
proof (cases pc)
  case CPeek
  with c peek_front [OF records_okD(1) [OF ok]] show thesis
    by (intro same) (auto split: if_splits)
next
  case (CRead e)
  with c show thesis by (intro same) auto
next
  case CPop
  from pop_law [OF records_okD(1) [OF ok]] obtain r d q1 where
    p: "pop 0 0 NULL q = Some (Returned (r, d) q1)" "queue_ok q1" "mCapability q1 = mCapability q"
      "order_of q1 = order_of q" "mAllowedNewData q1 = mAllowedNewData q"
    and l: "if contents q = [] then r < 0 \<and> d = NULL \<and> contents q1 = [] else r = 0 \<and> contents q = d # contents q1"
    by blast
  show thesis
  proof (cases "contents q = []")
    case True
    with p l ok have "records_ok q1 mem" by (simp add: records_ok_def)
    with True p l c CPop show thesis by (intro failed) auto
  next
    case False
    with p l ok have "records_ok q1 mem" by (auto simp: records_ok_def)
    with False p l c CPop show thesis by (intro popped [of d]) auto
  qed
next
  case (CUse e)
  with c obtain t where t: "mem e = Some t" by (auto simp: bind_eq_Some_conv)
  with records_okD(5) [OF ok] have "e \<noteq> NULL" by auto
  with c CUse t show thesis
    by (cases "tvalue t \<ge> MAX_CNT") (auto simp: free_test_def intro: same freed)
next
  case CStop
  with c show thesis by (intro same) auto
qed

lemma many_inv_popped:
  assumes inv: "many_inv n s"
    and t: "t = s\<lparr>cq := q', consumers := (consumers s)(i := CUse d)\<rparr>"
    and p: "contents (cq s) = d # contents q'" "records_ok q' (records s)"
  shows "many_inv n t"
proof -
  have ok: "records_ok (cq s) (records s)" using inv by (simp add: many_inv_def)
  note D = many_invD [OF inv]
  have d: "d \<in> dom (records s)" "d \<notin> set (contents q')"
    using p(1) records_okD(3,4) [OF ok] by auto
  have fresh: "holds (consumers s j) \<noteq> Some d" if "j < n" for j
    using D(2) [OF that] p(1) by auto
  have old: "j = i \<and> e = d \<or> j \<noteq> i \<and> e \<noteq> d \<and> holds (consumers s j) = Some e"
    if "j < n" "holds (consumers t j) = Some e" for j e
    using that t fresh by (auto split: if_splits)
  show ?thesis
  proof (rule many_invI)
    fix j e assume j: "j < n" "holds (consumers t j) = Some e"
    from old [OF j] show "e \<in> dom (records t) \<and> e \<notin> set (contents (cq t))"
      using D(1,2) [of j e] j(1) d p(1) t by auto
  next
    fix j k e assume "j < n" "k < n" "holds (consumers t j) = Some e" "holds (consumers t k) = Some e"
    with old [of j e] old [of k e] D(3) [of j e k] show "k = j" by blast
  qed (use p(2) t in simp)
qed

lemma many_inv_freed:
  assumes inv: "many_inv n s" and i: "i < n" "holds (consumers s i) = Some e"
    and t: "t = s\<lparr>records := (records s)(e := None), consumers := (consumers s)(i := CPeek)\<rparr>"
  shows "many_inv n t"
proof -
  have ok: "records_ok (cq s) (records s)" using inv by (simp add: many_inv_def)
  note D = many_invD [OF inv]
  have old: "j \<noteq> i \<and> e' \<noteq> e \<and> holds (consumers s j) = Some e'" if "j < n" "holds (consumers t j) = Some e'" for j e'
    using that t D(3) [OF i, of j] by (auto split: if_splits)
  show ?thesis
  proof (rule many_invI)
    show "records_ok (cq t) (records t)" using ok D(2) [OF i] t by (auto simp: records_ok_def)
  next
    fix j e' assume j: "j < n" "holds (consumers t j) = Some e'"
    from old [OF j] show "e' \<in> dom (records t) \<and> e' \<notin> set (contents (cq t))"
      using D(1,2) [of j e'] j(1) t by auto
  next
    fix j k e' assume "j < n" "k < n" "holds (consumers t j) = Some e'" "holds (consumers t k) = Some e'"
    with old [of j e'] old [of k e'] D(3) [of j e' k] show "k = j" by blast
  qed
qed

lemma many_inv_step:
  assumes inv: "many_inv n s" and step: "cstep n s t"
  shows "many_inv n t"
  using step
proof cases
  case (producing m b j pc q' mem')
  have ok: "records_ok (cq s) (records s)" using inv by (simp add: many_inv_def)
  note p = produce_cases [OF ok producing(3,2,4)]
  show ?thesis
  proof (rule many_inv_keep [OF inv])
    fix e assume e: "e \<in> dom (records s)" "e \<notin> set (contents (cq s))"
    then have "e \<noteq> m" using producing(2) by auto
    then show "e \<in> dom (records t) \<and> e \<notin> set (contents (cq t))" using e p(2,3) producing(1) by auto
  qed (use p(1) producing(1) in simp_all)
next
  case (consuming i pc q' mem')
  have ok: "records_ok (cq s) (records s)" using inv by (simp add: many_inv_def)
  from ok consuming(3) show ?thesis
  proof (cases rule: consume_effect)
    case same
    show ?thesis
      by (rule many_inv_keep [OF inv]) (use ok same consuming(1) in \<open>auto split: if_splits\<close>)
  next
    case failed
    show ?thesis
      by (rule many_inv_keep [OF inv]) (use failed consuming(1) in \<open>auto split: if_splits\<close>)
  next
    case (popped d)
    show ?thesis by (rule many_inv_popped [OF inv]) (use popped consuming(1) in simp_all)
  next
    case (freed e)
    show ?thesis by (rule many_inv_freed [OF inv consuming(2)]) (use freed consuming(1) in simp_all)
  qed
qed

interpretation many: invariant_system cinit "cstep n" "many_inv n" for n
proof
  show "many_inv n s" if "cinit s" for s
    using lone.init_inv [OF that] that by (simp add: many_inv_def single_inv_def cinit_def)
qed (rule many_inv_step)

text \<open>Every consumer step but the reading of a peeked record succeeds.\<close>

lemma consume_total:
  assumes ok: "records_ok q mem" and held: "\<And>e. holds pc = Some e \<Longrightarrow> e \<in> dom mem"
    and none: "consume q mem pc = None"
  obtains e where "pc = CRead e" "e \<notin> dom mem"
proof (cases pc)
  case CPeek
  with none peek_front [OF records_okD(1) [OF ok]] show thesis by (simp split: if_splits)
next
  case CPop
  with none pop_law [OF records_okD(1) [OF ok]] show thesis by (auto split: if_splits)
next
  case (CUse e)
  with held obtain t where "mem e = Some t" by auto
  moreover from this records_okD(5) [OF ok] have "e \<noteq> NULL" by auto
  ultimately show thesis using none CUse by (simp add: free_test_def split: if_splits)
qed (use none that in auto)

section \<open>The producers of main\<close>

definition main_init :: "csys \<Rightarrow> bool" where
  "main_init s \<longleftrightarrow> cinit s \<and> producers s =
     (\<lambda>j. if j < MAX_TYPE then PPush (ProduceThread_new (int j)) else PStop (ProduceThread_new (int j)))"

text \<open>The value of the last record producer \<open>j\<close> may have pushed.\<close>

fun produced :: "producer \<Rightarrow> int" where
  "produced (PPush pr) = cnt pr - 1"
| "produced (PShow e pr) = cnt pr"
| "produced (PStop pr) = cnt pr - 1"

definition last_value :: "csys \<Rightarrow> nat \<Rightarrow> int" where
  "last_value s j = produced (producers s j)"

text \<open>The counters of producer \<open>j\<close>: none overflows.\<close>

fun producer_ok :: "nat \<Rightarrow> producer \<Rightarrow> bool" where
  "producer_ok j (PPush pr) \<longleftrightarrow> mType pr = int j \<and> 1 \<le> cnt pr \<and> cnt pr \<le> MAX_CNT \<and>
     0 \<le> allCnt pr \<and> allCnt pr < cnt pr"
| "producer_ok j (PShow e pr) \<longleftrightarrow> mType pr = int j \<and> 1 \<le> cnt pr \<and> cnt pr \<le> MAX_CNT \<and>
     0 < allCnt pr \<and> allCnt pr \<le> cnt pr \<and> allCnt pr mod 100000 = 0"
| "producer_ok j (PStop pr) \<longleftrightarrow> mType pr = int j \<and> 1 \<le> cnt pr \<and> cnt pr \<le> MAX_CNT + 1 \<and>
     0 \<le> allCnt pr \<and> allCnt pr < cnt pr"

text \<open>The values of the queued records of producer \<open>j\<close>, front first.\<close>

definition type_at :: "memory \<Rightarrow> addr \<Rightarrow> int" where
  "type_at mem a = (case mem a of None \<Rightarrow> - 1 | Some t \<Rightarrow> ttype t)"

definition queued_values :: "csys \<Rightarrow> nat \<Rightarrow> int list" where
  "queued_values s j = map (value_at (records s)) (filter (\<lambda>a. type_at (records s) a = int j) (contents (cq s)))"

definition producers_inv :: "csys \<Rightarrow> bool" where
  "producers_inv s \<longleftrightarrow> records_ok (cq s) (records s) \<and>
     mAllowedNewData (cq s) \<and> mCapability (cq s) = 2147483646 \<and>
     (\<forall>j. producer_ok j (producers s j) \<and> (MAX_TYPE \<le> j \<longrightarrow> producers s j = PStop (ProduceThread_new (int j)))) \<and>
     int (length (contents (cq s))) \<le> (\<Sum>j<MAX_TYPE. last_value s j) \<and>
     (\<forall>j < MAX_TYPE. sorted_wrt (<) (queued_values s j) \<and> (\<forall>v\<in>set (queued_values s j). v \<le> last_value s j))"

lemma producers_invD:
  assumes "producers_inv s"
  shows "producer_ok j (producers s j)" "MAX_TYPE \<le> j \<Longrightarrow> producers s j = PStop (ProduceThread_new (int j))"
  using assms unfolding producers_inv_def by blast+

lemma last_value_bound:
  assumes "producers_inv s"
  shows "last_value s j \<le> MAX_CNT" "0 \<le> last_value s j"
  using producers_invD(1) [OF assms, of j] by (cases "producers s j"; simp add: last_value_def)+

lemma never_full:
  assumes "producers_inv s"
  shows "length (contents (cq s)) < 2147483646"
proof -
  have "(\<Sum>j<MAX_TYPE. last_value s j) \<le> (\<Sum>j<MAX_TYPE. MAX_CNT)"
    by (intro sum_mono last_value_bound [OF assms])
  then have "int (length (contents (cq s))) \<le> 10000000"
    using assms by (simp add: producers_inv_def MAX_TYPE_def MAX_CNT_def)
  then show ?thesis by linarith
qed

lemma push_not_full:
  assumes ok: "queue_ok q" and fr: "fresh_block b q"
    and room: "mAllowedNewData q" "mCapability q = 2147483646" "length (contents q) < 2147483646"
    and order: "order_of q = None"
  shows "\<exists>q'. pushAndWait 0 0 b m [] q = Some (Returned (if b = NULL then qerr Q_ERR_MEM else 0) q') \<and>
    contents q' = (if b = NULL then contents q else contents q @ [m]) \<and>
    mCapability q' = mCapability q \<and> mAllowedNewData q'"
proof -
  have "mUsedElementCnts q \<noteq> mCapability q"
    using full_iff [OF ok] room by (simp add: capacity_of_def)
  then have p: "pushAndWait 0 0 b m [] q = map_option (\<lambda>(c, q). Returned c q) (insertElement b m q)"
    using room(1) by (cases "insertElement b m q") (auto simp: pushAndWait_def pushElement_def lift_ret_def)
  have len: "length (items (abs_queue q)) < room (abs_queue q)" using room by simp
  from insertElement_refines [OF ok fr len, of m] obtain c q' where
    i: "insertElement b m q = Some (c, q')" "queue_ok q'"
      "spec_insert (b \<noteq> NULL) m (abs_queue q) = (c, abs_queue q')" by auto
  have frame: "mCapability q' = mCapability q" "mAllowedNewData q' = mAllowedNewData q"
    using spec_insert_frame [OF i(3)] by (simp_all add: word_unat_eq_iff)
  show ?thesis
  proof (cases "b = NULL")
    case True
    then show ?thesis using p i room by (simp add: insertElement_def)
  next
    case False
    then have "c = 0" "abs_queue q' = (abs_queue q)\<lparr>items := contents q @ [m]\<rparr>"
      using i(3) order by (simp_all add: spec_insert_def)
    then show ?thesis using p i(1) False frame room(1) by (auto dest: contents_of_abs)
  qed
qed

text \<open>A producer after a push that returned, with or without memory for the cell.\<close>

definition pushed_on :: "addr \<Rightarrow> bool \<Rightarrow> Producer \<Rightarrow> producer" where
  "pushed_on m cell pr =
     (let pr1 = (if cell then pr\<lparr>allCnt := allCnt pr + 1\<rparr> else pr)
      in if cell \<and> allCnt pr1 mod 100000 = 0 then PShow m pr1
         else if cnt pr < MAX_CNT then PPush (pr1\<lparr>cnt := cnt pr + 1\<rparr>)
         else PStop (pr1\<lparr>cnt := cnt pr + 1\<rparr>))"

lemma counted_cases:
  "counted pr = (if cnt pr < MAX_CNT then PPush (pr\<lparr>cnt := cnt pr + 1\<rparr>) else PStop (pr\<lparr>cnt := cnt pr + 1\<rparr>))"
  by (simp add: counted_def count_record_def Let_def)

lemma pushed_on_ok:
  assumes "producer_ok j (PPush pr)"
  shows "producer_ok j (pushed_on m cell pr)" "produced (pushed_on m cell pr) = cnt pr"
  using assms by (auto simp: pushed_on_def Let_def)

lemma counted_ok:
  assumes "producer_ok j (PShow e pr)"
  shows "producer_ok j (counted pr)" "produced (counted pr) = cnt pr"
  using assms by (simp_all add: counted_cases)

text \<open>A call of a producer's \<open>threadLoop\<close> in a reachable state, up to the printing.\<close>

lemma produce_main:
  assumes inv: "producers_inv s" and pr: "producers s j = PPush pr"
    and fr: "fresh_block b (cq s)" "records s m = None"
  obtains (no_memory) "m = NULL"
      "produce m b (cq s) (records s) (PPush pr) = Some (Returned (PStop pr) (cq s, records s))"
    | (pushed) q' where "m \<noteq> NULL"
      "produce m b (cq s) (records s) (PPush pr) = Some (Returned (pushed_on m (b \<noteq> NULL) pr)
        (q', (records s)(m \<mapsto> \<lparr>ttype = int j, tvalue = cnt pr\<rparr>)))"
      "contents q' = (if b = NULL then contents (cq s) else contents (cq s) @ [m])"
      "mCapability q' = 2147483646" "mAllowedNewData q'"
proof (cases "m = NULL")
  case True
  then show thesis by (intro no_memory) (simp_all add: push_record_def)
next
  case False
  have q: "queue_ok (cq s)" "order_of (cq s) = None" "mAllowedNewData (cq s)" "mCapability (cq s) = 2147483646"
    using inv by (simp_all add: producers_inv_def records_ok_def)
  have ty: "mType pr = int j" using producers_invD(1) [OF inv, of j] pr by simp
  from push_not_full [OF q(1) fr(1) q(3,4) never_full [OF inv] q(2), of m] obtain q' where
    p: "pushAndWait 0 0 b m [] (cq s) = Some (Returned (if b = NULL then qerr Q_ERR_MEM else 0) q')"
      "contents q' = (if b = NULL then contents (cq s) else contents (cq s) @ [m])"
      "mCapability q' = mCapability (cq s)" "mAllowedNewData q'" by blast
  have "produce m b (cq s) (records s) (PPush pr) = Some (Returned (pushed_on m (b \<noteq> NULL) pr)
      (q', (records s)(m \<mapsto> \<lparr>ttype = int j, tvalue = cnt pr\<rparr>)))"
    using False p(1) ty by (simp add: push_record_def shows_record_def pushed_on_def counted_cases Let_def)
  from pushed [OF False this p(2) p(3) [unfolded q(4)] p(4)] show thesis .
qed

lemma queued_values_frame:
  assumes "contents (cq t) = contents (cq s)" and "\<And>a. a \<in> set (contents (cq s)) \<Longrightarrow> records t a = records s a"
  shows "queued_values t j = queued_values s j"
  using assms by (auto simp: queued_values_def type_at_def value_at_def cong: filter_cong)

lemma queued_values_push:
  assumes "contents (cq t) = contents (cq s) @ [m]" and "m \<notin> set (contents (cq s))"
    and "records t = (records s)(m \<mapsto> \<lparr>ttype = int i, tvalue = v\<rparr>)"
  shows "queued_values t j = queued_values s j @ (if j = i then [v] else [])"
proof -
  have "records t a = records s a" if "a \<in> set (contents (cq s))" for a using that assms(2,3) by auto
  then show ?thesis
    using assms by (auto simp: queued_values_def type_at_def value_at_def cong: filter_cong)
qed

lemma sum_last_value:
  assumes "\<And>k. k \<noteq> j \<Longrightarrow> last_value t k = last_value s k" and "j < MAX_TYPE"
  shows "(\<Sum>k<MAX_TYPE. last_value t k) = (\<Sum>k<MAX_TYPE. last_value s k) + (last_value t j - last_value s j)"
proof -
  have "(\<Sum>k\<in>{..<MAX_TYPE} - {j}. last_value t k) = (\<Sum>k\<in>{..<MAX_TYPE} - {j}. last_value s k)"
    using assms(1) by (intro sum.cong) auto
  then show ?thesis using assms(2) by (simp add: sum.remove [of "{..<MAX_TYPE}" j])
qed

text \<open>A step of producer \<open>j\<close> that pushes at most one record, with a value above all earlier ones.\<close>

lemma producers_inv_push:
  assumes inv: "producers_inv s" and j: "j < MAX_TYPE"
    and ok: "records_ok (cq t) (records t)" "mAllowedNewData (cq t)" "mCapability (cq t) = 2147483646"
    and producers: "producers t = (producers s)(j := p)" and p: "producer_ok j p"
    and up: "last_value s j + int (length new) \<le> produced p" and new: "new = [] \<or> new = [produced p]"
    and len: "length (contents (cq t)) \<le> length (contents (cq s)) + length new"
    and queued: "\<And>k. queued_values t k = queued_values s k @ (if k = j then new else [])"
  shows "producers_inv t"
proof -
  have lv: "last_value t k = (if k = j then produced p else last_value s k)" for k
    by (simp add: last_value_def producers)
  then have other: "last_value t k = last_value s k" if "k \<noteq> j" for k using that by simp
  have "int (length (contents (cq s))) \<le> (\<Sum>k<MAX_TYPE. last_value s k)"
    using inv by (simp add: producers_inv_def)
  moreover have "(\<Sum>k<MAX_TYPE. last_value t k) = (\<Sum>k<MAX_TYPE. last_value s k) + (produced p - last_value s j)"
    using sum_last_value [OF other j] lv [of j] by simp
  ultimately have "int (length (contents (cq t))) \<le> (\<Sum>k<MAX_TYPE. last_value t k)"
    using len up by linarith
  moreover have "sorted_wrt (<) (queued_values t k) \<and> (\<forall>v\<in>set (queued_values t k). v \<le> last_value t k)"
    if "k < MAX_TYPE" for k
  proof -
    have old: "sorted_wrt (<) (queued_values s k)" "\<And>v. v \<in> set (queued_values s k) \<Longrightarrow> v \<le> last_value s k"
      using inv that by (simp_all add: producers_inv_def)
    show ?thesis
    proof (cases "k = j")
      case True
      have "v \<le> produced p" "new \<noteq> [] \<Longrightarrow> v < produced p" if "v \<in> set (queued_values s j)" for v
        using old(2) [of v] that True up new by auto
      then show ?thesis using True old(1) new queued [of j] lv [of j] by (auto simp: sorted_wrt_append)
    next
      case False
      then show ?thesis using old queued [of k] other by simp
    qed
  qed
  moreover have "producer_ok k (producers t k) \<and>
      (MAX_TYPE \<le> k \<longrightarrow> producers t k = PStop (ProduceThread_new (int k)))" for k
    using producers_invD [OF inv, of k] p j producers by (cases "k = j") auto
  ultimately show ?thesis using ok unfolding producers_inv_def by blast
qed

text \<open>A step of producer \<open>j\<close> that leaves the queue and the records alone.\<close>

lemma producers_inv_quiet:
  assumes inv: "producers_inv s" and j: "j < MAX_TYPE" and p: "producer_ok j p" "last_value s j \<le> produced p"
    and t: "cq t = cq s" "records t = records s" "producers t = (producers s)(j := p)"
  shows "producers_inv t"
  by (rule producers_inv_push [OF inv j, where p = p and new = "[]"])
    (use inv p t in \<open>simp_all add: producers_inv_def queued_values_def\<close>)

text \<open>What a step of producer \<open>j\<close> does.\<close>

lemma producing_effect:
  assumes inv: "producers_inv s" and fr: "records s m = None" "fresh_block b (cq s)"
    and p: "produce m b (cq s) (records s) (producers s j) = Some (Returned pc (q', mem'))"
  obtains (quiet) "j < MAX_TYPE" "q' = cq s" "mem' = records s" "producer_ok j pc" "last_value s j \<le> produced pc"
    | (ended) "pc = producers s j" "q' = cq s" "mem' = records s"
    | (pushed) v where "j < MAX_TYPE" "producer_ok j pc" "produced pc = v" "last_value s j = v - 1"
      "mem' = (records s)(m \<mapsto> \<lparr>ttype = int j, tvalue = v\<rparr>)"
      "contents q' = contents (cq s) @ (if b = NULL then [] else [m])" "mCapability q' = 2147483646" "mAllowedNewData q'"
proof -
  have j: "j < MAX_TYPE" if "\<And>pr. producers s j \<noteq> PStop pr"
    using producers_invD(2) [OF inv, of j] that by (cases "j < MAX_TYPE") simp_all
  note ok = producers_invD(1) [OF inv, of j]
  show thesis
  proof (cases "producers s j")
    case (PPush pr)
    then have P: "producer_ok j (PPush pr)" "last_value s j = cnt pr - 1" using ok by (simp_all add: last_value_def)
    from inv PPush fr(2,1) show thesis
    proof (cases rule: produce_main)
      case no_memory
      with p PPush P j show thesis by (intro quiet) auto
    next
      case (pushed q1)
      with p PPush have "pc = pushed_on m (b \<noteq> NULL) pr" "q' = q1"
        "mem' = (records s)(m \<mapsto> \<lparr>ttype = int j, tvalue = cnt pr\<rparr>)" by auto
      with pushed pushed_on_ok [OF P(1), of m "b \<noteq> NULL"] P(2) j PPush show thesis
        by (intro that(3) [of "cnt pr"]) simp_all
    qed
  next
    case (PShow e pr)
    with p have "pc = counted pr" "q' = cq s" "mem' = records s" by auto
    with counted_ok [of j e pr] ok PShow j show thesis by (intro quiet) (simp_all add: last_value_def)
  next
    case (PStop pr)
    with p show thesis by (intro ended) auto
  qed
qed

lemma producers_inv_producing:
  assumes inv: "producers_inv s" and fr: "records s m = None" "fresh_block b (cq s)"
    and p: "produce m b (cq s) (records s) (producers s j) = Some (Returned pc (q', mem'))"
    and t: "cq t = q'" "records t = mem'" "producers t = (producers s)(j := pc)"
  shows "producers_inv t"
  using inv fr p
proof (cases rule: producing_effect)
  case quiet
  with t show ?thesis by (intro producers_inv_quiet [OF inv, where p = pc]) simp_all
next
  case ended
  with t have "cq t = cq s" "records t = records s" "producers t = producers s" by auto
  with inv show ?thesis by (simp add: producers_inv_def last_value_def queued_values_def)
next
  case (pushed v)
  have ok: "records_ok (cq s) (records s)" using inv by (simp add: producers_inv_def)
  have ok': "records_ok (cq t) (records t)" using produce_cases(1) [OF ok fr(2,1) p] t by simp
  have m: "m \<notin> set (contents (cq s))" using records_okD(4) [OF ok] fr(1) by auto
  let ?new = "if b = NULL then [] else [v]"
  have queued: "queued_values t k = queued_values s k @ (if k = j then ?new else [])" for k
  proof (cases "b = NULL")
    case True
    then show ?thesis using pushed(5,6) t m by (auto intro!: queued_values_frame)
  next
    case False
    then show ?thesis using pushed(5,6) t m queued_values_push [of t s m j v k] by auto
  qed
  show ?thesis
    by (rule producers_inv_push [OF inv pushed(1) ok' _ _ t(3), where new = ?new])
      (use t pushed queued in \<open>auto\<close>)
qed

lemma producers_inv_step:
  assumes inv: "producers_inv s" and step: "cstep n s t" and many: "many_inv n s"
  shows "producers_inv t"
  using step
proof cases
  case (producing m b j pc q' mem')
  show ?thesis
    by (rule producers_inv_producing [OF inv producing(2,3,4)]) (simp_all add: producing(1))
next
  case (consuming i pc q' mem')
  have ok: "records_ok (cq s) (records s)" using inv by (simp add: producers_inv_def)
  have sub: "producers_inv t"
    if "records_ok q' mem'" "mAllowedNewData q'" "mCapability q' = 2147483646"
      "length (contents q') \<le> length (contents (cq s))"
      "\<And>k. \<exists>vs. queued_values s k = vs @ queued_values t k"
  proof -
    have "last_value t = last_value s" using consuming(1) by (simp add: last_value_def fun_eq_iff)
    moreover have "sorted_wrt (<) (queued_values t k) \<and> (\<forall>v\<in>set (queued_values t k). v \<le> last_value s k)"
      if "k < MAX_TYPE" for k
    proof -
      obtain vs where "queued_values s k = vs @ queued_values t k"
        using \<open>\<And>k. \<exists>vs. queued_values s k = vs @ queued_values t k\<close> by blast
      then show ?thesis using inv that unfolding producers_inv_def by (metis Un_iff set_append sorted_wrt_append)
    qed
    ultimately show ?thesis using that(1-4) inv consuming(1) by (auto simp: producers_inv_def)
  qed
  have q: "mAllowedNewData (cq s)" "mCapability (cq s) = 2147483646" using inv by (simp_all add: producers_inv_def)
  from ok consuming(3) show ?thesis
  proof (cases rule: consume_effect)
    case same
    then show ?thesis using ok q consuming(1)
      by (intro sub) (auto intro!: exI [of _ "[]"] simp: queued_values_def)
  next
    case failed
    then show ?thesis using q consuming(1)
      by (intro sub) (auto intro!: exI [of _ "[]"] simp: queued_values_def)
  next
    case (popped d)
    have "\<exists>vs. queued_values s k = vs @ queued_values t k" for k
      using popped(3,4) consuming(1)
      by (auto intro!: exI [of _ "if type_at (records s) d = int k then [value_at (records s) d] else []"]
          simp: queued_values_def)
    then show ?thesis using popped q by (intro sub) auto
  next
    case (freed e)
    note held = many_invD(1,2) [OF many consuming(2), of e, unfolded freed(1)]
    have "queued_values t k = queued_values s k" for k
      using freed(3,4) consuming(1) held by (intro queued_values_frame) auto
    moreover have "records_ok q' mem'" using ok held freed(3,4) by (auto simp: records_ok_def)
    ultimately show ?thesis using freed(3) q by (intro sub) (auto intro!: exI [of _ "[]"])
  qed
qed

interpretation main_sys: invariant_system main_init "cstep n" "\<lambda>s. producers_inv s \<and> many_inv n s" for n
proof
  show "producers_inv s \<and> many_inv n s" if "main_init s" for s
  proof
    have c: "cinit s" using that by (simp add: main_init_def)
    then show "many_inv n s" by (rule many.init_inv)
    have "records_ok (cq s) (records s)" using lone.init_inv [OF c] by (simp add: single_inv_def)
    moreover have "contents (cq s) = []" "mAllowedNewData (cq s)" "mCapability (cq s) = 2147483646"
      using c by (simp_all add: cinit_def Queue_new_def contents_def addrs_def)
        (simp_all add: queue_init_def)
    moreover have "0 \<le> last_value s k" for k
      using that by (simp add: main_init_def last_value_def ProduceThread_new_def)
    ultimately show "producers_inv s"
      using that by (auto simp: producers_inv_def main_init_def ProduceThread_new_def queued_values_def MAX_CNT_def
          intro!: sum_nonneg split: if_splits)
  qed
  show "producers_inv t \<and> many_inv n t" if "producers_inv s \<and> many_inv n s" "cstep n s t" for s t
    using that producers_inv_step many_inv_step by blast
qed

section \<open>Properties of the threads\<close>

lemma push_record_total:
  assumes "records_ok q mem" and "fresh_block b q"
  shows "\<exists>r. push_record m b pr q mem = Some r"
proof -
  from push_law [OF records_okD(1) [OF assms(1)] assms(2), of m]
  obtain c q' where "push 0 0 b m q = Some (Returned c q')" by blast
  then have "pushElement b m False [] q \<noteq> None" by (simp add: push_unlocked)
  then have "pushElement b m True [] q \<noteq> None"
    by (auto simp: pushElement_def pushWaitLoop_def split: if_splits)
  then show ?thesis by (auto simp: push_record_def pushAndWait_def Let_def)
qed

text \<open>Every producer step but the printing of a pushed record succeeds, or the producer waits.\<close>

lemma produce_total:
  assumes "records_ok q mem" and "fresh_block b q" and "produce m b q mem pc = None"
  obtains e pr where "pc = PShow e pr" "e \<notin> dom mem"
proof (cases pc)
  case (PPush pr)
  with assms push_record_total [OF assms(1,2), of m pr] show thesis by auto
qed (use assms that in \<open>auto simp: show_record_def\<close>)

text \<open>
  C20 (safety): with any number of producers and consumers, only two steps can go wrong: a consumer's
  reading of the record it peeked at and a producer's printing of the record it pushed, when that
  record was freed. A popped record is allocated, no longer queued and held by one consumer only, so
  none is freed twice and none is used after its own release.
\<close>

theorem only_unowned_reads_fault:
  assumes "reach cinit (cstep n) s" and "i < n" and "fresh_block b (cq s)"
  shows "(consume (cq s) (records s) (consumers s i) = None \<longrightarrow>
      (\<exists>e. consumers s i = CRead e \<and> e \<notin> dom (records s))) \<and>
    (produce m b (cq s) (records s) (producers s j) = None \<longrightarrow>
      (\<exists>e pr. producers s j = PShow e pr \<and> e \<notin> dom (records s))) \<and>
    (\<forall>e. holds (consumers s i) = Some e \<longrightarrow> e \<in> dom (records s) \<and> e \<notin> set (contents (cq s)) \<and>
      (\<forall>k < n. holds (consumers s k) = Some e \<longrightarrow> k = i))"
proof -
  have inv: "many_inv n s" by (rule many.reach_inv [OF assms(1)])
  then have ok: "records_ok (cq s) (records s)" by (simp add: many_inv_def)
  note D = many_invD [OF inv assms(2)]
  have "\<exists>e. consumers s i = CRead e \<and> e \<notin> dom (records s)"
    if "consume (cq s) (records s) (consumers s i) = None"
    using consume_total [OF ok D(1) that] by blast
  moreover have "\<exists>e pr. producers s j = PShow e pr \<and> e \<notin> dom (records s)"
    if "produce m b (cq s) (records s) (producers s j) = None"
    using produce_total [OF ok assms(3) that] by blast
  ultimately show ?thesis using D by blast
qed

theorem only_unowned_reads_fault_witness:
  "consumers (simple_state popped_queue one_record (CRead 7) (CUse 7)) 1 = CUse 7 \<and>
   7 \<in> dom (records (simple_state popped_queue one_record (CRead 7) (CUse 7)))"
proof -
  let ?s = "simple_state popped_queue one_record (CRead 7) (CUse 7)"
  have "reach cinit (cstep 2) (simple_state pushed_queue one_record (CRead 7) CPeek)"
    by (rule reach_consumer0 [OF reach_produced]) (simp_all add: simple_peek)
  then have "reach cinit (cstep 2) (simple_state pushed_queue one_record (CRead 7) (CRead 7))"
    by (rule reach_consumer1) (simp_all add: simple_peek)
  then have "reach cinit (cstep 2) (simple_state pushed_queue one_record (CRead 7) CPop)"
    by (rule reach_consumer1) (simp_all add: one_record_def)
  then have "reach cinit (cstep 2) ?s"
    by (rule reach_consumer1) (simp_all add: simple_pop)
  moreover have "fresh_block 1 (cq ?s)"
    by (simp add: fresh_block_def simple_state_def simple_defs)
  ultimately show ?thesis using only_unowned_reads_fault [of 2 ?s 1 1] by (simp add: simple_state_def)
qed

text \<open>
  C23 (bounds): the producers of \<open>main\<close> never wait and their counters do not overflow. Ten producers of
  a million records each cannot fill a queue of the default capacity, so in every reachable state a
  call of a producer's \<open>threadLoop\<close> comes back from the queue: it ends when there is no memory for the
  record; otherwise the record is queued behind all others unless the queue has no memory for its
  cell, and then either the record is about to be printed or the call returns, with true exactly
  below the last value.
\<close>

theorem producers_never_wait:
  assumes "reach main_init (cstep n) s" and "producers s j = PPush pr"
    and "fresh_block b (cq s)" and "records s m = None"
  shows "\<exists>q' mem'. produce m b (cq s) (records s) (PPush pr) =
      Some (Returned (if m = NULL then PStop pr else pushed_on m (b \<noteq> NULL) pr) (q', mem')) \<and>
    length (contents (cq s)) \<le> 10 * 1000000 \<and> 0 \<le> allCnt pr \<and> allCnt pr < cnt pr \<and> cnt pr \<le> MAX_CNT \<and>
    (if m = NULL then q' = cq s \<and> mem' = records s
     else mem' m = Some \<lparr>ttype = int j, tvalue = cnt pr\<rparr> \<and>
       contents q' = (if b = NULL then contents (cq s) else contents (cq s) @ [m]))"
proof -
  have inv: "producers_inv s" using main_sys.reach_inv [OF assms(1)] by blast
  have "(\<Sum>k<MAX_TYPE. last_value s k) \<le> (\<Sum>k<MAX_TYPE. MAX_CNT)"
    by (intro sum_mono last_value_bound [OF inv])
  with inv have "length (contents (cq s)) \<le> 10 * 1000000"
    by (simp add: producers_inv_def MAX_TYPE_def MAX_CNT_def)
  moreover have "0 \<le> allCnt pr" "allCnt pr < cnt pr" "cnt pr \<le> MAX_CNT"
    using producers_invD(1) [OF inv, of j] assms(2) by simp_all
  moreover from inv assms(2-4) have "\<exists>q' mem'. produce m b (cq s) (records s) (PPush pr) =
      Some (Returned (if m = NULL then PStop pr else pushed_on m (b \<noteq> NULL) pr) (q', mem')) \<and>
    (if m = NULL then q' = cq s \<and> mem' = records s
     else mem' m = Some \<lparr>ttype = int j, tvalue = cnt pr\<rparr> \<and>
       contents q' = (if b = NULL then contents (cq s) else contents (cq s) @ [m]))"
  proof (cases rule: produce_main)
    case no_memory
    then show ?thesis by (simp del: produce.simps)
  next
    case (pushed q')
    then show ?thesis by (auto simp del: produce.simps)
  qed
  ultimately show ?thesis by blast
qed

text \<open>The start of \<open>main\<close> and the first push of producer 0.\<close>

definition main_start :: csys where
  "main_start = simple_start\<lparr>producers :=
     (\<lambda>j. if j < MAX_TYPE then PPush (ProduceThread_new (int j)) else PStop (ProduceThread_new (int j)))\<rparr>"

definition main_pushed :: csys where
  "main_pushed = main_start\<lparr>cq := pushed_queue, records := one_record,
     producers := (producers main_start)(0 := PPush \<lparr>mType = 0, cnt = 2, allCnt = 1\<rparr>)\<rparr>"

lemma main_reached: "reach main_init (cstep n) main_start" "reach main_init (cstep n) main_pushed"
proof -
  show start: "reach main_init (cstep n) main_start"
    by (rule reach_init) (simp add: main_init_def cinit_def main_start_def simple_start_def)
  have fr: "fresh_block 1 (cq main_start)"
    by (simp add: fresh_block_def main_start_def simple_start_def Queue_new_def queue_init_def)
  have "cstep n main_start main_pushed"
    using producing [of main_start 7 1 0, OF _ fr] simple_produce
    by (simp add: main_start_def simple_start_def main_pushed_def one_record_def MAX_TYPE_def)
  with start show "reach main_init (cstep n) main_pushed" by (rule reach_step)
qed

theorem producers_never_wait_witness:
  "\<exists>q' mem'. produce 7 1 (cq main_start) (records main_start) (PPush (ProduceThread_new 3)) =
     Some (Returned (PPush \<lparr>mType = 3, cnt = 2, allCnt = 1\<rparr>) (q', mem')) \<and>
     contents q' = contents (cq main_start) @ [7]"
proof -
  have pr: "producers main_start 3 = PPush (ProduceThread_new 3)"
    by (simp add: main_start_def MAX_TYPE_def)
  have fr: "fresh_block 1 (cq main_start)" "records main_start 7 = None"
    by (simp_all add: fresh_block_def main_start_def simple_start_def Queue_new_def queue_init_def)
  from producers_never_wait [OF main_reached(1) pr fr] show ?thesis
    by (auto simp: MAX_CNT_def pushed_on_def ProduceThread_new_def)
qed

text \<open>
  In every reachable state the queued records of each producer stand in strictly
  ascending order of their values, up to the last value that producer pushed. As the queue is
  first in, first out, the consumers take each producer's records in the order of production.
\<close>

theorem producer_order:
  assumes "reach main_init (cstep n) s" and "j < MAX_TYPE"
  shows "sorted_wrt (<) (queued_values s j) \<and>
    (\<forall>v\<in>set (queued_values s j). v \<le> last_value s j) \<and> last_value s j \<le> MAX_CNT"
proof -
  have inv: "producers_inv s" using main_sys.reach_inv [OF assms(1)] by blast
  with assms(2) last_value_bound(1) [OF inv] show ?thesis unfolding producers_inv_def by blast
qed

theorem producer_order_witness:
  "queued_values main_pushed 0 = [1] \<and> last_value main_pushed 0 = 1 \<and>
   list_all (\<lambda>v. v \<le> last_value main_pushed 0) (queued_values main_pushed 0)"
proof -
  have "queue_wf pushed_queue [1]"
    by (auto simp: queue_wf_def simple_defs split: if_splits)
  then have "contents (cq main_pushed) = [7]"
    by (simp add: main_pushed_def contents_wf) (simp add: simple_defs datas_def cell_data_def)
  then have "queued_values main_pushed 0 = [1]" "last_value main_pushed 0 = 1"
    by (simp_all add: queued_values_def main_pushed_def one_record_def type_at_def value_at_def last_value_def)
  moreover have "(0::nat) < MAX_TYPE" by (simp add: MAX_TYPE_def)
  ultimately show ?thesis using producer_order [OF main_reached(2)] unfolding list_all_iff by blast
qed

section \<open>A producer in its thread\<close>

text \<open>
  The results of the successive calls of \<open>threadLoop\<close>, each made in the state its turn finds:
  what \<open>malloc\<close> and \<open>calloc\<close> return, the queue and the records at the push, and the records at the
  printing.
\<close>

fun whole_call :: "addr \<times> addr \<times> Queue \<times> memory \<times> memory \<Rightarrow> Producer \<Rightarrow> (bool \<times> Producer) option" where
  "whole_call (m, b, q, mem, mem2) pr =
     (case push_record m b pr q mem of
        Some (Returned (None, pr1) _) \<Rightarrow> Some (False, pr1)
      | Some (Returned (Some ret, pr1) _) \<Rightarrow>
          if shows_record ret pr1 then map_option (\<lambda>_. count_record pr1) (show_record mem2 m)
          else Some (count_record pr1)
      | _ \<Rightarrow> None)"

fun produce_results :: "(addr \<times> addr \<times> Queue \<times> memory \<times> memory) list \<Rightarrow> Producer \<Rightarrow> bool list" where
  "produce_results [] pr = []"
| "produce_results (c # cs) pr =
     (case whole_call c pr of
        Some (go, pr') \<Rightarrow> go # (if go then produce_results cs pr' else [])
      | None \<Rightarrow> [])"

definition call_returns :: "addr \<times> addr \<times> Queue \<times> memory \<times> memory \<Rightarrow> bool" where
  "call_returns c = (case c of (m, b, q, mem, mem2) \<Rightarrow>
     m \<noteq> NULL \<and> mem2 m \<noteq> None \<and> (case pushAndWait 0 0 b m [] q of Some (Returned _ _) \<Rightarrow> True | _ \<Rightarrow> False))"

lemma whole_call_counts:
  assumes "call_returns c"
  shows "\<exists>pr'. whole_call c pr = Some (cnt pr < MAX_CNT, pr') \<and> cnt pr' = cnt pr + 1"
proof -
  obtain m b q mem mem2 where c: "c = (m, b, q, mem, mem2)" by (cases c)
  with assms obtain r q' t where r: "m \<noteq> NULL" "mem2 m = Some t" "pushAndWait 0 0 b m [] q = Some (Returned r q')"
    by (auto simp: call_returns_def split: option.splits outcome.splits)
  moreover have "(MAX_CNT < cnt pr + 1) = (\<not> cnt pr < MAX_CNT)" by auto
  ultimately show ?thesis
    by (simp add: c push_record_def show_record_def count_record_def Let_def)
qed

lemma produce_results_counts:
  "list_all call_returns cs \<Longrightarrow> int (length cs) = int n + 1 \<Longrightarrow> cnt pr + int n = MAX_CNT \<Longrightarrow>
   produce_results cs pr = replicate n True @ [False]"
proof (induction n arbitrary: cs pr)
  case 0
  then obtain c where c: "cs = [c]" by (cases cs) auto
  with 0 whole_call_counts [of c pr] show ?case by auto
next
  case (Suc n)
  then obtain c cs' where cs: "cs = c # cs'" by (cases cs) auto
  with Suc.prems whole_call_counts [of c pr] obtain pr' where
    p: "whole_call c pr = Some (True, pr')" "cnt pr' = cnt pr + 1"
    by (auto simp: MAX_CNT_def)
  with Suc.IH [of cs' pr'] Suc.prems cs show ?case by simp
qed

text \<open>
  C24 (termination): a producer's thread, unless asked to exit, calls \<open>threadLoop\<close> exactly
  \<open>MAX_CNT\<close> times, whatever the other threads do to the queue and the records in between, as long
  as its calls return, get memory for the record and find the record still there when it is printed;
  then it calls \<open>readyToExit\<close> and is done.
\<close>

theorem producer_thread:
  assumes "list_all call_returns cs" and "length cs = 1000000" and "cnt pr = 1" and "\<not> mExitPending t"
  shows "work (3 * 999999 + 8) (produce_results cs pr) t Begin [] =
    Some (Done, t\<lparr>mExitPending := True, mRunning := False, mThread := None\<rparr>,
      ReadyToRun # replicate 1000000 ThreadLoop @ [ReadyToExit])"
proof -
  have "produce_results cs pr = replicate 999999 True @ False # []"
    using produce_results_counts [OF assms(1), of 999999 pr] assms(2,3) by (simp add: MAX_CNT_def)
  moreover have "Suc 999999 = (1000000::nat)" by simp
  ultimately show ?thesis using worker_steps [OF assms(4), of 999999 "[]"] by (simp only:)
qed

theorem producer_thread_witness:
  "\<exists>t'. work (3 * 999999 + 8)
      (produce_results (replicate 1000000 (7, 1, Queue_new, Map.empty, one_record)) (ProduceThread_new 0))
      Thread_new Begin [] = Some (Done, t', ReadyToRun # replicate 1000000 ThreadLoop @ [ReadyToExit])"
proof -
  have "call_returns (7, 1, Queue_new, Map.empty, one_record)"
    unfolding Queue_new_no_element by (simp add: call_returns_def simple_push one_record_def del: One_nat_def)
  then have "list_all call_returns (replicate 1000000 (7, 1, Queue_new, Map.empty, one_record))"
    by (simp add: list_all_iff)
  from producer_thread [OF this, of "ProduceThread_new 0" Thread_new] show ?thesis
    by (simp add: Thread_new_def ProduceThread_new_def)
qed

end
