(* ===== verification/QueueMain.thy ===== *)
theory QueueMain
  imports QueueSimple_Many
begin

text \<open>
  One round of \<open>main\<close> in \<open>QueueSimple.cpp\<close>: the creation of the queue and of twenty thread
  objects, the loop that waits for them, and the deletion of the queue and the objects. The threads
  are the workers of theory \<open>Thread\<close>, each on its own object; consumer \<open>i\<close> has index \<open>i\<close>,
  producer \<open>i\<close> has index \<open>MAX_TYPE + i\<close>. In its loop a worker runs the \<open>threadLoop\<close> of its class,
  in the steps of theory \<open>QueueSimple\<close>, on the queue and the records that all threads share.
\<close>

section \<open>The program\<close>

text \<open>
  The counter of \<open>main\<close>: in the two creating loops, at the condition of the waiting loop with the
  two counts, in its \<open>for\<close> loop before the question to producer \<open>i\<close> and to consumer \<open>i\<close>, at
  \<open>setAllowedNewData\<close>, at the deletion of the queue, in the deleting loop, at the end of the round.
\<close>

datatype mpc =
    MNewC nat | MNewP nat | MTest nat nat | MScanP nat nat nat | MScanC nat nat nat
  | MRefuse | MDelQ | MDel nat | MEnd

text \<open>
  A null entry of \<open>objs\<close> is an object not yet created or already deleted. \<open>seen\<close> is a ghost: where
  each thread stood when this pass of the waiting loop found it not running.
\<close>

record msys =
  mpc :: mpc
  mq :: "Queue option"
  objs :: "nat \<Rightarrow> Thread option"
  wks :: "nat \<Rightarrow> worker"
  mrecords :: memory
  mproducers :: "nat \<Rightarrow> producer"
  mconsumers :: "nat \<Rightarrow> consumer"
  seen :: "nat \<Rightarrow> worker option"

definition start_thread :: "int \<Rightarrow> nat \<Rightarrow> string \<Rightarrow> msys \<Rightarrow> msys" where
  "start_thread result k name s =
     (let (c, t) = run result k name Thread_new
      in s\<lparr>objs := (objs s)(k := Some t),
           wks := (if c = error_value NO_ERROR then (wks s)(k := Begin) else wks s)\<rparr>)"

text \<open>The question to thread \<open>k\<close>: the new count, and the ghost.\<close>

definition ask :: "nat \<Rightarrow> nat \<Rightarrow> msys \<Rightarrow> (nat \<times> msys) option" where
  "ask k found s = map_option
     (\<lambda>t. if \<not> isRunning t then (found + 1, s\<lparr>seen := (seen s)(k := Some (wks s k))\<rparr>) else (found, s))
     (objs s k)"

text \<open>One step of \<open>main\<close>; \<open>result\<close> is what \<open>pthread_create\<close> returns, if it is called.\<close>

fun main_next :: "int \<Rightarrow> mpc \<Rightarrow> msys \<Rightarrow> msys option" where
  "main_next result (MNewC i) s =
     Some (if i < MAX_TYPE then (start_thread result i ''consumeThread'' s)
             \<lparr>mconsumers := (mconsumers s)(i := CPeek), mpc := MNewC (i + 1)\<rparr>
           else s\<lparr>mpc := MNewP 0\<rparr>)"
| "main_next result (MNewP i) s =
     Some (if i < MAX_TYPE then (start_thread result (MAX_TYPE + i) ''produceThread'' s)
             \<lparr>mproducers := (mproducers s)(i := PPush (ProduceThread_new (int i))), mpc := MNewP (i + 1)\<rparr>
           else s\<lparr>mpc := MTest 0 0\<rparr>)"
| "main_next result (MTest proFound comFound) s =
     Some (if main_waits proFound comFound then s\<lparr>mpc := MScanP 0 0 0, seen := Map.empty\<rparr>
           else s\<lparr>mpc := MRefuse\<rparr>)"
| "main_next result (MScanP i proFound comFound) s =
     (if i < MAX_TYPE then
        map_option (\<lambda>(pro, s'). s'\<lparr>mpc := MScanC i pro comFound\<rparr>) (ask (MAX_TYPE + i) proFound s)
      else Some (if proFound \<ge> MAX_TYPE \<and> comFound \<ge> MAX_TYPE then s\<lparr>mpc := MRefuse\<rparr>
                 else s\<lparr>mpc := MTest proFound comFound\<rparr>))"
| "main_next result (MScanC i proFound comFound) s =
     map_option (\<lambda>(com, s'). s'\<lparr>mpc := MScanP (i + 1) proFound com\<rparr>) (ask i comFound s)"
| "main_next result MRefuse s =
     map_option (\<lambda>q. s\<lparr>mq := Some (snd (setAllowedNewData 0 0 False q)), mpc := MDelQ\<rparr>) (mq s)"
| "main_next result MDelQ s = Some (s\<lparr>mq := None, mpc := MDel 0\<rparr>)"
| "main_next result (MDel i) s =
     Some (if i < MAX_TYPE then s\<lparr>objs := (objs s)(MAX_TYPE + i := None, i := None), mpc := MDel (i + 1)\<rparr>
           else s\<lparr>mpc := MEnd\<rparr>)"
| "main_next result MEnd s = None"

text \<open>
  A step of the \<open>threadLoop\<close> of thread \<open>k\<close> on the queue \<open>q\<close>: the state, and what \<open>threadLoop\<close>
  returned if it did. \<open>m\<close> is what \<open>malloc\<close> returns, \<open>b\<close> what \<open>calloc\<close> returns inside the queue.
\<close>

fun consumer_result :: "consumer \<Rightarrow> bool option" where
  "consumer_result CPeek = Some True"
| "consumer_result (CStop at) = Some False"
| "consumer_result _ = None"

fun producer_result :: "producer \<Rightarrow> bool option" where
  "producer_result (PPush pr) = Some True"
| "producer_result (PStop pr) = Some False"
| "producer_result _ = None"

definition loop_next :: "nat \<Rightarrow> addr \<Rightarrow> addr \<Rightarrow> Queue \<Rightarrow> msys \<Rightarrow> (bool option \<times> msys) option" where
  "loop_next k m b q s =
     (if k < MAX_TYPE then
        map_option (\<lambda>(pc, q', mem'). (consumer_result pc,
            s\<lparr>mq := Some q', mrecords := mem', mconsumers := (mconsumers s)(k := pc)\<rparr>))
          (consume q (mrecords s) (mconsumers s k))
      else
        map_option (\<lambda>r. case r of
            Returned pc (q', mem') \<Rightarrow> (producer_result pc,
              s\<lparr>mq := Some q', mrecords := mem', mproducers := (mproducers s)(k - MAX_TYPE := pc)\<rparr>)
          | Asleep _ \<Rightarrow> (None, s))
          (produce m b q (mrecords s) (mproducers s (k - MAX_TYPE))))"

text \<open>
  A step of thread \<open>k\<close>. \<open>None\<close> is the use of a deleted object or queue or of a freed record, or the
  thread is not alive.
\<close>

definition worker_next :: "nat \<Rightarrow> bool \<Rightarrow> Thread \<Rightarrow> msys \<Rightarrow> msys option" where
  "worker_next k r t s = map_option
     (\<lambda>(pc, t', cbs, bc). s\<lparr>objs := (objs s)(k := Some t'), wks := (wks s)(k := pc)\<rparr>)
     (worker_step r t (wks s k))"

definition thread_next :: "nat \<Rightarrow> addr \<Rightarrow> addr \<Rightarrow> msys \<Rightarrow> msys option" where
  "thread_next k m b s =
     Option.bind (objs s k) (\<lambda>t.
       if wks s k = Loop then
         Option.bind (mq s) (\<lambda>q.
           Option.bind (loop_next k m b q s) (\<lambda>(r, s1).
             case r of None \<Rightarrow> Some s1 | Some go \<Rightarrow> worker_next k go t s1))
       else worker_next k True t s)"

datatype maction = Main int | Thread_step nat addr addr

fun mact :: "maction \<Rightarrow> msys \<Rightarrow> msys option" where
  "mact (Main result) s = main_next result (mpc s) s"
| "mact (Thread_step k m b) s = thread_next k m b s"

text \<open>What the allocations return is a null pointer or a block not in use.\<close>

fun blocks_ok :: "maction \<Rightarrow> msys \<Rightarrow> bool" where
  "blocks_ok (Thread_step k m b) s \<longleftrightarrow>
     mrecords s m = None \<and> (case mq s of None \<Rightarrow> True | Some q \<Rightarrow> b = NULL \<or> cells q b = None)"
| "blocks_ok (Main result) s \<longleftrightarrow> True"

inductive mmove :: "msys \<Rightarrow> msys \<Rightarrow> bool" where
  mmove: "blocks_ok a s \<Longrightarrow> mact a s = Some t \<Longrightarrow> mmove s t"

text \<open>The members of an object are those of its constructor from the start: its thread cannot use them before.\<close>

definition mstart :: msys where
  "mstart = \<lparr>mpc = MNewC 0, mq = Some Queue_new, objs = Map.empty, wks = (\<lambda>_. Absent), mrecords = Map.empty,
     mproducers = producers main_start, mconsumers = (\<lambda>_. CPeek), seen = Map.empty\<rparr>"

definition minit :: "msys \<Rightarrow> bool" where "minit s \<longleftrightarrow> s = mstart"

text \<open>The next step of thread \<open>k\<close> touches a deleted object or the deleted queue.\<close>

definition use_after_delete :: "msys \<Rightarrow> nat \<Rightarrow> bool" where
  "use_after_delete s k \<longleftrightarrow> wks s k \<notin> {Absent, Done} \<and> (objs s k = None \<or> wks s k = Loop \<and> mq s = None)"

section \<open>What the waiting loop establishes\<close>

definition past_loop :: "worker \<Rightarrow> bool" where
  "past_loop pc \<longleftrightarrow> pc \<in> {Leave, Exit, Done}"

text \<open>A thread that was found not running, and what that says of it now.\<close>

definition found :: "msys \<Rightarrow> nat \<Rightarrow> bool" where
  "found s k \<longleftrightarrow> (\<exists>pc. seen s k = Some pc \<and> (pc = Absent \<or> pc = Begin \<or> past_loop (wks s k)))"

definition running_inv :: "msys \<Rightarrow> bool" where
  "running_inv s \<longleftrightarrow> (\<forall>k t. objs s k = Some t \<longrightarrow> (mRunning t \<longleftrightarrow> inside (wks s k))) \<and>
     (\<forall>k pc. seen s k = Some pc \<longrightarrow> found s k)"

definition all_found :: "msys \<Rightarrow> nat \<Rightarrow> nat \<Rightarrow> nat \<Rightarrow> bool" where
  "all_found s base n c \<longleftrightarrow> c \<le> n \<and> (c = n \<longrightarrow> (\<forall>k < n. seen s (base + k) \<noteq> None))"

definition kind_found :: "msys \<Rightarrow> bool" where
  "kind_found s \<longleftrightarrow> all_found s MAX_TYPE MAX_TYPE MAX_TYPE \<or> all_found s 0 MAX_TYPE MAX_TYPE"

definition unborn :: "nat \<Rightarrow> msys \<Rightarrow> bool" where
  "unborn n s \<longleftrightarrow> (\<forall>k. (objs s k \<noteq> None \<longleftrightarrow> k < n) \<and> (n \<le> k \<longrightarrow> wks s k = Absent)) \<and> mq s \<noteq> None"

definition all_alive :: "msys \<Rightarrow> bool" where
  "all_alive s \<longleftrightarrow> (\<forall>k < MAX_TYPE + MAX_TYPE. objs s k \<noteq> None) \<and> mq s \<noteq> None"

fun scan_inv :: "mpc \<Rightarrow> msys \<Rightarrow> bool" where
  "scan_inv (MNewC i) s \<longleftrightarrow> i \<le> MAX_TYPE \<and> unborn i s"
| "scan_inv (MNewP i) s \<longleftrightarrow> i \<le> MAX_TYPE \<and> unborn (MAX_TYPE + i) s"
| "scan_inv (MScanP i pro com) s \<longleftrightarrow> i \<le> MAX_TYPE \<and> all_found s MAX_TYPE i pro \<and> all_found s 0 i com \<and> all_alive s"
| "scan_inv (MScanC i pro com) s \<longleftrightarrow> i < MAX_TYPE \<and> all_found s MAX_TYPE (i + 1) pro \<and> all_found s 0 i com \<and> all_alive s"
| "scan_inv (MTest pro com) s \<longleftrightarrow> ((pro = 0 \<and> com = 0) \<or>
     (all_found s MAX_TYPE MAX_TYPE pro \<and> all_found s 0 MAX_TYPE com)) \<and> all_alive s"
| "scan_inv MRefuse s \<longleftrightarrow> kind_found s \<and> all_alive s"
| "scan_inv MDelQ s \<longleftrightarrow> kind_found s"
| "scan_inv (MDel i) s \<longleftrightarrow> kind_found s"
| "scan_inv MEnd s \<longleftrightarrow> kind_found s"

lemma all_found_cong: "seen t = seen s \<Longrightarrow> all_found t base n c = all_found s base n c"
  by (simp add: all_found_def)

text \<open>A step of a thread leaves the scan alone.\<close>

lemma loop_next_frame:
  assumes "loop_next k m b q s = Some (r, s1)" and "mq s \<noteq> None"
  shows "objs s1 = objs s" "wks s1 = wks s" "mpc s1 = mpc s" "seen s1 = seen s" "mq s1 \<noteq> None"
proof -
  have "objs s1 = objs s \<and> wks s1 = wks s \<and> mpc s1 = mpc s \<and> seen s1 = seen s \<and> mq s1 \<noteq> None"
  proof (cases "k < MAX_TYPE")
    case True
    with assms show ?thesis by (auto simp: loop_next_def simp del: consume.simps)
  next
    case False
    with assms obtain o1 where "produce m b q (mrecords s) (mproducers s (k - MAX_TYPE)) = Some o1"
      by (auto simp: loop_next_def simp del: produce.simps)
    with False assms show ?thesis
      by (cases o1) (auto simp: loop_next_def simp del: produce.simps)
  qed
  then show "objs s1 = objs s" "wks s1 = wks s" "mpc s1 = mpc s" "seen s1 = seen s" "mq s1 \<noteq> None" by blast+
qed

lemma worker_nextE:
  assumes "worker_next k r ob s = Some t"
  obtains pc ob' cbs bc where "worker_step r ob (wks s k) = Some (pc, ob', cbs, bc)"
    "t = s\<lparr>objs := (objs s)(k := Some ob'), wks := (wks s)(k := pc)\<rparr>"
  using assms by (auto simp: worker_next_def simp del: worker_step.simps)

lemma thread_next_cases:
  assumes "thread_next k m b s = Some t"
  obtains (inside) q where "objs s k \<noteq> None" "wks s k = Loop" "mq s = Some q" "loop_next k m b q s = Some (None, t)"
    | (returned) ob q go s1 where "objs s k = Some ob" "wks s k = Loop" "mq s = Some q"
      "loop_next k m b q s = Some (Some go, s1)" "worker_next k go ob s1 = Some t"
    | (outside) ob where "objs s k = Some ob" "wks s k \<noteq> Loop" "worker_next k True ob s = Some t"
proof -
  from assms obtain ob where ob: "objs s k = Some ob" by (auto simp: thread_next_def bind_eq_Some_conv)
  show thesis
  proof (cases "wks s k = Loop")
    case True
    with assms ob obtain q r s1 where q: "mq s = Some q" "loop_next k m b q s = Some (r, s1)"
      "(case r of None \<Rightarrow> Some s1 | Some go \<Rightarrow> worker_next k go ob s1) = Some t"
      by (auto simp: thread_next_def bind_eq_Some_conv)
    show thesis
    proof (cases r)
      case None
      with q ob True show thesis by (intro inside) auto
    next
      case (Some go)
      with q ob True show thesis by (intro returned) auto
    qed
  next
    case False
    with assms ob show thesis by (intro outside) (auto simp: thread_next_def)
  qed
qed

text \<open>What matters for the scan: a thread moves on in its worker, or within its \<open>threadLoop\<close>.\<close>

lemma thread_next_scan:
  assumes "thread_next k m b s = Some t"
  obtains (quiet) "objs t = objs s" "wks t = wks s" "mpc t = mpc s" "seen t = seen s"
      "(mq t \<noteq> None) = (mq s \<noteq> None)"
    | (moved) ob r pc ob' cbs bc where "objs s k = Some ob" "worker_step r ob (wks s k) = Some (pc, ob', cbs, bc)"
      "objs t = (objs s)(k := Some ob')" "wks t = (wks s)(k := pc)" "mpc t = mpc s" "seen t = seen s"
      "(mq t \<noteq> None) = (mq s \<noteq> None)"
  using assms
proof (cases rule: thread_next_cases)
  case (inside q)
  with loop_next_frame [OF inside(4)] show thesis by (intro quiet) simp_all
next
  case (returned ob q go s1)
  note f = loop_next_frame [OF returned(4)]
  from returned(5) obtain pc ob' cbs bc where "worker_step go ob (wks s1 k) = Some (pc, ob', cbs, bc)"
    "t = s1\<lparr>objs := (objs s1)(k := Some ob'), wks := (wks s1)(k := pc)\<rparr>" by (rule worker_nextE)
  with returned(1,3) f show thesis by (intro moved [of ob go pc ob' cbs bc]) simp_all
next
  case (outside ob)
  from outside(3) obtain pc ob' cbs bc where "worker_step True ob (wks s k) = Some (pc, ob', cbs, bc)"
    "t = s\<lparr>objs := (objs s)(k := Some ob'), wks := (wks s)(k := pc)\<rparr>" by (rule worker_nextE)
  with outside(1) show thesis by (intro moved [of ob True pc ob' cbs bc]) simp_all
qed

lemma worker_step_past:
  assumes "worker_step r ob pc = Some (pc', ob', cbs, bc)"
  shows "past_loop pc \<Longrightarrow> past_loop pc'" and "pc \<noteq> Absent" and "pc' \<noteq> Absent"
  using assms by (cases pc; auto simp: past_loop_def split: if_splits)+

lemma scan_inv_thread:
  assumes inv: "scan_inv (mpc s) s" and step: "thread_next k m b s = Some t"
  shows "scan_inv (mpc t) t"
proof -
  from step have frame: "mpc t = mpc s" "seen t = seen s" "(mq t \<noteq> None) = (mq s \<noteq> None)"
    by (cases rule: thread_next_scan; simp)+
  from step have objs: "objs t j \<noteq> None \<longleftrightarrow> objs s j \<noteq> None" for j
    by (cases rule: thread_next_scan) auto
  from step have wks: "wks t j = wks s j" if "objs s j = None" for j
    using that by (cases rule: thread_next_scan) auto
  have "unborn n t" if u: "unborn n s" for n
    unfolding unborn_def using u objs wks frame(3) by (metis linorder_not_le unborn_def)
  moreover have "all_alive t" if "all_alive s" using that objs frame(3) unfolding all_alive_def by metis
  moreover have f: "all_found t base n c = all_found s base n c" for base n c
    using frame(2) by (rule all_found_cong)
  moreover have "kind_found t = kind_found s" by (simp add: f kind_found_def)
  ultimately show ?thesis using inv frame(1) by (cases "mpc s") simp_all
qed

lemma running_inv_cong:
  "objs t = objs s \<Longrightarrow> wks t = wks s \<Longrightarrow> seen t = seen s \<Longrightarrow> running_inv s \<Longrightarrow> running_inv t"
  by (simp add: running_inv_def found_def)

lemma running_inv_thread:
  assumes inv: "running_inv s" and step: "thread_next k m b s = Some t"
  shows "running_inv t"
  using step
proof (cases rule: thread_next_scan)
  case quiet
  then show ?thesis using running_inv_cong inv by simp
next
  case c: (moved ob r pc ob' cbs bc)
  have "mRunning ob \<longleftrightarrow> inside (wks s k)" using inv c(1) by (auto simp: running_inv_def)
  note run = worker_step_running(1) [OF c(2) this]
  have "found t j" if "found s j" for j
    using that worker_step_past(1) [OF c(2)] c(4,6) by (auto simp: found_def)
  with run inv c show ?thesis by (auto simp: running_inv_def)
qed

text \<open>A question.\<close>

lemma askE:
  assumes "ask k n s = Some (n', s')"
  obtains (running) "n' = n" "s' = s"
    | (stopped) ob where "objs s k = Some ob" "\<not> mRunning ob" "n' = n + 1" "s' = s\<lparr>seen := (seen s)(k := Some (wks s k))\<rparr>"
proof -
  from assms obtain ob where ob: "objs s k = Some ob" by (auto simp: ask_def)
  with assms show thesis by (cases "mRunning ob") (simp_all add: ask_def isRunning_def running stopped)
qed

lemma ask_found:
  assumes "ask (base + i) c s = Some (c', s')" and "all_found s base i c"
  shows "all_found s' base (i + 1) c'"
  using assms(1)
proof (cases rule: askE)
  case running
  then show ?thesis using assms(2) by (simp add: all_found_def)
next
  case (stopped ob)
  then show ?thesis using assms(2) by (auto simp: all_found_def less_Suc_eq)
qed

lemma ask_keeps:
  assumes "ask k c s = Some (c', s')"
  shows "all_found s base n m \<Longrightarrow> all_found s' base n m" and "all_alive s \<Longrightarrow> all_alive s'"
  using assms by (cases rule: askE; auto simp: all_found_def all_alive_def)+

lemma ask_running_inv:
  assumes "ask k c s = Some (c', s')" and inv: "running_inv s"
  shows "running_inv s'"
  using assms(1)
proof (cases rule: askE)
  case (stopped ob)
  have "\<not> inside (wks s k)" using inv stopped(1,2) by (auto simp: running_inv_def)
  then have "wks s k = Absent \<or> wks s k = Begin \<or> past_loop (wks s k)"
    by (cases "wks s k") (auto simp: inside_def settled_def past_loop_def)
  then show ?thesis using inv stopped(4) by (auto simp: running_inv_def found_def)
qed (use inv in simp)

lemma ask_total: "objs s k \<noteq> None \<Longrightarrow> \<exists>n' s'. ask k n s = Some (n', s')"
proof -
  assume "objs s k \<noteq> None"
  then obtain ob where "objs s k = Some ob" by auto
  then show ?thesis by (cases "isRunning ob") (simp_all add: ask_def)
qed

lemma start_thread_cases:
  obtains ob where "objs (start_thread r k nm s) = (objs s)(k := Some ob)" "\<not> mRunning ob"
    "wks (start_thread r k nm s) = (if r = 0 then (wks s)(k := Begin) else wks s)"
    "mq (start_thread r k nm s) = mq s" "seen (start_thread r k nm s) = seen s"
proof -
  obtain c ob where r: "run r k nm Thread_new = (c, ob)" by fastforce
  have "\<not> mRunning Thread_new" by (simp add: Thread_new_def)
  with run_outcome [OF r] show thesis by (intro that [of ob]) (simp_all add: start_thread_def r)
qed

lemma unborn_start:
  assumes "unborn n s"
  shows "unborn (Suc n) ((start_thread r n nm s)\<lparr>mconsumers := C, mpc := p\<rparr>)"
    "unborn (Suc n) ((start_thread r n nm s)\<lparr>mproducers := P, mpc := p\<rparr>)"
proof -
  obtain ob where "objs (start_thread r n nm s) = (objs s)(n := Some ob)"
    "wks (start_thread r n nm s) = (if r = 0 then (wks s)(n := Begin) else wks s)"
    "mq (start_thread r n nm s) = mq s" by (rule start_thread_cases)
  with assms show "unborn (Suc n) ((start_thread r n nm s)\<lparr>mconsumers := C, mpc := p\<rparr>)"
    "unborn (Suc n) ((start_thread r n nm s)\<lparr>mproducers := P, mpc := p\<rparr>)"
    by (auto simp: unborn_def less_Suc_eq)
qed

lemma running_start:
  assumes "running_inv s" and "unborn n s"
  shows "running_inv ((start_thread r n nm s)\<lparr>mconsumers := C, mpc := p\<rparr>)" (is "running_inv ?c")
    "running_inv ((start_thread r n nm s)\<lparr>mproducers := P, mpc := p\<rparr>)" (is "running_inv ?p")
proof -
  obtain ob where s: "objs (start_thread r n nm s) = (objs s)(n := Some ob)" "\<not> mRunning ob"
    "wks (start_thread r n nm s) = (if r = 0 then (wks s)(n := Begin) else wks s)"
    "seen (start_thread r n nm s) = seen s" by (rule start_thread_cases)
  have "wks s n = Absent" using assms(2) by (simp add: unborn_def)
  then have "\<not> past_loop (wks s n)" "\<not> inside Absent" "\<not> inside Begin"
    by (simp_all add: past_loop_def inside_def settled_def)
  moreover have "found (start_thread r n nm s) k" if "found s k" for k
    using that s(3,4) \<open>\<not> past_loop (wks s n)\<close> by (auto simp: found_def)
  ultimately have "running_inv (start_thread r n nm s)"
    using assms(1) s \<open>wks s n = Absent\<close> by (auto simp: running_inv_def)
  then show "running_inv ?c" "running_inv ?p" by (simp_all add: running_inv_def found_def)
qed

lemma test_found:
  assumes "\<not> main_waits pro com" and "scan_inv (MTest pro com) s"
  shows "kind_found s"
  using assms by (auto simp: main_waits_def kind_found_def all_found_def MAX_TYPE_def)

definition main_inv :: "msys \<Rightarrow> bool" where
  "main_inv s \<longleftrightarrow> running_inv s \<and> scan_inv (mpc s) s"

lemma all_found_None [simp]: "all_found s base 0 0" by (simp add: all_found_def)

lemmas seen_cong = all_found_def kind_found_def all_alive_def unborn_def

text \<open>Every step of \<open>main\<close> but its end is possible and keeps the invariant.\<close>

text \<open>A pass of the waiting loop.\<close>

lemma scan_producers_inv:
  assumes inv: "running_inv s" "scan_inv (MScanP i pro com) s"
  shows "\<exists>t. main_next result (MScanP i pro com) s = Some t \<and> main_inv t"
proof (cases "i < MAX_TYPE")
  case True
  then have "objs s (MAX_TYPE + i) \<noteq> None" using inv(2) by (simp add: all_alive_def)
  from ask_total [OF this] obtain n' s' where a: "ask (MAX_TYPE + i) pro s = Some (n', s')" by blast
  note k = ask_found [OF a] ask_keeps [OF a] ask_running_inv [OF a inv(1)]
  have "running_inv (s'\<lparr>mpc := MScanC i n' com\<rparr>)" using k(4) by (rule running_inv_cong [rotated -1]) simp_all
  with True a inv(2) k(1,3) k(2) [of 0 i com] show ?thesis by (simp add: main_inv_def seen_cong)
next
  case False
  then have "i = MAX_TYPE" using inv(2) by simp
  then show ?thesis
    using inv running_inv_cong [of "s\<lparr>mpc := MRefuse\<rparr>" s] running_inv_cong [of "s\<lparr>mpc := MTest pro com\<rparr>" s]
    by (auto simp: main_inv_def seen_cong)
qed

lemma scan_consumers_inv:
  assumes inv: "running_inv s" "scan_inv (MScanC i pro com) s"
  shows "\<exists>t. main_next result (MScanC i pro com) s = Some t \<and> main_inv t"
proof -
  have "objs s i \<noteq> None" using inv(2) by (simp add: all_alive_def)
  from ask_total [OF this] obtain n' s' where a: "ask i com s = Some (n', s')" by blast
  have a0: "ask (0 + i) com s = Some (n', s')" using a by simp
  note k = ask_found [OF a0] ask_keeps [OF a] ask_running_inv [OF a inv(1)]
  have "running_inv (s'\<lparr>mpc := MScanP (i + 1) pro n'\<rparr>)" using k(4) by (rule running_inv_cong [rotated -1]) simp_all
  with a inv(2) k(1,3) k(2) [of MAX_TYPE "i + 1" pro] show ?thesis by (simp add: main_inv_def seen_cong)
qed

lemma test_inv:
  assumes inv: "running_inv s" "scan_inv (MTest pro com) s"
  shows "\<exists>t. main_next result (MTest pro com) s = Some t \<and> main_inv t"
proof (cases "main_waits pro com")
  case True
  have "running_inv (s\<lparr>mpc := MScanP 0 0 0, seen := Map.empty\<rparr>)"
    using inv(1) by (simp add: running_inv_def)
  with True inv(2) show ?thesis by (simp add: main_inv_def all_alive_def)
next
  case False
  with test_found inv have "kind_found s" by blast
  with False inv show ?thesis
    using running_inv_cong [of "s\<lparr>mpc := MRefuse\<rparr>" s] by (simp add: main_inv_def seen_cong)
qed

lemma main_next_inv:
  assumes inv: "running_inv s" "scan_inv p s" and p: "p \<noteq> MEnd"
  shows "\<exists>t. main_next result p s = Some t \<and> main_inv t"
proof (cases p)
  case (MNewC i)
  show ?thesis
  proof (cases "i < MAX_TYPE")
    case True
    with MNewC inv unborn_start [of i s] running_start [of s i] show ?thesis by (simp add: main_inv_def)
  next
    case False
    with MNewC inv show ?thesis
      using running_inv_cong [of "s\<lparr>mpc := MNewP 0\<rparr>" s] by (simp add: main_inv_def seen_cong)
  qed
next
  case (MNewP i)
  show ?thesis
  proof (cases "i < MAX_TYPE")
    case True
    with MNewP inv unborn_start [of "MAX_TYPE + i" s] running_start [of s "MAX_TYPE + i"] show ?thesis
      by (simp add: main_inv_def)
  next
    case False
    with MNewP inv show ?thesis
      using running_inv_cong [of "s\<lparr>mpc := MTest 0 0\<rparr>" s] by (auto simp: main_inv_def seen_cong)
  qed
next
  case MRefuse
  then obtain q where "mq s = Some q" using inv(2) by (auto simp: all_alive_def)
  with MRefuse inv show ?thesis by (simp add: main_inv_def seen_cong running_inv_def found_def)
next
  case MDelQ
  with inv show ?thesis by (simp add: main_inv_def seen_cong running_inv_def found_def)
next
  case (MDel i)
  with inv show ?thesis by (simp add: main_inv_def seen_cong running_inv_def found_def)
qed (use p inv test_inv scan_producers_inv scan_consumers_inv in simp_all)

interpretation round: invariant_system minit mmove main_inv
proof
  show "main_inv s" if "minit s" for s
    using that by (simp add: minit_def mstart_def main_inv_def running_inv_def seen_cong)
  show "main_inv t" if inv: "main_inv s" and "mmove s t" for s t
    using that(2)
  proof cases
    case (mmove a)
    show ?thesis
    proof (cases a)
      case (Main result)
      with mmove have m: "main_next result (mpc s) s = Some t" by simp
      then have "mpc s \<noteq> MEnd" by auto
      with main_next_inv [of s "mpc s" result] inv m show ?thesis by (simp add: main_inv_def)
    next
      case (Thread_step k m b)
      with mmove scan_inv_thread running_inv_thread inv show ?thesis by (auto simp: main_inv_def)
    qed
  qed
qed

section \<open>Properties\<close>

text \<open>
  C25 (safety): \<open>main\<close> never gets stuck by itself, and what its waiting loop establishes before it
  deletes anything: all ten producers or all ten consumers were found not running in one pass. Each of
  them either had not begun to run, or has left its \<open>threadLoop\<close> for good and will not touch the
  queue again.
\<close>

theorem main_waits_for_one_kind:
  assumes "reach minit mmove s"
  shows "(mpc s \<noteq> MEnd \<longrightarrow> (\<exists>t. main_next result (mpc s) s = Some t)) \<and>
    (mpc s \<in> {MRefuse, MDelQ, MEnd} \<union> range MDel \<longrightarrow>
      (\<exists>base\<in>{0, MAX_TYPE}. \<forall>k < MAX_TYPE. \<exists>pc. seen s (base + k) = Some pc \<and>
        (pc = Absent \<or> pc = Begin \<or> wks s (base + k) \<in> {Leave, Exit, Done})))"
proof -
  have inv: "running_inv s" "scan_inv (mpc s) s" using round.reach_inv [OF assms] by (simp_all add: main_inv_def)
  have "\<exists>base\<in>{0, MAX_TYPE}. \<forall>k < MAX_TYPE. found s (base + k)" if "mpc s \<in> {MRefuse, MDelQ, MEnd} \<union> range MDel"
  proof -
    have "kind_found s" using that inv(2) by auto
    then have "\<exists>base\<in>{0, MAX_TYPE}. \<forall>k < MAX_TYPE. seen s (base + k) \<noteq> None"
      by (simp add: kind_found_def all_found_def disj_commute)
    then obtain base where b: "base \<in> {0, MAX_TYPE}" "\<forall>k < MAX_TYPE. seen s (base + k) \<noteq> None" by blast
    have "found s (base + k)" if "k < MAX_TYPE" for k
      using b(2) that inv(1) unfolding running_inv_def by blast
    with b(1) show ?thesis by blast
  qed
  then show ?thesis using main_next_inv [OF inv] unfolding found_def past_loop_def by blast
qed

definition early_run :: "maction list" where
  "early_run = replicate 57 (Main 0)"

definition early_end :: msys where
  "early_end = the (perform mact early_run mstart)"

lemmas main_eval = mstart_def start_thread_def run_def createThread_def Thread_new_def ask_def isRunning_def
  main_waits_def MAX_TYPE_def error_value_defs Let_def setAllowedNewData_def notify_refused_def

lemma early_value:
  "\<exists>s. perform mact early_run mstart = Some s \<and> mpc s = MEnd \<and> mq s = None \<and>
     {..<20} \<subseteq> Collect (use_after_delete s)"
  by (simp add: early_run_def main_eval use_after_delete_def lessThan_Suc numeral_eq_Suc)

lemma early_facts: "perform mact early_run mstart \<noteq> None" "mpc early_end = MEnd" "mq early_end = None"
  "{..<20} \<subseteq> Collect (use_after_delete early_end)"
  using early_value unfolding early_end_def by auto

lemma reach_main:
  assumes "as = replicate n (Main 0)" and "perform mact as mstart \<noteq> None"
  shows "reach minit mmove (the (perform mact as mstart))"
proof -
  note assms(2)
  moreover have "reach minit mmove mstart" by (rule reach_init) (simp add: minit_def)
  moreover have "mmove u v" if "a \<in> set as" "mact a u = Some v" for a u v
    using mmove [of a u v] assms that by (cases a) auto
  ultimately show ?thesis using perform_reach [of minit mmove mstart mact as] by fastforce
qed

theorem main_waits_for_one_kind_witness:
  "mpc early_end = MEnd \<and>
   ((\<exists>pc. seen early_end 0 = Some pc) \<or> (\<exists>pc. seen early_end MAX_TYPE = Some pc))"
proof -
  have "reach minit mmove early_end" using reach_main [OF early_run_def early_facts(1)] unfolding early_end_def by blast
  from main_waits_for_one_kind [OF this] early_facts(2) have
    "\<exists>base\<in>{0, MAX_TYPE}. \<forall>k < MAX_TYPE. \<exists>pc. seen early_end (base + k) = Some pc" by blast
  moreover have "0 < MAX_TYPE" by (simp add: MAX_TYPE_def)
  ultimately have "\<exists>base\<in>{0, MAX_TYPE}. \<exists>pc. seen early_end (base + 0) = Some pc" by blast
  with early_facts(2) show ?thesis by auto
qed

text \<open>
  That a thread is not running does not mean that it is finished. \<open>main\<close> can go through
  the whole round before any of its threads has executed a step: it finds all twenty not running,
  deletes the queue and all objects, and every thread is then about to use its deleted object.
\<close>

theorem main_deletes_early:
  "\<exists>s. reach minit mmove s \<and> mpc s = MEnd \<and> mq s = None \<and>
     {..<MAX_TYPE + MAX_TYPE} \<subseteq> Collect (use_after_delete s)"
proof (intro exI conjI)
  show "reach minit mmove early_end" using reach_main [OF early_run_def early_facts(1)] unfolding early_end_def by blast
  show "mpc early_end = MEnd" by (rule early_facts(2))
  show "mq early_end = None" by (rule early_facts(3))
  show "{..<MAX_TYPE + MAX_TYPE} \<subseteq> Collect (use_after_delete early_end)"
    using early_facts(4) by (simp add: MAX_TYPE_def)
qed

end
