(* ===== verification/QueueSimple_Runs.thy ===== *)
theory QueueSimple_Runs
  imports QueueSimple_Many
begin

text \<open>
  Runs of the threads of \<open>QueueSimple.cpp\<close> from their start: one in which every record is produced and
  consumed and all threads end, one in which a producer prints a record that was freed, and one in
  which a consumer gives up.
\<close>

section \<open>One record through the queue\<close>

abbreviation sys :: "Queue \<Rightarrow> memory \<Rightarrow> (nat \<Rightarrow> producer) \<Rightarrow> (nat \<Rightarrow> consumer) \<Rightarrow> csys" where
  "sys q R P C \<equiv> \<lparr>cq = q, records = R, producers = P, consumers = C\<rparr>"

text \<open>Producer \<open>j\<close> pushes a record.\<close>

lemma run_push:
  assumes r: "reach init (cstep n) (sys (no_element w) R P C)"
    and P: "P j = PPush pr" and m: "m \<noteq> NULL" "R m = None"
  shows "reach init (cstep n) (sys (one_element m (w @ [SignalGet])) (R(m \<mapsto> \<lparr>ttype = mType pr, tvalue = cnt pr\<rparr>))
    (P(j := pushed_on m True pr)) C)"
proof (rule reach_step [OF r])
  have fr: "fresh_block 1 (cq (sys (no_element w) R P C))"
    by (simp add: fresh_block_def simple_defs)
  have "produce m 1 (no_element w) R (P j) = Some (Returned (pushed_on m True pr)
      (one_element m (w @ [SignalGet]), R(m \<mapsto> \<lparr>ttype = mType pr, tvalue = cnt pr\<rparr>)))"
    using m(1) by (simp add: P push_record_def simple_push shows_record_def counted_cases pushed_on_def Let_def
        del: One_nat_def)
  then show "cstep n (sys (no_element w) R P C) (sys (one_element m (w @ [SignalGet]))
      (R(m \<mapsto> \<lparr>ttype = mType pr, tvalue = cnt pr\<rparr>)) (P(j := pushed_on m True pr)) C)"
    using producing [of "sys (no_element w) R P C" m 1 j, OF _ fr] m(2) by simp
qed

text \<open>Producer \<open>j\<close> prints the record it pushed, if it has to.\<close>

lemma run_show:
  assumes r: "reach init (cstep n) (sys (one_element m w) R (P(j := pushed_on m True pr)) C)"
    and m: "R m \<noteq> None" "R NULL = None"
  shows "reach init (cstep n) (sys (one_element m w) R (P(j := counted (pr\<lparr>allCnt := allCnt pr + 1\<rparr>))) C)"
proof (cases "(allCnt pr + 1) mod 100000 = 0")
  case True
  let ?s = "sys (one_element m w) R (P(j := pushed_on m True pr)) C"
  have fr: "records ?s NULL = None" "fresh_block NULL (cq ?s)" using m(2) by (simp_all add: fresh_block_def)
  from m(1) obtain t where t: "R m = Some t" by auto
  have "producers ?s j = PShow m (pr\<lparr>allCnt := allCnt pr + 1\<rparr>)" using True by (simp add: pushed_on_def)
  then have "produce NULL NULL (cq ?s) (records ?s) (producers ?s j) =
      Some (Returned (counted (pr\<lparr>allCnt := allCnt pr + 1\<rparr>)) (cq ?s, R))"
    using t by (simp add: show_record_def)
  then have "cstep n ?s (?s\<lparr>cq := cq ?s, records := R,
      producers := (producers ?s)(j := counted (pr\<lparr>allCnt := allCnt pr + 1\<rparr>))\<rparr>)"
    by (rule producing [of ?s NULL NULL j, OF fr])
  with r have "reach init (cstep n) (?s\<lparr>cq := cq ?s, records := R,
      producers := (producers ?s)(j := counted (pr\<lparr>allCnt := allCnt pr + 1\<rparr>))\<rparr>)" by (rule reach_step)
  then show ?thesis by simp
next
  case False
  then have "pushed_on m True pr = counted (pr\<lparr>allCnt := allCnt pr + 1\<rparr>)"
    by (simp add: pushed_on_def counted_cases)
  with r show ?thesis by simp
qed

text \<open>A step of consumer \<open>i\<close>; it takes the only record.\<close>

lemma run_consume:
  assumes "reach init (cstep n) (sys q R P C)" and "i < n" and "consume q R (C i) = Some (c, q', R')"
  shows "reach init (cstep n) (sys q' R' P (C(i := c)))"
proof (rule reach_step [OF assms(1)])
  show "cstep n (sys q R P C) (sys q' R' P (C(i := c)))"
    using consuming [of i n "sys q R P C" c q' R'] assms(2,3) by simp
qed

lemma run_take:
  assumes r: "reach init (cstep n) (sys (one_element m w) R P C)"
    and i: "i < n" "C i = CPeek" and m: "R m \<noteq> None"
  shows "reach init (cstep n) (sys (no_element (w @ [SignalPut])) R P (C(i := CUse m)))"
proof -
  from m obtain t where t: "R m = Some t" by auto
  have "reach init (cstep n) (sys (one_element m w) R P (C(i := CRead m)))"
    by (rule run_consume [OF r i(1)]) (simp add: i(2) simple_peek)
  from run_consume [OF this i(1), of CPop] have "reach init (cstep n) (sys (one_element m w) R P (C(i := CPop)))"
    by (simp add: t)
  from run_consume [OF this i(1), of "CUse m"] show ?thesis by (simp add: simple_pop)
qed

text \<open>Consumer \<open>i\<close> frees the record it took, or ends at it.\<close>

lemma run_use:
  assumes r: "reach init (cstep n) (sys q R P C)"
    and i: "i < n" "C i = CUse m" and m: "R m = Some t" "m \<noteq> NULL"
  shows "reach init (cstep n) (if tvalue t \<ge> MAX_CNT then sys q R P (C(i := CStop (Some m)))
    else sys q (R(m := None)) P (C(i := CPeek)))"
proof (cases "tvalue t \<ge> MAX_CNT")
  case True
  with i m run_consume [OF r i(1), of "CStop (Some m)"] show ?thesis by simp
next
  case False
  with i m run_consume [OF r i(1), of CPeek] show ?thesis by (simp add: free_test_def)
qed

text \<open>Producer \<open>j\<close> makes a record, consumer \<open>i\<close> takes it.\<close>

lemma run_round:
  assumes r: "reach init (cstep n) (sys (no_element w) R P C)"
    and P: "P j = PPush pr" and i: "i < n" "C i = CPeek" and m: "m \<noteq> NULL" "R m = None" "R NULL = None"
  defines "P1 \<equiv> P(j := counted (pr\<lparr>allCnt := allCnt pr + 1\<rparr>))"
  shows "\<exists>w1. reach init (cstep n) (if cnt pr \<ge> MAX_CNT
    then sys (no_element w1) (R(m \<mapsto> \<lparr>ttype = mType pr, tvalue = cnt pr\<rparr>)) P1 (C(i := CStop (Some m)))
    else sys (no_element w1) R P1 C)"
proof -
  let ?R = "R(m \<mapsto> \<lparr>ttype = mType pr, tvalue = cnt pr\<rparr>)"
  have "reach init (cstep n) (sys (one_element m (w @ [SignalGet])) ?R (P(j := pushed_on m True pr)) C)"
    by (rule run_push [OF r P m(1,2)])
  from run_show [OF this] have "reach init (cstep n) (sys (one_element m (w @ [SignalGet])) ?R P1 C)"
    using m unfolding P1_def by simp
  from run_take [OF this i] have
    "reach init (cstep n) (sys (no_element ((w @ [SignalGet]) @ [SignalPut])) ?R P1 (C(i := CUse m)))" by simp
  from run_use [OF this i(1), of m "\<lparr>ttype = mType pr, tvalue = cnt pr\<rparr>"]
  have "reach init (cstep n) (if cnt pr \<ge> MAX_CNT
    then sys (no_element ((w @ [SignalGet]) @ [SignalPut])) ?R P1 (C(i := CStop (Some m)))
    else sys (no_element ((w @ [SignalGet]) @ [SignalPut])) R P1 C)"
    using m i(2) by (simp add: fun_upd_idem split: if_splits)
  then show ?thesis by blast
qed

section \<open>All records of a producer\<close>

lemma run_records:
  assumes r: "reach init (cstep n) (sys (no_element w) R P C)"
    and P: "P j = PPush (ProduceThread_new ty)" and i: "i < n" "C i = CPeek"
    and m: "m \<noteq> NULL" "R m = None" "R NULL = None"
  shows "k < 1000000 \<Longrightarrow> \<exists>w1. reach init (cstep n)
    (sys (no_element w1) R (P(j := PPush \<lparr>mType = ty, cnt = int k + 1, allCnt = int k\<rparr>)) C)"
proof (induction k)
  case 0
  have "P(j := PPush \<lparr>mType = ty, cnt = int 0 + 1, allCnt = int 0\<rparr>) = P"
    using P by (auto simp: ProduceThread_new_def)
  with r show ?case by auto
next
  case (Suc k)
  then have "k < 1000000" by simp
  from Suc.IH [OF this] obtain w1 where
    w1: "reach init (cstep n) (sys (no_element w1) R (P(j := PPush \<lparr>mType = ty, cnt = int k + 1, allCnt = int k\<rparr>)) C)" ..
  from run_round [OF w1, of j "\<lparr>mType = ty, cnt = int k + 1, allCnt = int k\<rparr>" i m] i m Suc.prems
  obtain w2 where w2: "reach init (cstep n) (sys (no_element w2) R
      (P(j := counted (\<lparr>mType = ty, cnt = int k + 1, allCnt = int k + 1\<rparr>))) C)"
    by (auto simp: MAX_CNT_def)
  have "counted (\<lparr>mType = ty, cnt = int k + 1, allCnt = int k + 1\<rparr>) =
      PPush \<lparr>mType = ty, cnt = int (Suc k) + 1, allCnt = int (Suc k)\<rparr>"
    using Suc.prems by (simp add: counted_cases MAX_CNT_def)
  from w2 [unfolded this] show ?case ..
qed

lemma run_producer:
  assumes r: "reach init (cstep n) (sys (no_element w) R P C)"
    and P: "P j = PPush (ProduceThread_new ty)" and i: "i < n" "C i = CPeek"
    and m: "m \<noteq> NULL" "R m = None" "R NULL = None"
  shows "\<exists>w1. reach init (cstep n) (sys (no_element w1) (R(m \<mapsto> \<lparr>ttype = ty, tvalue = MAX_CNT\<rparr>))
    (P(j := PStop \<lparr>mType = ty, cnt = MAX_CNT + 1, allCnt = MAX_CNT\<rparr>)) (C(i := CStop (Some m))))"
proof -
  from run_records [OF assms, of 999999] obtain w1 where
    w1: "reach init (cstep n) (sys (no_element w1) R (P(j := PPush \<lparr>mType = ty, cnt = MAX_CNT, allCnt = MAX_CNT - 1\<rparr>)) C)"
    by (auto simp: MAX_CNT_def)
  from run_round [OF w1, of j "\<lparr>mType = ty, cnt = MAX_CNT, allCnt = MAX_CNT - 1\<rparr>" i m] i m
  show ?thesis by (auto simp: counted_cases)
qed

section \<open>A run in which all threads end\<close>

text \<open>The first \<open>j\<close> producers have made all their records and the first \<open>j\<close> consumers have ended.\<close>

definition leftover :: "nat \<Rightarrow> memory" where
  "leftover j a = (if 1 \<le> a \<and> a \<le> j then Some \<lparr>ttype = int (a - 1), tvalue = MAX_CNT\<rparr> else None)"

definition ended_producers :: "nat \<Rightarrow> nat \<Rightarrow> producer" where
  "ended_producers j k = (if k < j then PStop \<lparr>mType = int k, cnt = MAX_CNT + 1, allCnt = MAX_CNT\<rparr>
     else producers main_start k)"

definition ended_consumers :: "nat \<Rightarrow> nat \<Rightarrow> consumer" where
  "ended_consumers j i = (if i < j then CStop (Some (Suc i)) else CPeek)"

lemma main_start_sys: "main_start = sys (no_element []) Map.empty (producers main_start) (\<lambda>_. CPeek)"
  by (simp add: main_start_def simple_start_def Queue_new_no_element)

lemma run_all:
  "j \<le> MAX_TYPE \<Longrightarrow> \<exists>w. reach main_init (cstep MAX_TYPE)
    (sys (no_element w) (leftover j) (ended_producers j) (ended_consumers j))"
proof (induction j)
  case 0
  have "leftover 0 = Map.empty" "ended_producers 0 = producers main_start" "ended_consumers 0 = (\<lambda>_. CPeek)"
    by (simp_all add: leftover_def ended_producers_def ended_consumers_def fun_eq_iff)
  then show ?case using main_reached(1) main_start_sys by metis
next
  case (Suc j)
  then have j: "j < MAX_TYPE" by simp
  with Suc obtain w where
    w: "reach main_init (cstep MAX_TYPE) (sys (no_element w) (leftover j) (ended_producers j) (ended_consumers j))" by auto
  have P: "ended_producers j j = PPush (ProduceThread_new (int j))"
    using j by (simp add: ended_producers_def main_start_def)
  have L: "leftover (Suc j) = (leftover j)(Suc j \<mapsto> \<lparr>ttype = int j, tvalue = MAX_CNT\<rparr>)"
    by (auto simp: leftover_def fun_eq_iff)
  have E: "ended_producers (Suc j) =
      (ended_producers j)(j := PStop \<lparr>mType = int j, cnt = MAX_CNT + 1, allCnt = MAX_CNT\<rparr>)"
    by (auto simp: ended_producers_def fun_eq_iff)
  have C: "ended_consumers (Suc j) = (ended_consumers j)(j := CStop (Some (Suc j)))"
    by (auto simp: ended_consumers_def fun_eq_iff)
  have free: "ended_consumers j j = CPeek" "leftover j (Suc j) = None" "leftover j NULL = None"
    by (simp_all add: ended_consumers_def leftover_def)
  show ?case unfolding L E C
    by (rule run_producer [OF w P j free(1) _ free(2,3)]) simp
qed

lemma contents_no_element: "contents (no_element w) = []"
  by (simp add: no_element_def Queue_new_def contents_def addrs_def) (simp add: queue_init_def)

text \<open>
  The threads can do what they are written for: there is a run in which each producer
  pushes its million records and ends, each consumer ends at a last record, and the queue is empty.
\<close>

lemma clean_run:
  "\<exists>s. reach main_init (cstep MAX_TYPE) s \<and> contents (cq s) = [] \<and>
     map (producers s) [0..<MAX_TYPE] =
       map (\<lambda>k. PStop \<lparr>mType = int k, cnt = MAX_CNT + 1, allCnt = MAX_CNT\<rparr>) [0..<MAX_TYPE] \<and>
     map (consumers s) [0..<MAX_TYPE] = map (\<lambda>i. CStop (Some (Suc i))) [0..<MAX_TYPE]"
proof -
  obtain w where "reach main_init (cstep MAX_TYPE)
      (sys (no_element w) (leftover MAX_TYPE) (ended_producers MAX_TYPE) (ended_consumers MAX_TYPE))"
    using run_all [of MAX_TYPE] by blast
  then show ?thesis
    by (intro exI [of _ "sys (no_element w) (leftover MAX_TYPE) (ended_producers MAX_TYPE) (ended_consumers MAX_TYPE)"])
      (simp add: contents_no_element ended_producers_def ended_consumers_def)
qed

section \<open>A freed record is printed\<close>

text \<open>
  C21 (safety): a producer can print a record that no longer exists. Whatever the number of
  consumers, one is enough, \<open>main\<close> can reach a state in which producer 0 has pushed its 100000th
  record, a consumer has taken and freed it, and the producer's next step reads it.
\<close>

theorem printed_record_race:
  "\<exists>s pr. reach main_init (cstep (Suc n)) s \<and> producers s 0 = PShow 7 pr \<and> allCnt pr = 100000 \<and>
     produce m b (cq s) (records s) (producers s 0) = None"
proof -
  let ?P = "producers main_start" and ?C = "\<lambda>_::nat. CPeek" and ?pr = "\<lparr>mType = 0, cnt = 100000, allCnt = 99999\<rparr>"
  have "reach main_init (cstep (Suc n)) (sys (no_element []) Map.empty ?P ?C)"
    using main_reached(1) main_start_sys by metis
  moreover have "?P 0 = PPush (ProduceThread_new 0)" by (simp add: main_start_def MAX_TYPE_def)
  ultimately obtain w where w: "reach main_init (cstep (Suc n)) (sys (no_element w) Map.empty
      (?P(0 := PPush ?pr)) ?C)"
    using run_records [of main_init "Suc n" "[]" Map.empty ?P ?C 0 0 0 7 99999] by auto
  let ?P' = "?P(0 := PShow 7 (?pr\<lparr>allCnt := 100000\<rparr>))" and ?R = "[7 \<mapsto> \<lparr>ttype = 0, tvalue = 100000\<rparr>]"
  have "reach main_init (cstep (Suc n)) (sys (one_element 7 (w @ [SignalGet])) ?R ?P' ?C)"
    using run_push [OF w, of 0 ?pr 7] by (simp add: pushed_on_def)
  from run_take [OF this, of 0] obtain q where
    "reach main_init (cstep (Suc n)) (sys q ?R ?P' (?C(0 := CUse 7)))" by auto
  from run_use [OF this, of 0 7 "\<lparr>ttype = 0, tvalue = 100000\<rparr>"]
  have "reach main_init (cstep (Suc n)) (sys q Map.empty ?P' (?C(0 := CPeek)))"
    by (simp add: MAX_CNT_def)
  then show ?thesis
    by (intro exI [of _ "sys q Map.empty ?P' (?C(0 := CPeek))"] exI [of _ "?pr\<lparr>allCnt := 100000\<rparr>"])
      (simp add: show_record_def)
qed

section \<open>A consumer gives up\<close>

text \<open>
  A consumer whose peek succeeded can find the queue empty at its pop, because another consumer took
  the record in between; its thread then ends for good although records are still to come.
\<close>

lemma consumer_gives_up:
  "\<exists>s. reach main_init (cstep (Suc (Suc n))) s \<and> consumers s 0 = CStop None \<and>
     producers s 0 = PPush \<lparr>mType = 0, cnt = 2, allCnt = 1\<rparr>"
proof -
  let ?P = "producers main_start" and ?C = "\<lambda>_::nat. CPeek"
  let ?P' = "?P(0 := PPush \<lparr>mType = 0, cnt = 2, allCnt = 1\<rparr>)" and ?R = "[7 \<mapsto> \<lparr>ttype = 0, tvalue = 1\<rparr>]"
  have "reach main_init (cstep (Suc (Suc n))) (sys (no_element []) Map.empty ?P ?C)"
    using main_reached(1) main_start_sys by metis
  from run_push [OF this, of 0 "ProduceThread_new 0" 7]
  have "reach main_init (cstep (Suc (Suc n))) (sys (one_element 7 [SignalGet]) ?R ?P' ?C)"
    by (simp add: main_start_def MAX_TYPE_def pushed_on_def ProduceThread_new_def MAX_CNT_def)
  from run_consume [OF this, of 0 "CRead 7"]
  have "reach main_init (cstep (Suc (Suc n))) (sys (one_element 7 [SignalGet]) ?R ?P' (?C(0 := CRead 7)))"
    by (simp add: simple_peek)
  from run_consume [OF this, of 0 CPop]
  have "reach main_init (cstep (Suc (Suc n))) (sys (one_element 7 [SignalGet]) ?R ?P' (?C(0 := CPop)))" by simp
  from run_take [OF this, of "Suc 0"] obtain w where
    w: "reach main_init (cstep (Suc (Suc n))) (sys (no_element w) ?R ?P' (?C(0 := CPop, Suc 0 := CUse 7)))" by auto
  have "pop 0 0 NULL (no_element w) = Some (Returned (qerr Q_ERR_NUM_ELEMENTS, NULL) (no_element w))"
    by (simp add: pop_def popElement_def simple_defs lock_rc_def)
  with run_consume [OF w, of 0 "CStop None" "no_element w" ?R]
  have "reach main_init (cstep (Suc (Suc n))) (sys (no_element w) ?R ?P' ((?C(0 := CPop, Suc 0 := CUse 7))(0 := CStop None)))"
    by simp
  then show ?thesis
    by (intro exI [of _ "sys (no_element w) ?R ?P' ((?C(0 := CPop, Suc 0 := CUse 7))(0 := CStop None))"]) simp
qed

end
