(* ===== verification/QueueSimple_Finish.thy ===== *)
theory QueueSimple_Finish
  imports QueueSimple_Runs
begin

text \<open>
  How the consumers of \<open>main\<close> end. Each consumer is to end at a record of value \<open>MAX_CNT\<close>, of which
  every producer makes one: when all ten have ended so, nothing is left in the queue and every
  producer has counted to its last record. A call whose push got no memory is counted too, so fewer
  records may have gone in. A consumer that ends because its pop failed breaks this.
\<close>

section \<open>Records and their producers\<close>

definition made_by_producers :: "csys \<Rightarrow> bool" where
  "made_by_producers s \<longleftrightarrow> (\<forall>a t. records s a = Some t \<longrightarrow>
     (\<exists>j < MAX_TYPE. ttype t = int j \<and> tvalue t \<le> last_value s j))"

definition below_queued :: "csys \<Rightarrow> addr \<Rightarrow> bool" where
  "below_queued s e \<longleftrightarrow> (\<forall>j v. type_at (records s) e = int j \<longrightarrow> v \<in> set (queued_values s j) \<longrightarrow>
     value_at (records s) e < v)"

text \<open>
  Every record has a producer and a value that producer has reached, no two records are alike, a
  record held by a consumer came before all queued records of its producer, and a consumer that
  ended at a record ended at one with the last value.
\<close>

definition finish_inv :: "nat \<Rightarrow> csys \<Rightarrow> bool" where
  "finish_inv n s \<longleftrightarrow> made_by_producers s \<and> inj_on (records s) (dom (records s)) \<and>
     (\<forall>i < n. \<forall>e. holds (consumers s i) = Some e \<longrightarrow> below_queued s e) \<and>
     (\<forall>i < n. \<forall>e. consumers s i = CStop (Some e) \<longrightarrow> MAX_CNT \<le> value_at (records s) e)"

lemma finish_invD:
  assumes "finish_inv n s"
  shows "made_by_producers s" "inj_on (records s) (dom (records s))"
    "\<And>i e. i < n \<Longrightarrow> holds (consumers s i) = Some e \<Longrightarrow> below_queued s e"
    "\<And>i e. i < n \<Longrightarrow> consumers s i = CStop (Some e) \<Longrightarrow> MAX_CNT \<le> value_at (records s) e"
  using assms unfolding finish_inv_def by blast+

lemma finish_invI:
  assumes "made_by_producers s" and "inj_on (records s) (dom (records s))"
    and "\<And>i e. i < n \<Longrightarrow> holds (consumers s i) = Some e \<Longrightarrow> below_queued s e"
    and "\<And>i e. i < n \<Longrightarrow> consumers s i = CStop (Some e) \<Longrightarrow> MAX_CNT \<le> value_at (records s) e"
  shows "finish_inv n s"
  using assms unfolding finish_inv_def by blast

lemma made_by_mono:
  assumes "made_by_producers s" and "records t \<subseteq>\<^sub>m records s" and "\<And>k. last_value s k \<le> last_value t k"
  shows "made_by_producers t"
  unfolding made_by_producers_def
proof (intro allI impI)
  fix a r assume "records t a = Some r"
  then have "records s a = Some r" using assms(2) by (auto simp: map_le_def dom_def)
  then obtain j where "j < MAX_TYPE" "ttype r = int j" "tvalue r \<le> last_value s j"
    using assms(1) unfolding made_by_producers_def by blast
  with assms(3) [of j] show "\<exists>j < MAX_TYPE. ttype r = int j \<and> tvalue r \<le> last_value t j"
    by (intro exI [of _ j]) simp
qed

lemma below_queued_mono:
  assumes "below_queued s e" and "records t e = records s e"
    and "\<And>k. set (queued_values t k) \<subseteq> set (queued_values s k)"
  shows "below_queued t e"
  using assms unfolding below_queued_def type_at_def value_at_def by auto

text \<open>A step in which no consumer takes a record and none is pushed.\<close>

lemma finish_inv_quiet:
  assumes inv: "finish_inv n s" and "records t = records s" and "\<And>k. last_value s k \<le> last_value t k"
    and "\<And>k. queued_values t k = queued_values s k"
    and "\<And>i e. i < n \<Longrightarrow> holds (consumers t i) = Some e \<Longrightarrow> holds (consumers s i) = Some e"
    and "\<And>i e. i < n \<Longrightarrow> consumers t i = CStop (Some e) \<Longrightarrow>
      consumers s i = CStop (Some e) \<or> MAX_CNT \<le> value_at (records s) e"
  shows "finish_inv n t"
proof (rule finish_invI)
  note D = finish_invD [OF inv]
  show "made_by_producers t" using made_by_mono [OF D(1)] assms(2,3) by simp
  show "inj_on (records t) (dom (records t))" using D(2) assms(2) by simp
  show "below_queued t e" if "i < n" "holds (consumers t i) = Some e" for i e
    using below_queued_mono [OF D(3) [OF that(1) assms(5) [OF that]]] assms(2,4) by simp
  show "MAX_CNT \<le> value_at (records t) e" if "i < n" "consumers t i = CStop (Some e)" for i e
    using assms(6) [OF that] D(4) [OF that(1)] assms(2) by auto
qed

lemma finish_inv_pushed:
  assumes inv: "finish_inv n s" and many: "many_inv n s" and m: "records s m = None" and j: "j < MAX_TYPE"
    and last: "last_value s j = v - 1" "\<And>k. last_value t k = (if k = j then v else last_value s k)"
    and t: "records t = (records s)(m \<mapsto> \<lparr>ttype = int j, tvalue = v\<rparr>)" "consumers t = consumers s"
    and queued: "\<And>k. set (queued_values t k) \<subseteq> set (queued_values s k) \<union> (if k = j then {v} else {})"
  shows "finish_inv n t"
proof (rule finish_invI)
  note D = finish_invD [OF inv]
  have made: "\<exists>k < MAX_TYPE. ttype r = int k \<and> tvalue r \<le> last_value s k" if "records s a = Some r" for a r
    using D(1) that unfolding made_by_producers_def by blast
  have new: "records s a \<noteq> Some \<lparr>ttype = int j, tvalue = v\<rparr>" for a
    using made [of a "\<lparr>ttype = int j, tvalue = v\<rparr>"] last(1) by auto
  show "made_by_producers t"
    unfolding made_by_producers_def
  proof (intro allI impI)
    fix a r assume a: "records t a = Some r"
    show "\<exists>k < MAX_TYPE. ttype r = int k \<and> tvalue r \<le> last_value t k"
    proof (cases "a = m")
      case True
      with a t(1) j last(2) show ?thesis by (intro exI [of _ j]) auto
    next
      case False
      with a t(1) made [of a r] obtain k where "k < MAX_TYPE" "ttype r = int k" "tvalue r \<le> last_value s k" by auto
      then show ?thesis using last by (intro exI [of _ k]) auto
    qed
  qed
  show "inj_on (records t) (dom (records t))"
    using D(2) new t(1) by (fastforce simp: inj_on_def)
  show "below_queued t e" if i: "i < n" "holds (consumers t i) = Some e" for i e
  proof -
    have e: "holds (consumers s i) = Some e" using i(2) t(2) by simp
    from many_invD(1) [OF many i(1) e] obtain r where r: "records s e = Some r" by auto
    with m have "e \<noteq> m" by auto
    with r have r': "records t e = Some r" using t(1) by simp
    have "value_at (records s) e \<le> last_value s j" if "type_at (records s) e = int j"
      using made [OF r] r that by (auto simp: type_at_def value_at_def)
    then show ?thesis
      using D(3) [OF i(1) e] r r' queued last(1)
      by (fastforce simp: below_queued_def type_at_def value_at_def split: if_splits)
  qed
  show "MAX_CNT \<le> value_at (records t) e" if i: "i < n" "consumers t i = CStop (Some e)" for i e
  proof -
    have c: "consumers s i = CStop (Some e)" using i(2) t(2) by simp
    then have "e \<in> dom (records s)" using many_invD(1) [OF many i(1)] by simp
    then have "e \<noteq> m" using m by auto
    with D(4) [OF i(1) c] t(1) show ?thesis by (simp add: value_at_def)
  qed
qed

lemma finish_inv_producing:
  assumes inv: "finish_inv n s" and many: "many_inv n s" and prods: "producers_inv s"
    and fr: "records s m = None" "fresh_block b (cq s)"
    and p: "produce m b (cq s) (records s) (producers s j) = Some (Returned pc (q', mem'))"
    and t: "cq t = q'" "records t = mem'" "producers t = (producers s)(j := pc)" "consumers t = consumers s"
  shows "finish_inv n t"
  using prods fr p
proof (cases rule: producing_effect)
  case quiet
  with t have "last_value s k \<le> last_value t k" for k by (simp add: last_value_def)
  then show ?thesis using quiet t
    by (intro finish_inv_quiet [OF inv]) (simp_all add: queued_values_def)
next
  case ended
  with t have "producers t = producers s" by auto
  with ended t show ?thesis
    by (intro finish_inv_quiet [OF inv]) (simp_all add: queued_values_def last_value_def)
next
  case (pushed v)
  have ok: "records_ok (cq s) (records s)" using prods by (simp add: producers_inv_def)
  have m: "m \<notin> set (contents (cq s))" using records_okD(4) [OF ok] fr(1) by auto
  have "set (queued_values t k) \<subseteq> set (queued_values s k) \<union> (if k = j then {v} else {})" for k
  proof (cases "b = NULL")
    case True
    then have "queued_values t k = queued_values s k"
      using pushed(5,6) t m by (auto intro!: queued_values_frame)
    then show ?thesis by simp
  next
    case False
    then show ?thesis using pushed(5,6) t m queued_values_push [of t s m j v k] by simp
  qed
  with pushed t show ?thesis
    by (intro finish_inv_pushed [OF inv many fr(1) pushed(1,4)]) (simp_all add: last_value_def)
qed

lemma consume_stops:
  assumes "consume q mem pc = Some (CStop (Some e), q', mem')"
  shows "pc = CStop (Some e) \<or> MAX_CNT \<le> value_at mem e"
proof (cases pc)
  case CPop
  with assms obtain r where "pop 0 0 NULL q = Some r" by auto
  with CPop assms show ?thesis by (cases r) (auto split: if_splits)
qed (use assms in \<open>auto simp: bind_eq_Some_conv value_at_def split: if_splits\<close>)

text \<open>A consumer takes a record, or frees one.\<close>

lemma finish_inv_popped:
  assumes inv: "finish_inv n s" and many: "many_inv n s" and prods: "producers_inv s"
    and t: "t = s\<lparr>cq := q', records := mem', consumers := (consumers s)(i := CUse d)\<rparr>"
    and p: "mem' = records s" "contents (cq s) = d # contents q'"
  shows "finish_inv n t"
proof -
  have ok: "records_ok (cq s) (records s)" using many by (simp add: many_inv_def)
  have last: "last_value t k = last_value s k" for k by (simp add: t last_value_def)
  note D = finish_invD [OF inv]
  have split: "queued_values s k =
      (if type_at (records s) d = int k then [value_at (records s) d] else []) @ queued_values t k" for k
    using p t by (simp add: queued_values_def)
  then have sub: "set (queued_values t k) \<subseteq> set (queued_values s k)" for k by auto
  have "d \<in> dom (records s)" using p(2) records_okD(4) [OF ok] by auto
  then obtain j where j: "j < MAX_TYPE" "type_at (records s) d = int j"
    using D(1) unfolding made_by_producers_def type_at_def by fastforce
  then have "sorted_wrt (<) (queued_values s j)" using prods by (simp add: producers_inv_def)
  with split [of j] j have d: "below_queued t d" using p(1) t by (auto simp: below_queued_def)
  show ?thesis
  proof (rule finish_invI)
    show "made_by_producers t" using made_by_mono [OF D(1)] last p(1) t by simp
    show "inj_on (records t) (dom (records t))" using D(2) p(1) t by simp
    show "below_queued t e" if k: "k < n" "holds (consumers t k) = Some e" for k e
    proof (cases "k = i")
      case True
      with k t d show ?thesis by simp
    next
      case False
      then have "holds (consumers s k) = Some e" using k t by simp
      from below_queued_mono [OF D(3) [OF k(1) this] _ sub] p(1) t show ?thesis by simp
    qed
    show "MAX_CNT \<le> value_at (records t) e" if "k < n" "consumers t k = CStop (Some e)" for k e
      using D(4) [OF that(1), of e] that(2) p(1) t by (auto split: if_splits)
  qed
qed

lemma finish_inv_freed:
  assumes inv: "finish_inv n s" and many: "many_inv n s" and i: "i < n"
    and t: "t = s\<lparr>cq := cq s, records := (records s)(f := None), consumers := (consumers s)(i := CPeek)\<rparr>"
    and f: "holds (consumers s i) = Some f"
  shows "finish_inv n t"
proof -
  have last: "last_value t k = last_value s k" for k by (simp add: t last_value_def)
  note D = finish_invD [OF inv]
  have other: "k \<noteq> i \<and> e \<noteq> f \<and> holds (consumers s k) = Some e"
    if "k < n" "holds (consumers t k) = Some e" for k e
    using that t many_invD(3) [OF many i f, of k] by (auto split: if_splits)
  have queued: "queued_values t k = queued_values s k" for k
    using t many_invD(2) [OF many i f] by (intro queued_values_frame) auto
  show ?thesis
  proof (rule finish_invI)
    show "made_by_producers t"
      using made_by_mono [OF D(1), of t] last t by (simp add: map_le_def)
    show "inj_on (records t) (dom (records t))" using D(2) t by (auto simp: inj_on_def)
    show "below_queued t e" if k: "k < n" "holds (consumers t k) = Some e" for k e
      using below_queued_mono [of s e t] D(3) [OF k(1), of e] other [OF k] queued t by simp
    show "MAX_CNT \<le> value_at (records t) e" if k: "k < n" "consumers t k = CStop (Some e)" for k e
      using D(4) [OF k(1), of e] other [OF k(1), of e] k(2) t
      by (auto simp: value_at_def split: if_splits)
  qed
qed

lemma finish_inv_consuming:
  assumes inv: "finish_inv n s" and many: "many_inv n s" and prods: "producers_inv s" and i: "i < n"
    and c: "consume (cq s) (records s) (consumers s i) = Some (pc, q', mem')"
    and t: "t = s\<lparr>cq := q', records := mem', consumers := (consumers s)(i := pc)\<rparr>"
  shows "finish_inv n t"
proof -
  have ok: "records_ok (cq s) (records s)" using many by (simp add: many_inv_def)
  have last: "last_value t k = last_value s k" for k by (simp add: t last_value_def)
  from ok c show ?thesis
  proof (cases rule: consume_effect)
    case same
    have "consumers s k = CStop (Some e) \<or> MAX_CNT \<le> value_at (records s) e"
      if "consumers t k = CStop (Some e)" for k e
    proof (cases "k = i")
      case True
      with that t have "pc = CStop (Some e)" by simp
      with consume_stops [of "cq s" "records s" "consumers s i" e q' mem'] c True show ?thesis by simp
    next
      case False
      with that t show ?thesis by simp
    qed
    then show ?thesis
      by (intro finish_inv_quiet [OF inv]) (use same last t in \<open>auto simp: queued_values_def split: if_splits\<close>)
  next
    case failed
    show ?thesis
      by (rule finish_inv_quiet [OF inv])
        (use failed last t in \<open>auto simp: queued_values_def split: if_splits\<close>)
  next
    case (popped d)
    show ?thesis by (rule finish_inv_popped [OF inv many prods]) (use popped t in simp_all)
  next
    case (freed f)
    show ?thesis by (rule finish_inv_freed [OF inv many i]) (use freed t in simp_all)
  qed
qed

interpretation finish: invariant_system main_init "cstep n"
  "\<lambda>s. (producers_inv s \<and> many_inv n s) \<and> finish_inv n s" for n
proof
  show "(producers_inv s \<and> many_inv n s) \<and> finish_inv n s" if "main_init s" for s
    using main_sys.init_inv [OF that] that
    by (simp add: finish_inv_def main_init_def cinit_def made_by_producers_def)
next
  show "(producers_inv t \<and> many_inv n t) \<and> finish_inv n t"
    if inv: "(producers_inv s \<and> many_inv n s) \<and> finish_inv n s" and step: "cstep n s t" for s t
  proof
    show "producers_inv t \<and> many_inv n t" using main_sys.step_inv inv step by blast
    from step show "finish_inv n t"
    proof cases
      case (producing m b j pc q' mem')
      have t: "cq t = q'" "records t = mem'" "producers t = (producers s)(j := pc)" "consumers t = consumers s"
        by (simp_all add: producing(1))
      show ?thesis
        by (rule finish_inv_producing [OF _ _ _ producing(2,3,4) t]) (use inv in blast)+
    next
      case (consuming i pc q' mem')
      show ?thesis
        by (rule finish_inv_consuming [OF _ _ _ consuming(2,3,1)]) (use inv in blast)+
    qed
  qed
qed

section \<open>Ended consumers and finished producers\<close>

text \<open>The consumers that ended at a record, and the producers whose records have all been taken.\<close>

definition ended :: "nat \<Rightarrow> csys \<Rightarrow> nat set" where
  "ended n s = {i. i < n \<and> (\<exists>e. consumers s i = CStop (Some e))}"

definition exhausted :: "csys \<Rightarrow> nat set" where
  "exhausted s = {j. j < MAX_TYPE \<and> last_value s j = MAX_CNT \<and> queued_values s j = []}"

lemma ended_at:
  assumes prods: "producers_inv s" and many: "many_inv n s" and fin: "finish_inv n s"
    and i: "i < n" "consumers s i = CStop (Some e)"
  obtains j where "j \<in> exhausted s" "records s e = Some \<lparr>ttype = int j, tvalue = MAX_CNT\<rparr>"
proof -
  have h: "holds (consumers s i) = Some e" using i(2) by simp
  note D = finish_invD [OF fin]
  from many_invD(1) [OF many i(1) h] obtain t where t: "records s e = Some t" by auto
  from D(1) t obtain j where j: "j < MAX_TYPE" "ttype t = int j" "tvalue t \<le> last_value s j"
    unfolding made_by_producers_def by blast
  have "MAX_CNT \<le> tvalue t" using D(4) [OF i] t by (simp add: value_at_def)
  with j(3) last_value_bound(1) [OF prods, of j] have v: "tvalue t = MAX_CNT" "last_value s j = MAX_CNT" by simp_all
  have "MAX_CNT < x" "x \<le> MAX_CNT" if "x \<in> set (queued_values s j)" for x
  proof -
    show "MAX_CNT < x"
      using D(3) [OF i(1) h] that t j(2) v(1) by (auto simp: below_queued_def type_at_def value_at_def)
    show "x \<le> MAX_CNT" using prods j(1) that v(2) unfolding producers_inv_def by metis
  qed
  then have "queued_values s j = []" by (cases "queued_values s j") fastforce+
  then show thesis using j v t by (intro that [of j]) (cases t; simp add: exhausted_def)+
qed

lemma ended_le_exhausted:
  assumes prods: "producers_inv s" and many: "many_inv n s" and fin: "finish_inv n s"
  shows "card (ended n s) \<le> card (exhausted s)"
proof -
  let ?e = "\<lambda>i. the (holds (consumers s i))"
  let ?f = "\<lambda>i. nat (type_at (records s) (?e i))"
  have e: "\<exists>j. j \<in> exhausted s \<and> records s (?e i) = Some \<lparr>ttype = int j, tvalue = MAX_CNT\<rparr> \<and>
      i < n \<and> holds (consumers s i) = Some (?e i)" if "i \<in> ended n s" for i
  proof -
    from that obtain e where i: "i < n" "consumers s i = CStop (Some e)" by (auto simp: ended_def)
    with ended_at [OF assms i] show ?thesis by auto
  qed
  have "inj_on ?f (ended n s)"
  proof (rule inj_onI)
    fix i k assume "i \<in> ended n s" "k \<in> ended n s" and eq: "?f i = ?f k"
    with e obtain j l where
      i: "records s (?e i) = Some \<lparr>ttype = int j, tvalue = MAX_CNT\<rparr>" "i < n" "holds (consumers s i) = Some (?e i)"
      and k: "records s (?e k) = Some \<lparr>ttype = int l, tvalue = MAX_CNT\<rparr>" "k < n" "holds (consumers s k) = Some (?e k)"
      by blast
    with eq have "records s (?e i) = records s (?e k)" by (simp add: type_at_def)
    moreover have "?e i \<in> dom (records s)" "?e k \<in> dom (records s)" using i(1) k(1) by blast+
    ultimately have "?e i = ?e k" by (rule inj_onD [OF finish_invD(2) [OF fin]])
    with i k show "i = k" using many_invD(3) [OF many k(2,3), of i] by simp
  qed
  moreover have "?f ` ended n s \<subseteq> exhausted s"
  proof (rule image_subsetI)
    fix i assume "i \<in> ended n s"
    with e obtain j where "j \<in> exhausted s" "records s (?e i) = Some \<lparr>ttype = int j, tvalue = MAX_CNT\<rparr>" by blast
    then show "?f i \<in> exhausted s" by (simp add: type_at_def)
  qed
  ultimately show ?thesis by (rule card_inj_on_le) (simp add: exhausted_def)
qed

lemma exhausted_empty:
  assumes prods: "producers_inv s" and fin: "finish_inv n s" and all: "exhausted s = {..<MAX_TYPE}"
  shows "contents (cq s) = []"
proof (rule ccontr)
  assume "contents (cq s) \<noteq> []"
  then obtain a where a: "a \<in> set (contents (cq s))" by (cases "contents (cq s)") auto
  have "records_ok (cq s) (records s)" using prods by (simp add: producers_inv_def)
  from records_okD(4) [OF this] a obtain t where t: "records s a = Some t" by auto
  with finish_invD(1) [OF fin] obtain j where j: "j < MAX_TYPE" "ttype t = int j"
    unfolding made_by_producers_def by blast
  then have "value_at (records s) a \<in> set (queued_values s j)"
    using a t by (auto simp: queued_values_def type_at_def)
  moreover have "j \<in> exhausted s" using j(1) all by simp
  ultimately show False by (simp add: exhausted_def)
qed

text \<open>
  C22 (invariant): how the consumers of \<open>main\<close> end. Each consumer that ended at a record accounts for
  a producer of its own whose counter has reached its last record and none of whose records is queued
  any more. When ten consumers have ended so, that holds of every producer and the queue is empty: all
  that was queued has been taken. A record whose push got no memory is counted and never queued.
\<close>

theorem ended_consumers_exhaust:
  assumes "reach main_init (cstep n) s"
  shows "card (ended n s) \<le> card (exhausted s) \<and>
    (card (ended n s) = MAX_TYPE \<longrightarrow> exhausted s = {..<MAX_TYPE} \<and> contents (cq s) = [])"
proof -
  have inv: "producers_inv s" "many_inv n s" "finish_inv n s" using finish.reach_inv [OF assms] by blast+
  note le = ended_le_exhausted [OF inv]
  have sub: "exhausted s \<subseteq> {..<MAX_TYPE}" by (auto simp: exhausted_def)
  have "exhausted s = {..<MAX_TYPE}" if "card (ended n s) = MAX_TYPE"
    by (rule card_seteq [OF _ sub]) (use le that in simp_all)
  with le exhausted_empty [OF inv(1,3)] show ?thesis by blast
qed

theorem ended_consumers_exhaust_witness:
  "\<exists>s. map (producers s) [0..<MAX_TYPE] =
      map (\<lambda>k. PStop \<lparr>mType = int k, cnt = MAX_CNT + 1, allCnt = MAX_CNT\<rparr>) [0..<MAX_TYPE] \<and>
    card (ended MAX_TYPE s) = MAX_TYPE \<and> exhausted s = {..<MAX_TYPE} \<and> contents (cq s) = []"
proof -
  obtain s where s: "reach main_init (cstep MAX_TYPE) s"
    "map (producers s) [0..<MAX_TYPE] =
      map (\<lambda>k. PStop \<lparr>mType = int k, cnt = MAX_CNT + 1, allCnt = MAX_CNT\<rparr>) [0..<MAX_TYPE]"
    "map (consumers s) [0..<MAX_TYPE] = map (\<lambda>i. CStop (Some (Suc i))) [0..<MAX_TYPE]"
    using clean_run by blast
  have "ended MAX_TYPE s = {..<MAX_TYPE}" using s(3) by (auto simp: ended_def)
  then have "card (ended MAX_TYPE s) = MAX_TYPE" by simp
  with ended_consumers_exhaust [OF s(1)] s(2) show ?thesis by blast
qed

end
