(* ===== verification/QueueMain_Threads.thy ===== *)
theory QueueMain_Threads
  imports QueueMain QueueSimple_Finish
begin

text \<open>
  The round of \<open>main\<close> and the threads it starts: up to the call of \<open>setAllowedNewData\<close> the queue, the
  records and the threads behave exactly as the system of theory \<open>QueueSimple\<close> with ten consumers and
  ten producers, whatever \<open>main\<close> and the workers do around the calls of \<open>threadLoop\<close>.
\<close>

section \<open>What the threads see\<close>

definition threads_of :: "msys \<Rightarrow> csys" where
  "threads_of s = \<lparr>cq = (case mq s of None \<Rightarrow> Queue_new | Some q \<Rightarrow> q), records = mrecords s,
     producers = mproducers s, consumers = mconsumers s\<rparr>"

text \<open>\<open>main\<close> has made the queue refuse new data.\<close>

definition refused :: "mpc \<Rightarrow> bool" where
  "refused p \<longleftrightarrow> p \<in> {MDelQ, MEnd} \<union> range MDel"

definition rmove :: "msys \<Rightarrow> msys \<Rightarrow> bool" where
  "rmove s t \<longleftrightarrow> mmove s t \<and> \<not> refused (mpc t)"

definition untouched :: "msys \<Rightarrow> bool" where
  "untouched s \<longleftrightarrow> (\<forall>i < MAX_TYPE. (objs s i = None \<longrightarrow> mconsumers s i = CPeek) \<and>
     (objs s (MAX_TYPE + i) = None \<longrightarrow> mproducers s i = PPush (ProduceThread_new (int i))))"

lemma loop_next_step:
  assumes l: "loop_next k m b q s = Some (r, s1)" and q: "mq s = Some q"
    and fr: "mrecords s m = None" "fresh_block b q"
  shows "threads_of s1 = threads_of s \<or> cstep MAX_TYPE (threads_of s) (threads_of s1)"
proof (cases "k < MAX_TYPE")
  case True
  with l obtain pc q' mem' where c: "consume q (mrecords s) (mconsumers s k) = Some (pc, q', mem')"
    "s1 = s\<lparr>mq := Some q', mrecords := mem', mconsumers := (mconsumers s)(k := pc)\<rparr>"
    by (auto simp: loop_next_def simp del: consume.simps)
  with consuming [of k MAX_TYPE "threads_of s" pc q' mem'] True q show ?thesis
    by (simp add: threads_of_def del: consume.simps)
next
  case False
  with l obtain o1 where p: "produce m b q (mrecords s) (mproducers s (k - MAX_TYPE)) = Some o1"
    by (auto simp: loop_next_def simp del: produce.simps)
  show ?thesis
  proof (cases o1)
    case (Returned pc st)
    obtain q' mem' where st: "st = (q', mem')" by (cases st)
    with False l p Returned
    have "s1 = s\<lparr>mq := Some q', mrecords := mem', mproducers := (mproducers s)(k - MAX_TYPE := pc)\<rparr>"
      by (auto simp: loop_next_def simp del: produce.simps)
    with producing [of "threads_of s" m b "k - MAX_TYPE" pc q' mem' MAX_TYPE] fr p Returned st q show ?thesis
      by (simp add: threads_of_def del: produce.simps)
  next
    case (Asleep st)
    with False l p show ?thesis by (auto simp: loop_next_def simp del: produce.simps)
  qed
qed

lemma worker_next_image: "worker_next k r ob s = Some t \<Longrightarrow> threads_of t = threads_of s"
  by (auto simp: worker_next_def threads_of_def simp del: worker_step.simps)

lemma thread_next_step:
  assumes t: "thread_next k m b s = Some t" and ok: "blocks_ok (Thread_step k m b) s"
  shows "threads_of t = threads_of s \<or> cstep MAX_TYPE (threads_of s) (threads_of t)"
  using t
proof (cases rule: thread_next_cases)
  case (inside q)
  then show ?thesis using ok loop_next_step [OF inside(4,3)] by (simp add: fresh_block_def)
next
  case (returned ob q go s1)
  then show ?thesis using ok loop_next_step [OF returned(4,3)] worker_next_image [OF returned(5)]
    by (simp add: fresh_block_def)
next
  case (outside ob)
  then show ?thesis using worker_next_image by simp
qed

lemma ask_image: "ask k n s = Some (n', s') \<Longrightarrow> threads_of s' = threads_of s \<and> untouched s' = untouched s"
  by (erule askE) (simp_all add: threads_of_def untouched_def)

lemma start_thread_image:
  "objs (start_thread r k nm s) j = None \<Longrightarrow> objs s j = None"
  "mq (start_thread r k nm s) = mq s" "mrecords (start_thread r k nm s) = mrecords s"
  "mproducers (start_thread r k nm s) = mproducers s" "mconsumers (start_thread r k nm s) = mconsumers s"
  by (simp_all add: start_thread_def split: prod.splits if_splits)

lemma at_mpc [simp]: "threads_of (s\<lparr>mpc := p\<rparr>) = threads_of s" "untouched (s\<lparr>mpc := p\<rparr>) = untouched s"
  by (simp_all add: threads_of_def untouched_def)

lemma untouched_mono:
  assumes "untouched s" and "\<And>j. objs t j = None \<Longrightarrow> objs s j = None"
    and "mproducers t = mproducers s" and "mconsumers t = mconsumers s"
  shows "untouched t"
  using assms unfolding untouched_def by simp

text \<open>A step of \<open>main\<close> before the refusal does not show.\<close>

lemma main_next_quiet:
  assumes m: "main_next r p s = Some t" and inv: "scan_inv p s" "untouched s" and p: "\<not> refused (mpc t)"
  shows "threads_of t = threads_of s \<and> untouched t"
proof (cases p)
  case (MNewC i)
  show ?thesis
  proof (cases "i < MAX_TYPE")
    case True
    with MNewC m have t: "t = (start_thread r i ''consumeThread'' s)\<lparr>mconsumers := (mconsumers s)(i := CPeek), mpc := MNewC (i + 1)\<rparr>"
      by simp
    from MNewC inv(1) have "objs s i = None" by (auto simp: unborn_def)
    with inv(2) True have "mconsumers s i = CPeek" by (simp add: untouched_def)
    then have "(mconsumers s)(i := CPeek) = mconsumers s" by (simp add: fun_upd_idem)
    then show ?thesis
      using untouched_mono [OF inv(2), of t] start_thread_image(1) [of r i "''consumeThread''" s]
      by (simp add: t threads_of_def start_thread_image(2-5))
  next
    case False
    with MNewC m have "t = s\<lparr>mpc := MNewP 0\<rparr>" by simp
    with inv(2) show ?thesis by (simp add: threads_of_def untouched_def)
  qed
next
  case (MNewP i)
  show ?thesis
  proof (cases "i < MAX_TYPE")
    case True
    with MNewP m have t: "t = (start_thread r (MAX_TYPE + i) ''produceThread'' s)
        \<lparr>mproducers := (mproducers s)(i := PPush (ProduceThread_new (int i))), mpc := MNewP (i + 1)\<rparr>"
      by simp
    from MNewP inv(1) have "objs s (MAX_TYPE + i) = None" by (auto simp: unborn_def)
    with inv(2) True have "mproducers s i = PPush (ProduceThread_new (int i))" by (simp add: untouched_def)
    then have "(mproducers s)(i := PPush (ProduceThread_new (int i))) = mproducers s" by (simp add: fun_upd_idem)
    then show ?thesis
      using untouched_mono [OF inv(2), of t] start_thread_image(1) [of r "MAX_TYPE + i" "''produceThread''" s]
      by (simp add: t threads_of_def start_thread_image(2-5))
  next
    case False
    with MNewP m have "t = s\<lparr>mpc := MTest 0 0\<rparr>" by simp
    with inv(2) show ?thesis by (simp add: threads_of_def untouched_def)
  qed
next
  case (MTest pro com)
  with m have "t = (if main_waits pro com then s\<lparr>mpc := MScanP 0 0 0, seen := Map.empty\<rparr> else s\<lparr>mpc := MRefuse\<rparr>)" by auto
  with inv(2) show ?thesis by (simp add: threads_of_def untouched_def)
next
  case (MScanP i pro com)
  show ?thesis
  proof (cases "i < MAX_TYPE")
    case True
    with MScanP m obtain pro' s' where a: "ask (MAX_TYPE + i) pro s = Some (pro', s')" "t = s'\<lparr>mpc := MScanC i pro' com\<rparr>"
      by auto
    with ask_image [OF a(1)] inv(2) show ?thesis by simp
  next
    case False
    with MScanP m have "t = (if pro \<ge> MAX_TYPE \<and> com \<ge> MAX_TYPE then s\<lparr>mpc := MRefuse\<rparr> else s\<lparr>mpc := MTest pro com\<rparr>)"
      by auto
    with inv(2) show ?thesis by (simp add: threads_of_def untouched_def)
  qed
next
  case (MScanC i pro com)
  with m obtain com' s' where a: "ask i com s = Some (com', s')" "t = s'\<lparr>mpc := MScanP (i + 1) pro com'\<rparr>" by auto
  with ask_image [OF a(1)] inv(2) show ?thesis by simp
qed (use m p in \<open>auto simp: refused_def split: if_splits\<close>)

lemma loop_next_others:
  assumes l: "loop_next k m b q s = Some (r, t)" and j: "j \<noteq> k" "MAX_TYPE + i \<noteq> k"
  shows "mconsumers t j = mconsumers s j \<and> mproducers t i = mproducers s i"
proof (cases "k < MAX_TYPE")
  case True
  with assms show ?thesis by (auto simp: loop_next_def simp del: consume.simps)
next
  case False
  with l obtain p where "produce m b q (mrecords s) (mproducers s (k - MAX_TYPE)) = Some p"
    by (auto simp: loop_next_def simp del: produce.simps)
  with False assms show ?thesis by (cases p) (auto simp: loop_next_def simp del: produce.simps)
qed

lemma worker_next_keeps:
  "worker_next k r ob s = Some t \<Longrightarrow> mconsumers t = mconsumers s \<and> mproducers t = mproducers s"
  by (auto simp: worker_next_def simp del: worker_step.simps)

lemma thread_next_others:
  assumes t: "thread_next k m b s = Some t" and j: "j \<noteq> k" "MAX_TYPE + i \<noteq> k"
  shows "mconsumers t j = mconsumers s j \<and> mproducers t i = mproducers s i"
  using t
proof (cases rule: thread_next_cases)
  case (inside q)
  from loop_next_others [OF inside(4) j] show ?thesis .
next
  case (returned ob q go s1)
  from loop_next_others [OF returned(4) j] worker_next_keeps [OF returned(5)] show ?thesis by simp
next
  case (outside ob)
  from worker_next_keeps [OF outside(3)] show ?thesis by simp
qed

lemma untouched_thread:
  assumes t: "thread_next k m b s = Some t" and inv: "untouched s"
  shows "untouched t"
  unfolding untouched_def
proof (intro allI impI conjI)
  have objs: "objs t j = None \<longleftrightarrow> objs s j = None" for j
    using t by (cases rule: thread_next_scan) auto
  have k: "objs s k \<noteq> None" using t by (auto simp: thread_next_def bind_eq_Some_conv)
  fix i assume i: "i < MAX_TYPE"
  show "mconsumers t i = CPeek" if "objs t i = None"
  proof -
    have "objs s i = None" using that objs by simp
    with k have "i \<noteq> k" by auto
    moreover obtain l where "MAX_TYPE + l \<noteq> k" by (metis add_left_cancel n_not_Suc_n)
    ultimately have "mconsumers t i = mconsumers s i" using thread_next_others [OF t] by blast
    with inv i \<open>objs s i = None\<close> show ?thesis by (simp add: untouched_def)
  qed
  show "mproducers t i = PPush (ProduceThread_new (int i))" if "objs t (MAX_TYPE + i) = None"
  proof -
    have "objs s (MAX_TYPE + i) = None" using that objs by simp
    with k have "MAX_TYPE + i \<noteq> k" by auto
    moreover obtain l where "l \<noteq> k" by (metis n_not_Suc_n)
    ultimately have "mproducers t i = mproducers s i" using thread_next_others [OF t] by blast
    with inv i \<open>objs s (MAX_TYPE + i) = None\<close> show ?thesis by (simp add: untouched_def)
  qed
qed

interpretation threads: simulation minit rmove "\<lambda>s. main_inv s \<and> untouched s" main_init "cstep MAX_TYPE" threads_of
proof
  show "main_inv s \<and> untouched s" if "minit s" for s
    using round.init_inv [OF that] that
    by (simp add: minit_def mstart_def untouched_def main_start_def)
  show "main_init (threads_of s)" if "minit s" for s
    using that by (simp add: minit_def mstart_def threads_of_def main_init_def cinit_def main_start_def)
next
  fix s t assume inv: "main_inv s \<and> untouched s" and step: "rmove s t"
  then obtain a where a: "blocks_ok a s" "mact a s = Some t" "\<not> refused (mpc t)"
    by (auto simp: rmove_def elim: mmove.cases)
  have "main_inv t" using round.step_inv inv step unfolding rmove_def by blast
  moreover have "untouched t \<and> (threads_of t = threads_of s \<or> cstep MAX_TYPE (threads_of s) (threads_of t))"
  proof (cases a)
    case (Main r)
    with main_next_quiet [of r "mpc s" s t] a inv show ?thesis by (simp add: main_inv_def)
  next
    case (Thread_step k m b)
    with a(2) have t: "thread_next k m b s = Some t" by simp
    from untouched_thread [OF t] thread_next_step [OF t a(1) [unfolded Thread_step]] inv show ?thesis by simp
  qed
  ultimately show "main_inv t \<and> untouched t" "threads_of t = threads_of s \<or> cstep MAX_TYPE (threads_of s) (threads_of t)" by simp_all
qed

text \<open>A state before the refusal was reached through such states.\<close>

lemma refused_stays:
  assumes "mmove s t" and "refused (mpc s)"
  shows "refused (mpc t)"
  using assms(1)
proof cases
  case (mmove a)
  show ?thesis
  proof (cases a)
    case (Main r)
    with mmove assms(2) show ?thesis by (auto simp: refused_def split: if_splits)
  next
    case (Thread_step k m b)
    with mmove(2) have "thread_next k m b s = Some t" by simp
    then have "mpc t = mpc s" by (cases rule: thread_next_scan) simp_all
    with assms(2) show ?thesis by simp
  qed
qed

lemma reach_rmove:
  assumes "reach minit mmove s" and "\<not> refused (mpc s)"
  shows "reach minit rmove s"
  using assms
proof (induction rule: reach.induct)
  case (reach_step s t)
  then have "\<not> refused (mpc s)" using refused_stays by blast
  with reach_step show ?case by (auto intro: reach.reach_step simp: rmove_def)
qed (auto intro: reach.reach_init)

section \<open>Every run of the threads is a run of the program\<close>

text \<open>
  \<open>main\<close> is about to enter its waiting loop, and every worker is about to call \<open>threadLoop\<close>, or has
  just seen it return false.
\<close>

definition over :: "csys \<Rightarrow> nat \<Rightarrow> bool" where
  "over c k \<longleftrightarrow> (if k < MAX_TYPE then \<exists>at. consumers c k = CStop at
     else \<exists>pr. producers c (k - MAX_TYPE) = PStop pr)"

definition working :: "msys \<Rightarrow> nat \<Rightarrow> worker \<Rightarrow> bool" where
  "working s k pc \<longleftrightarrow> (\<exists>ob. objs s k = Some ob \<and> mRunning ob \<and> \<not> mExitPending ob) \<and> wks s k = pc"

definition at_work :: "msys \<Rightarrow> csys \<Rightarrow> bool" where
  "at_work s c \<longleftrightarrow> threads_of s = c \<and> mpc s = MTest 0 0 \<and> mq s \<noteq> None \<and>
     (\<forall>k < MAX_TYPE + MAX_TYPE. working s k (if over c k then Check False else Loop))"

lemma thread_move:
  assumes "reach minit mmove s" and "thread_next k NULL NULL s = Some t" and "mrecords s NULL = None"
  shows "reach minit mmove t"
proof (rule reach_step [OF assms(1)])
  show "mmove s t"
    by (rule mmove [of "Thread_step k NULL NULL"]) (use assms in \<open>simp_all split: option.splits\<close>)
qed

text \<open>Worker \<open>k\<close> outside of \<open>threadLoop\<close>.\<close>

lemma worker_move:
  assumes r: "reach minit mmove s" and n: "mrecords s NULL = None"
    and k: "objs s k = Some ob" "wks s k \<noteq> Loop" "worker_step True ob (wks s k) = Some (pc, ob', cbs, bc)"
  shows "reach minit mmove (s\<lparr>objs := (objs s)(k := Some ob'), wks := (wks s)(k := pc)\<rparr>)"
  by (rule thread_move [OF r, of k, OF _ n]) (use k in \<open>simp add: thread_next_def worker_next_def\<close>)

lemma worker_returned:
  assumes r: "reach minit mmove s" and n: "mrecords s NULL = None"
    and k: "objs s k = Some ob" "mRunning ob" "\<not> mExitPending ob" "wks s k = Check True"
  shows "reach minit mmove (s\<lparr>wks := (wks s)(k := Loop)\<rparr>)"
proof -
  have "reach minit mmove (s\<lparr>objs := (objs s)(k := Some ob), wks := (wks s)(k := Test)\<rparr>)"
    by (rule worker_move [OF r n k(1), where cbs = "[]" and bc = False]) (simp_all add: k)
  from worker_move [OF this, of k ob Loop ob "[]" False]
  show ?thesis using n k by (simp add: fun_upd_idem)
qed

lemma worker_starts:
  assumes r: "reach minit mmove s" and n: "mrecords s NULL = None"
    and k: "objs s k = Some ob" "\<not> mExitPending ob" "wks s k = Begin"
  shows "reach minit mmove (s\<lparr>objs := (objs s)(k := Some (ob\<lparr>mRunning := True\<rparr>)), wks := (wks s)(k := Loop)\<rparr>)"
proof -
  let ?ob = "ob\<lparr>mRunning := True\<rparr>"
  let ?s = "\<lambda>pc. s\<lparr>objs := (objs s)(k := Some ?ob), wks := (wks s)(k := pc)\<rparr>"
  have "reach minit mmove (?s First)"
    by (rule worker_move [OF r n k(1), where cbs = "[]" and bc = False]) (simp_all add: k)
  from worker_move [OF this, of k ?ob "Check True" ?ob "[ReadyToRun]" False]
  have "reach minit mmove (?s (Check True))" using n k by simp
  from worker_returned [OF this, of k ?ob] show ?thesis using n k by simp
qed

lemma over_consumer:
  "k < MAX_TYPE \<Longrightarrow> over (c\<lparr>cq := q, records := R, consumers := (consumers c)(i := pc)\<rparr>) k \<longleftrightarrow>
    (if k = i then \<exists>at. pc = CStop at else over c k)"
  "MAX_TYPE \<le> k \<Longrightarrow> over (c\<lparr>cq := q, records := R, consumers := (consumers c)(i := pc)\<rparr>) k \<longleftrightarrow> over c k"
  by (auto simp: over_def)

lemma over_producer:
  "k < MAX_TYPE \<Longrightarrow> over (c\<lparr>cq := q, records := R, producers := (producers c)(j := pc)\<rparr>) k \<longleftrightarrow> over c k"
  "MAX_TYPE \<le> k \<Longrightarrow> over (c\<lparr>cq := q, records := R, producers := (producers c)(j := pc)\<rparr>) k \<longleftrightarrow>
    (if k = MAX_TYPE + j then \<exists>pr. pc = PStop pr else over c k)"
  by (auto simp: over_def)

text \<open>A step of \<open>threadLoop\<close>, with what its worker does when it returns.\<close>

lemma loop_move:
  assumes r: "reach minit mmove s" and w: "at_work s c" and k: "k < MAX_TYPE + MAX_TYPE" "\<not> over c k"
    and n: "mrecords s m = None" "mrecords s1 NULL = None" "fresh_block b q"
    and l: "mq s = Some q" "loop_next k m b q s = Some (res, s1)" "threads_of s1 = c'"
    and res: "over c' k \<longleftrightarrow> res = Some False" "\<And>j. j \<noteq> k \<Longrightarrow> j < MAX_TYPE + MAX_TYPE \<Longrightarrow> over c' j \<longleftrightarrow> over c j"
  shows "\<exists>t. reach minit mmove t \<and> at_work t c'"
proof -
  have wk: "working s k Loop" using w k by (auto simp: at_work_def)
  then obtain ob where ob: "objs s k = Some ob" "mRunning ob" "\<not> mExitPending ob" "wks s k = Loop"
    by (auto simp: working_def)
  have frame: "objs s1 = objs s" "wks s1 = wks s" "mpc s1 = mpc s" "mq s1 \<noteq> None"
    using loop_next_frame [OF l(2)] l(1) by simp_all
  have ok: "blocks_ok (Thread_step k m b) s" using n l(1) by (simp add: fresh_block_def)
  have go: "reach minit mmove t" if "thread_next k m b s = Some t" for t
    by (rule reach_step [OF r mmove [OF ok]]) (simp add: that)
  let ?s = "\<lambda>pc. s1\<lparr>wks := (wks s1)(k := pc)\<rparr>"
  have at: "at_work (?s pc) c'" if "pc = (if res = Some False then Check False else Loop)" for pc
    unfolding at_work_def
  proof (intro conjI allI impI)
    show "threads_of (?s pc) = c'" using l(3) by (simp add: threads_of_def)
    show "mpc (?s pc) = MTest 0 0" using w frame by (simp add: at_work_def)
    show "mq (?s pc) \<noteq> None" using frame by simp
    fix j assume j: "j < MAX_TYPE + MAX_TYPE"
    show "working (?s pc) j (if over c' j then Check False else Loop)"
    proof (cases "j = k")
      case True
      then show ?thesis using wk frame that res(1) by (simp add: working_def)
    next
      case False
      then show ?thesis using w j frame res(2) [OF False j] by (simp add: at_work_def working_def)
    qed
  qed
  show ?thesis
  proof (cases res)
    case None
    then have "?s Loop = s1" using ob(4) frame by (simp add: fun_upd_idem)
    moreover have "reach minit mmove s1" using None ob l(1,2) by (intro go) (simp add: thread_next_def)
    ultimately show ?thesis using at [of Loop] None by auto
  next
    case (Some g)
    have "thread_next k m b s = Some (?s (Check g))"
      using Some ob l(1,2) frame by (simp add: thread_next_def worker_next_def fun_upd_idem)
    then have reach: "reach minit mmove (?s (Check g))" by (rule go)
    show ?thesis
    proof (cases g)
      case True
      with worker_returned [OF reach, of k ob] ob frame n have "reach minit mmove (?s Loop)" by simp
      with at [of Loop] Some True show ?thesis by auto
    next
      case False
      with reach at [of "Check False"] Some show ?thesis by auto
    qed
  qed
qed

text \<open>The threads are created and enter their loops.\<close>

definition created :: msys where
  "created = the (perform mact (replicate 22 (Main 0)) mstart)"

definition about_to_run :: "msys \<Rightarrow> nat \<Rightarrow> bool" where
  "about_to_run s k \<longleftrightarrow> (case objs s k of None \<Rightarrow> False | Some ob \<Rightarrow> \<not> mExitPending ob) \<and> wks s k = Begin"

lemma created_value:
  "\<exists>s. perform mact (replicate 22 (Main 0)) mstart = Some s \<and> mpc s = MTest 0 0 \<and> mq s = Some Queue_new \<and>
     mrecords s = Map.empty \<and> {..<20} \<subseteq> Collect (about_to_run s)"
  by (simp add: main_eval about_to_run_def lessThan_Suc numeral_eq_Suc)

lemma created_facts:
  "reach minit mmove created" "mpc created = MTest 0 0" "mq created = Some Queue_new" "mrecords created = Map.empty"
  "k < MAX_TYPE + MAX_TYPE \<Longrightarrow> about_to_run created k"
proof -
  obtain s where s: "perform mact (replicate 22 (Main 0)) mstart = Some s" "mpc s = MTest 0 0" "mq s = Some Queue_new"
    "mrecords s = Map.empty" "{..<20} \<subseteq> Collect (about_to_run s)" using created_value by blast
  then show "reach minit mmove created" using reach_main [OF refl, of 22] by (simp add: created_def)
  have c: "created = s" using s(1) by (simp add: created_def)
  show "mpc created = MTest 0 0" "mq created = Some Queue_new" "mrecords created = Map.empty"
    using c s by simp_all
  show "about_to_run created k" if "k < MAX_TYPE + MAX_TYPE"
    using s(5) that unfolding c by (auto simp: MAX_TYPE_def)
qed

lemma main_init_start: "main_init c \<longleftrightarrow> c = main_start"
  by (cases c) (auto simp: main_init_def cinit_def main_start_def simple_start_def)

text \<open>Steps of \<open>main\<close> alone, before the refusal.\<close>

lemma main_move: "main_next r (mpc s) s = Some t \<Longrightarrow> mmove s t"
  by (rule mmove [of "Main r"]) simp_all

lemma main_alone_refused:
  "perform mact (replicate n (Main r)) s = Some t \<Longrightarrow> refused (mpc s) \<Longrightarrow> refused (mpc t)"
proof (induction n arbitrary: s)
  case (Suc n)
  then obtain u where u: "main_next r (mpc s) s = Some u" "perform mact (replicate n (Main r)) u = Some t"
    by (auto simp: bind_eq_Some_conv simp del: main_next.simps)
  from refused_stays [OF main_move [OF u(1)] Suc.prems(2)] show ?case by (rule Suc.IH [OF u(2)])
qed simp

lemma main_alone:
  "perform mact (replicate n (Main r)) s = Some t \<Longrightarrow> main_inv s \<Longrightarrow> untouched s \<Longrightarrow> \<not> refused (mpc t) \<Longrightarrow>
   threads_of t = threads_of s"
proof (induction n arbitrary: s)
  case (Suc n)
  then obtain u where u: "main_next r (mpc s) s = Some u" "perform mact (replicate n (Main r)) u = Some t"
    by (auto simp: bind_eq_Some_conv simp del: main_next.simps)
  have nr: "\<not> refused (mpc u)" using main_alone_refused [OF u(2)] Suc.prems(4) by blast
  have "scan_inv (mpc s) s" using Suc.prems(2) by (simp add: main_inv_def)
  from main_next_quiet [OF u(1) this Suc.prems(3) nr] have q: "threads_of u = threads_of s" "untouched u" by simp_all
  have "main_inv u" by (rule round.step_inv [OF Suc.prems(2) main_move [OF u(1)]])
  with Suc.IH [OF u(2)] q Suc.prems(4) show ?case by simp
qed simp

lemma created_image: "threads_of created = main_start"
proof -
  have m: "minit mstart" by (simp add: minit_def)
  note i = threads.init_inv [OF m] threads.init_sim [OF m]
  have "\<not> refused (mpc created)" by (auto simp: created_facts(2) refused_def)
  moreover have "perform mact (replicate 22 (Main 0)) mstart = Some created"
    using created_value by (auto simp: created_def)
  ultimately have "threads_of created = threads_of mstart" using main_alone i(1) by blast
  then show ?thesis using i(2) main_init_start by simp
qed

lemma start_workers:
  "n \<le> MAX_TYPE + MAX_TYPE \<Longrightarrow> \<exists>s. reach minit mmove s \<and> threads_of s = main_start \<and> mpc s = MTest 0 0 \<and>
     mq s = Some Queue_new \<and>
     (\<forall>k < MAX_TYPE + MAX_TYPE. if k < n then working s k Loop else about_to_run s k)"
proof (induction n)
  case 0
  show ?case using created_facts created_image by (intro exI [of _ created]) simp
next
  case (Suc n)
  then have n: "n < MAX_TYPE + MAX_TYPE" by simp
  with Suc obtain s where s: "reach minit mmove s" "threads_of s = main_start" "mpc s = MTest 0 0" "mq s = Some Queue_new"
    "\<And>k. k < MAX_TYPE + MAX_TYPE \<Longrightarrow> if k < n then working s k Loop else about_to_run s k" by auto
  from s(5) [OF n] obtain ob where ob: "objs s n = Some ob" "\<not> mExitPending ob" "wks s n = Begin"
    by (auto simp: about_to_run_def split: option.splits)
  have "records (threads_of s) = Map.empty" using s(2) by (simp add: main_start_def simple_start_def)
  then have "mrecords s NULL = None" by (simp add: threads_of_def)
  let ?t = "s\<lparr>objs := (objs s)(n := Some (ob\<lparr>mRunning := True\<rparr>)), wks := (wks s)(n := Loop)\<rparr>"
  have "reach minit mmove ?t" by (rule worker_starts [OF s(1) \<open>mrecords s NULL = None\<close> ob])
  moreover have "threads_of ?t = main_start" using s(2) by (simp add: threads_of_def)
  moreover have "if k < Suc n then working ?t k Loop else about_to_run ?t k" if "k < MAX_TYPE + MAX_TYPE" for k
    using s(5) [OF that] ob by (cases "k = n") (auto simp: working_def about_to_run_def split: if_splits)
  ultimately show ?case using s(3,4) by (intro exI [of _ ?t]) simp
qed

lemma at_work_start: "\<exists>s. reach minit mmove s \<and> at_work s main_start"
proof -
  from start_workers [of "MAX_TYPE + MAX_TYPE"] obtain s where s: "reach minit mmove s" "threads_of s = main_start"
    "mpc s = MTest 0 0" "mq s = Some Queue_new"
    "\<And>k. k < MAX_TYPE + MAX_TYPE \<Longrightarrow> working s k Loop" by auto
  moreover have "\<not> over main_start k" if "k < MAX_TYPE + MAX_TYPE" for k
    using that by (auto simp: over_def main_start_def simple_start_def)
  ultimately show ?thesis by (intro exI [of _ s]) (simp add: at_work_def)
qed

text \<open>Every step of the threads is one of the program.\<close>

lemma many_null: "many_inv n c \<Longrightarrow> records c NULL = None"
proof -
  assume "many_inv n c"
  then have "records_ok (cq c) (records c)" by (simp add: many_inv_def)
  from records_okD(5) [OF this] show ?thesis by blast
qed

lemma lift_consuming:
  assumes r: "reach minit mmove s" and w: "at_work s c" and inv: "many_inv MAX_TYPE c" "many_inv MAX_TYPE c'"
    and i: "i < MAX_TYPE" "consume (cq c) (records c) (consumers c i) = Some (pc, q', mem')"
    and c': "c' = c\<lparr>cq := q', records := mem', consumers := (consumers c)(i := pc)\<rparr>"
  shows "\<exists>t. reach minit mmove t \<and> at_work t c'"
proof (cases "over c i")
  case True
  then obtain at where "consumers c i = CStop at" using i(1) by (auto simp: over_def)
  with i(2) have "pc = CStop at" "q' = cq c" "mem' = records c" by simp_all
  with \<open>consumers c i = CStop at\<close> have "c' = c" using c' by (simp add: fun_upd_idem)
  with r w show ?thesis by auto
next
  case False
  from w obtain q where q: "mq s = Some q" and im: "threads_of s = c" by (auto simp: at_work_def)
  then have c: "cq c = q" "records c = mrecords s" "consumers c = mconsumers s" by (auto simp: threads_of_def)
  let ?s1 = "s\<lparr>mq := Some q', mrecords := mem', mconsumers := (mconsumers s)(i := pc)\<rparr>"
  have im1: "threads_of ?s1 = c'" using im c' by (auto simp: threads_of_def)
  have n: "mrecords s NULL = None" "mrecords ?s1 NULL = None" using many_null [OF inv(1)] many_null [OF inv(2)] c c' by auto
  have l: "loop_next i NULL NULL q s = Some (consumer_result pc, ?s1)"
    using i c by (simp add: loop_next_def del: consume.simps)
  have "over c' i \<longleftrightarrow> consumer_result pc = Some False" using i(1) by (cases pc) (simp_all add: c' over_consumer)
  moreover have "over c' j \<longleftrightarrow> over c j" if "j \<noteq> i" for j using that by (cases "j < MAX_TYPE") (simp_all add: c' over_consumer)
  ultimately show ?thesis
    by (intro loop_move [OF r w _ False n _ q l im1]) (use i(1) in \<open>simp_all add: fresh_block_def\<close>)
qed

lemma lift_producing:
  assumes r: "reach minit mmove s" and w: "at_work s c" and inv: "many_inv MAX_TYPE c'" "producers_inv c"
    and fr: "records c m = None" "fresh_block b (cq c)"
    and p: "produce m b (cq c) (records c) (producers c j) = Some (Returned pc (q', mem'))"
    and c': "c' = c\<lparr>cq := q', records := mem', producers := (producers c)(j := pc)\<rparr>"
  shows "\<exists>t. reach minit mmove t \<and> at_work t c'"
proof (cases "MAX_TYPE \<le> j \<or> over c (MAX_TYPE + j)")
  case True
  then obtain pr where "producers c j = PStop pr" using producers_invD(2) [OF inv(2)] by (auto simp: over_def)
  with p have "pc = PStop pr" "q' = cq c" "mem' = records c" by simp_all
  with \<open>producers c j = PStop pr\<close> have "c' = c" using c' by (simp add: fun_upd_idem)
  with r w show ?thesis by auto
next
  case False
  from w obtain q where q: "mq s = Some q" and im: "threads_of s = c" by (auto simp: at_work_def)
  then have c: "cq c = q" "records c = mrecords s" "producers c = mproducers s" by (auto simp: threads_of_def)
  let ?s1 = "s\<lparr>mq := Some q', mrecords := mem', mproducers := (mproducers s)(j := pc)\<rparr>"
  have im1: "threads_of ?s1 = c'" using im c' by (auto simp: threads_of_def)
  have n: "mrecords s m = None" "mrecords ?s1 NULL = None" "fresh_block b q" using many_null [OF inv(1)] c c' fr by auto
  have l: "loop_next (MAX_TYPE + j) m b q s = Some (producer_result pc, ?s1)"
    using p c by (simp add: loop_next_def del: produce.simps)
  have "over c' (MAX_TYPE + j) \<longleftrightarrow> producer_result pc = Some False" by (cases pc) (simp_all add: c' over_producer)
  moreover have "over c' k \<longleftrightarrow> over c k" if "k \<noteq> MAX_TYPE + j" for k
    using that by (cases "k < MAX_TYPE") (simp_all add: c' over_producer)
  ultimately show ?thesis
    by (intro loop_move [OF r w _ _ n q l im1]) (use False in simp_all)
qed

lemma lift_run:
  "reach main_init (cstep MAX_TYPE) c \<Longrightarrow> \<exists>s. reach minit mmove s \<and> at_work s c"
proof (induction rule: reach.induct)
  case (reach_init c)
  then show ?case using at_work_start main_init_start by simp
next
  case (reach_step c c')
  then obtain s where s: "reach minit mmove s" "at_work s c" by blast
  have inv: "producers_inv c" "many_inv MAX_TYPE c" using main_sys.reach_inv [OF reach_step.hyps(1)] by blast+
  have inv': "many_inv MAX_TYPE c'" using many_inv_step [OF inv(2) reach_step.hyps(2)] .
  from reach_step.hyps(2) show ?case
  proof cases
    case (producing m b j pc q' mem')
    from lift_producing [OF s inv' inv(1) producing(2,3,4,1)] show ?thesis .
  next
    case (consuming i pc q' mem')
    from lift_consuming [OF s inv(2) inv' consuming(2,3,1)] show ?thesis .
  qed
qed

text \<open>
  C26 (equivalence): before \<open>main\<close> makes the queue refuse new data, what the queue, the records and the
  threads can be in a round of \<open>main\<close> is exactly what they can be in the system of ten consumers and
  ten producers that run freely: the workers and the waiting loop neither add a behaviour nor take
  one away.
\<close>

theorem round_exact:
  "(\<exists>s. reach minit mmove s \<and> \<not> refused (mpc s) \<and> threads_of s = c) \<longleftrightarrow> reach main_init (cstep MAX_TYPE) c"
proof
  assume "\<exists>s. reach minit mmove s \<and> \<not> refused (mpc s) \<and> threads_of s = c"
  then show "reach main_init (cstep MAX_TYPE) c" using threads.reach_sim [OF reach_rmove] by blast
next
  assume "reach main_init (cstep MAX_TYPE) c"
  from lift_run [OF this] obtain s where "reach minit mmove s" "at_work s c" by blast
  moreover from this have "\<not> refused (mpc s)" "threads_of s = c" by (auto simp: at_work_def refused_def)
  ultimately show "\<exists>s. reach minit mmove s \<and> \<not> refused (mpc s) \<and> threads_of s = c" by blast
qed

end
