(* ===== verification/QueueMain_End.thy ===== *)
theory QueueMain_End
  imports QueueMain_Threads
begin

text \<open>
  The end of a round of \<open>main\<close> in \<open>QueueSimple.cpp\<close>: it stops waiting when the producers alone are
  done, and deletes the queue under a consumer that is still using it.
\<close>

section \<open>The last record is still queued\<close>

text \<open>All producers have ended; the tenth consumer has yet to take the last record.\<close>

lemma last_record_queued:
  "\<exists>w. reach main_init (cstep MAX_TYPE)
    (sys (one_element 10 w) (leftover 10) (ended_producers 10) (ended_consumers 9))"
proof -
  let ?pr = "\<lparr>mType = 9, cnt = MAX_CNT, allCnt = MAX_CNT - 1\<rparr>"
  obtain w0 where "reach main_init (cstep MAX_TYPE)
      (sys (no_element w0) (leftover 9) (ended_producers 9) (ended_consumers 9))"
    using run_all [of 9] by (auto simp: MAX_TYPE_def)
  from run_records [OF this, of 9 9 9 10 999999]
  obtain w1 where w1: "reach main_init (cstep MAX_TYPE) (sys (no_element w1) (leftover 9)
      ((ended_producers 9)(9 := PPush ?pr)) (ended_consumers 9))"
    by (auto simp: ended_producers_def ended_consumers_def leftover_def main_start_def MAX_TYPE_def MAX_CNT_def)
  let ?R = "(leftover 9)(10 \<mapsto> \<lparr>ttype = 9, tvalue = MAX_CNT\<rparr>)"
  have "reach main_init (cstep MAX_TYPE) (sys (one_element 10 (w1 @ [SignalGet])) ?R
      ((ended_producers 9)(9 := pushed_on 10 True ?pr)) (ended_consumers 9))"
    using run_push [OF w1, of 9 ?pr 10] by (simp add: leftover_def)
  from run_show [OF this] have "reach main_init (cstep MAX_TYPE) (sys (one_element 10 (w1 @ [SignalGet])) ?R
      ((ended_producers 9)(9 := counted (?pr\<lparr>allCnt := MAX_CNT\<rparr>))) (ended_consumers 9))"
    by (simp add: leftover_def)
  moreover have "counted (?pr\<lparr>allCnt := MAX_CNT\<rparr>) = PStop \<lparr>mType = 9, cnt = MAX_CNT + 1, allCnt = MAX_CNT\<rparr>"
    by (simp add: counted_cases)
  moreover have "?R = leftover 10" by (auto simp: leftover_def fun_eq_iff)
  moreover have "(ended_producers 9)(9 := PStop \<lparr>mType = 9, cnt = MAX_CNT + 1, allCnt = MAX_CNT\<rparr>) = ended_producers 10"
    by (auto simp: ended_producers_def fun_eq_iff)
  ultimately show ?thesis by metis
qed

section \<open>The producers' workers leave\<close>

definition stopped :: "msys \<Rightarrow> nat \<Rightarrow> bool" where
  "stopped s k \<longleftrightarrow> (\<exists>ob. objs s k = Some ob \<and> \<not> mRunning ob) \<and> wks s k = Leave"

lemma worker_leaves:
  assumes r: "reach minit mmove s" and n: "mrecords s NULL = None" and k: "working s k (Check False)"
  shows "\<exists>ob. reach minit mmove (s\<lparr>objs := (objs s)(k := Some ob), wks := (wks s)(k := Leave)\<rparr>) \<and> \<not> mRunning ob"
proof -
  from k obtain ob where ob: "objs s k = Some ob" "wks s k = Check False" by (auto simp: working_def)
  let ?ob = "ob\<lparr>mExitPending := True, mRunning := False, mThread := None\<rparr>"
  have "reach minit mmove (s\<lparr>objs := (objs s)(k := Some ?ob), wks := (wks s)(k := Leave)\<rparr>)"
    by (rule worker_move [OF r n ob(1), where cbs = "[]" and bc = True]) (simp_all add: ob)
  then show ?thesis by (intro exI [of _ ?ob]) simp
qed

lemma producers_leave:
  assumes r: "reach minit mmove s" and w: "at_work s c" and n: "records c NULL = None"
    and over: "\<And>j. j < MAX_TYPE \<Longrightarrow> over c (MAX_TYPE + j)"
  shows "n \<le> MAX_TYPE \<Longrightarrow> \<exists>t. reach minit mmove t \<and> threads_of t = c \<and> mpc t = MTest 0 0 \<and> mq t \<noteq> None \<and>
    (\<forall>j < MAX_TYPE. if j < n then stopped t (MAX_TYPE + j) else working t (MAX_TYPE + j) (Check False)) \<and>
    (\<forall>k < MAX_TYPE. objs t k = objs s k \<and> wks t k = wks s k)"
proof (induction n)
  case 0
  have "working s (MAX_TYPE + j) (Check False)" if "j < MAX_TYPE" for j
  proof -
    have "working s (MAX_TYPE + j) (if over c (MAX_TYPE + j) then Check False else Loop)"
      using w that by (simp add: at_work_def)
    with over [OF that] show ?thesis by simp
  qed
  then show ?case using r w by (intro exI [of _ s]) (simp add: at_work_def)
next
  case (Suc n)
  then have n': "n < MAX_TYPE" by simp
  with Suc obtain t where t: "reach minit mmove t" "threads_of t = c" "mpc t = MTest 0 0" "mq t \<noteq> None"
    "\<And>j. j < MAX_TYPE \<Longrightarrow> if j < n then stopped t (MAX_TYPE + j) else working t (MAX_TYPE + j) (Check False)"
    "\<And>k. k < MAX_TYPE \<Longrightarrow> objs t k = objs s k \<and> wks t k = wks s k" by auto
  have null: "mrecords t NULL = None" using t(2) n by (auto simp: threads_of_def)
  have "working t (MAX_TYPE + n) (Check False)" using t(5) [OF n'] by simp
  from worker_leaves [OF t(1) null this] obtain ob where
    ob: "reach minit mmove (t\<lparr>objs := (objs t)(MAX_TYPE + n := Some ob), wks := (wks t)(MAX_TYPE + n := Leave)\<rparr>)"
      "\<not> mRunning ob" by blast
  let ?u = "t\<lparr>objs := (objs t)(MAX_TYPE + n := Some ob), wks := (wks t)(MAX_TYPE + n := Leave)\<rparr>"
  have "if j < Suc n then stopped ?u (MAX_TYPE + j) else working ?u (MAX_TYPE + j) (Check False)" if "j < MAX_TYPE" for j
    using t(5) [OF that] ob(2) by (cases "j = n") (auto simp: stopped_def working_def split: if_splits)
  moreover have "threads_of ?u = c" using t(2) by (simp add: threads_of_def)
  moreover have "objs ?u k = objs s k \<and> wks ?u k = wks s k" if "k < MAX_TYPE" for k
    using t(6) [OF that] that n' by simp
  ultimately show ?case using ob(1) t(3,4) by (intro exI [of _ ?u]) simp
qed

section \<open>The waiting loop ends\<close>

lemma main_reach: "reach minit mmove s \<Longrightarrow> main_next 0 (mpc s) s = Some t \<Longrightarrow> reach minit mmove t"
  by (erule reach_step) (rule main_move)

text \<open>One pass finds all producers stopped, whatever the consumers do.\<close>

lemma pass_finds_producers:
  assumes r: "reach minit mmove s" and s: "mpc s = MTest 0 0"
    and alive: "\<And>k. k < MAX_TYPE + MAX_TYPE \<Longrightarrow> objs s k \<noteq> None"
    and stop: "\<And>j. j < MAX_TYPE \<Longrightarrow> stopped s (MAX_TYPE + j)"
  shows "i \<le> MAX_TYPE \<Longrightarrow> \<exists>f com. reach minit mmove (s\<lparr>mpc := MScanP i i com, seen := f\<rparr>) \<and>
    (\<forall>j < i. f (MAX_TYPE + j) = Some Leave)"
proof (induction i)
  case 0
  have "main_next 0 (mpc s) s = Some (s\<lparr>mpc := MScanP 0 0 0, seen := Map.empty\<rparr>)"
    using s by (simp add: main_waits_def MAX_TYPE_def)
  from main_reach [OF r this] show ?case by auto
next
  case (Suc i)
  then have i: "i < MAX_TYPE" by simp
  with Suc obtain f com where f: "reach minit mmove (s\<lparr>mpc := MScanP i i com, seen := f\<rparr>)"
    "\<forall>j < i. f (MAX_TYPE + j) = Some Leave" by auto
  from stop [OF i] obtain ob where ob: "objs s (MAX_TYPE + i) = Some ob" "\<not> mRunning ob" "wks s (MAX_TYPE + i) = Leave"
    by (auto simp: stopped_def)
  let ?f = "f(MAX_TYPE + i \<mapsto> Leave)"
  have "reach minit mmove (s\<lparr>mpc := MScanC i (i + 1) com, seen := ?f\<rparr>)"
    by (rule main_reach [OF f(1)]) (use i ob in \<open>simp add: ask_def isRunning_def\<close>)
  moreover obtain oc where oc: "objs s i = Some oc" using alive [of i] i by auto
  let ?t = "if mRunning oc then s\<lparr>mpc := MScanP (i + 1) (i + 1) com, seen := ?f\<rparr>
    else s\<lparr>mpc := MScanP (i + 1) (i + 1) (com + 1), seen := ?f(i \<mapsto> wks s i)\<rparr>"
  have "main_next 0 (mpc (s\<lparr>mpc := MScanC i (i + 1) com, seen := ?f\<rparr>)) (s\<lparr>mpc := MScanC i (i + 1) com, seen := ?f\<rparr>) = Some ?t"
    using oc by (simp add: ask_def isRunning_def)
  ultimately have t: "reach minit mmove ?t" by (rule main_reach)
  have "(?f(i \<mapsto> wks s i)) (MAX_TYPE + j) = Some Leave" "?f (MAX_TYPE + j) = Some Leave" if "j < Suc i" for j
    using f(2) that i by (auto simp: less_Suc_eq)
  with t show ?case
    by (cases "mRunning oc") (auto simp del: fun_upd_apply)
qed

text \<open>Then \<open>main\<close> refuses new data and deletes the queue.\<close>

lemma main_ends_round:
  assumes r: "reach minit mmove s" and s: "mpc s = MTest 0 0" and q: "mq s \<noteq> None"
    and alive: "\<And>k. k < MAX_TYPE + MAX_TYPE \<Longrightarrow> objs s k \<noteq> None"
    and stop: "\<And>j. j < MAX_TYPE \<Longrightarrow> stopped s (MAX_TYPE + j)"
  shows "\<exists>f. reach minit mmove (s\<lparr>mq := None, mpc := MDel 0, seen := f\<rparr>) \<and>
    (\<forall>j < MAX_TYPE. f (MAX_TYPE + j) = Some Leave)"
proof -
  from pass_finds_producers [OF r s alive stop, of MAX_TYPE] obtain f com where
    f: "reach minit mmove (s\<lparr>mpc := MScanP MAX_TYPE MAX_TYPE com, seen := f\<rparr>)"
      "\<forall>j < MAX_TYPE. f (MAX_TYPE + j) = Some Leave" by auto
  have "reach minit mmove (s\<lparr>mpc := MRefuse, seen := f\<rparr>)"
  proof (cases "com \<ge> MAX_TYPE")
    case True
    show ?thesis by (rule main_reach [OF f(1)]) (use True in simp)
  next
    case False
    have "reach minit mmove (s\<lparr>mpc := MTest MAX_TYPE com, seen := f\<rparr>)"
      by (rule main_reach [OF f(1)]) (use False in simp)
    from main_reach [OF this, of "s\<lparr>mpc := MRefuse, seen := f\<rparr>"] show ?thesis
      by (simp add: main_waits_def)
  qed
  moreover obtain q0 where q0: "mq s = Some q0" using q by auto
  let ?q = "snd (setAllowedNewData 0 0 False q0)"
  have "main_next 0 (mpc (s\<lparr>mpc := MRefuse, seen := f\<rparr>)) (s\<lparr>mpc := MRefuse, seen := f\<rparr>) =
      Some (s\<lparr>mq := Some ?q, mpc := MDelQ, seen := f\<rparr>)"
    using q0 by simp
  ultimately have "reach minit mmove (s\<lparr>mq := Some ?q, mpc := MDelQ, seen := f\<rparr>)" by (rule main_reach)
  from main_reach [OF this, of "s\<lparr>mq := None, mpc := MDel 0, seen := f\<rparr>"]
  have "reach minit mmove (s\<lparr>mq := None, mpc := MDel 0, seen := f\<rparr>)" by simp
  with f(2) show ?thesis by blast
qed

section \<open>The queue is deleted in use\<close>

text \<open>After an undisturbed run \<open>main\<close> is at its test, and the producers are past their loops.\<close>

lemma test_after_run:
  obtains t where "reach minit mmove t" "mpc t = MTest 0 0" "mq t \<noteq> None"
    "mrecords t = leftover 10" "mproducers t = ended_producers 10" "mconsumers t = ended_consumers 9"
    "wks t 9 = Loop" "\<forall>k < MAX_TYPE + MAX_TYPE. objs t k \<noteq> None"
    "\<forall>j < MAX_TYPE. stopped t (MAX_TYPE + j)"
proof -
  obtain w where "reach main_init (cstep MAX_TYPE)
      (sys (one_element 10 w) (leftover 10) (ended_producers 10) (ended_consumers 9))"
    using last_record_queued by blast
  then obtain c where c: "reach main_init (cstep MAX_TYPE) c" "records c = leftover 10"
    "producers c = ended_producers 10" "consumers c = ended_consumers 9" by fastforce
  from lift_run [OF c(1)] obtain s where s: "reach minit mmove s" "at_work s c" by blast
  have "records c NULL = None" using c(2) by (simp add: leftover_def)
  moreover have "over c (MAX_TYPE + j)" if "j < MAX_TYPE" for j
    using that c(3) by (auto simp: over_def ended_producers_def MAX_TYPE_def)
  ultimately obtain t where t: "reach minit mmove t" "threads_of t = c" "mpc t = MTest 0 0" "mq t \<noteq> None"
    "\<And>j. j < MAX_TYPE \<Longrightarrow> stopped t (MAX_TYPE + j)"
    "\<And>k. k < MAX_TYPE \<Longrightarrow> objs t k = objs s k \<and> wks t k = wks s k"
    using producers_leave [OF s, of MAX_TYPE] by auto
  have work: "working s k (if over c k then Check False else Loop)" if "k < MAX_TYPE" for k
    using s(2) that by (simp add: at_work_def)
  have alive: "objs t k \<noteq> None" if k: "k < MAX_TYPE + MAX_TYPE" for k
  proof (cases "k < MAX_TYPE")
    case True
    with work [OF True] t(6) [OF True] show ?thesis by (auto simp: working_def)
  next
    case False
    have "k - MAX_TYPE < MAX_TYPE" using k False by linarith
    from t(5) [OF this] False show ?thesis by (auto simp: stopped_def)
  qed
  have nine: "9 < MAX_TYPE" by (simp add: MAX_TYPE_def)
  have "\<not> over c 9" using c(4) nine by (simp add: over_def ended_consumers_def)
  with work [OF nine] t(6) [OF nine] have "wks t 9 = Loop" by (simp add: working_def)
  moreover have "mrecords t = leftover 10" "mproducers t = ended_producers 10" "mconsumers t = ended_consumers 9"
    using t(2) c(2-4) by (auto simp: threads_of_def)
  ultimately show thesis using t(5) alive by (intro that [of t] t(1,3,4)) auto
qed

text \<open>
  C27 (safety): \<open>main\<close> waits for the producers or the consumers, not for both. After an undisturbed run,
  in which every thread began and every producer pushed its million records and ended, \<open>main\<close> deletes
  the queue while the last record is still queued and the tenth consumer is about to peek at it.
\<close>

theorem main_deletes_in_use:
  "\<exists>s. reach minit mmove s \<and> mpc s = MDel 0 \<and> mq s = None \<and>
     map (seen s) [MAX_TYPE..<MAX_TYPE + MAX_TYPE] = replicate MAX_TYPE (Some Leave) \<and>
     map (mproducers s) [0..<MAX_TYPE] =
       map (\<lambda>k. PStop \<lparr>mType = int k, cnt = MAX_CNT + 1, allCnt = MAX_CNT\<rparr>) [0..<MAX_TYPE] \<and>
     mrecords s 10 = Some \<lparr>ttype = 9, tvalue = MAX_CNT\<rparr> \<and>
     mconsumers s 9 = CPeek \<and> wks s 9 = Loop \<and> use_after_delete s 9"
proof -
  obtain t where t: "reach minit mmove t" "mpc t = MTest 0 0" "mq t \<noteq> None"
    "mrecords t = leftover 10" "mproducers t = ended_producers 10" "mconsumers t = ended_consumers 9"
    "wks t 9 = Loop" "\<forall>k < MAX_TYPE + MAX_TYPE. objs t k \<noteq> None"
    "\<forall>j < MAX_TYPE. stopped t (MAX_TYPE + j)" by (rule test_after_run)
  from main_ends_round [OF t(1-3)] t(8,9) obtain f where
    f: "reach minit mmove (t\<lparr>mq := None, mpc := MDel 0, seen := f\<rparr>)" "\<forall>j < MAX_TYPE. f (MAX_TYPE + j) = Some Leave"
    by blast
  have "map f [MAX_TYPE..<MAX_TYPE + MAX_TYPE] = replicate MAX_TYPE (Some Leave)"
  proof (rule nth_equalityI)
    show "map f [MAX_TYPE..<MAX_TYPE + MAX_TYPE] ! i = replicate MAX_TYPE (Some Leave) ! i"
      if "i < length (map f [MAX_TYPE..<MAX_TYPE + MAX_TYPE])" for i using that f(2) by simp
  qed simp
  moreover have "map (ended_producers 10) [0..<MAX_TYPE] =
      map (\<lambda>k. PStop \<lparr>mType = int k, cnt = MAX_CNT + 1, allCnt = MAX_CNT\<rparr>) [0..<MAX_TYPE]"
    by (simp add: ended_producers_def MAX_TYPE_def)
  moreover have "use_after_delete (t\<lparr>mq := None, mpc := MDel 0, seen := f\<rparr>) 9"
    using t(7) by (simp add: use_after_delete_def)
  ultimately show ?thesis using f(1) t(7)
    by (intro exI [of _ "t\<lparr>mq := None, mpc := MDel 0, seen := f\<rparr>"])
      (simp add: t(4-6) ended_consumers_def leftover_def)
qed

end
