(* ===== verification/Times.thy ===== *)
theory Times
  imports Prelude
begin

text \<open>
  \<open>Times.cpp\<close>: the monotonic clock in nanoseconds, microseconds and milliseconds, with the
  signed 64-bit arithmetic of the code checked. The clock reading is a parameter: \<open>None\<close> is a
  failing \<open>clock_gettime\<close>, whose result the code ignores. On the modelled platform \<open>long\<close> and
  \<open>time_t\<close> have 64 bits.
\<close>

section \<open>Timespecs\<close>

datatype timespec = Timespec (tv_sec: int) (tv_nsec: int)

definition total_ns :: "timespec \<Rightarrow> int" where
  "total_ns t = tv_sec t * 1000000000 + tv_nsec t"

text \<open>What \<open>clock_gettime\<close> returns on success, and what a timed wait accepts.\<close>

definition normalized :: "timespec \<Rightarrow> bool" where
  "normalized t \<longleftrightarrow> 0 \<le> tv_nsec t \<and> tv_nsec t < 1000000000"

text \<open>Timespecs are ordered by seconds, then by nanoseconds.\<close>

instantiation timespec :: linorder
begin

definition less_eq_timespec :: "timespec \<Rightarrow> timespec \<Rightarrow> bool" where
  "s \<le> t \<longleftrightarrow> tv_sec s < tv_sec t \<or> (tv_sec s = tv_sec t \<and> tv_nsec s \<le> tv_nsec t)"

definition less_timespec :: "timespec \<Rightarrow> timespec \<Rightarrow> bool" where
  "(s :: timespec) < t \<longleftrightarrow> s \<le> t \<and> \<not> t \<le> s"

instance
  by intro_classes (auto simp: less_eq_timespec_def less_timespec_def intro: timespec.expand)

end

lemma normalized_order:
  "normalized s \<Longrightarrow> normalized t \<Longrightarrow> s \<le> t \<longleftrightarrow> total_ns s \<le> total_ns t"
  by (auto simp: normalized_def less_eq_timespec_def total_ns_def)

lemma normalized_eq:
  "normalized s \<Longrightarrow> normalized t \<Longrightarrow> s = t \<longleftrightarrow> total_ns s = total_ns t"
  using normalized_order [of s t] normalized_order [of t s] by (auto intro: antisym)

section \<open>The clock\<close>

definition clock_ts :: "timespec option \<Rightarrow> timespec" where
  "clock_ts r = (case r of None \<Rightarrow> Timespec 0 0 | Some t \<Rightarrow> t)"

definition getSystemTimeNs :: "timespec option \<Rightarrow> int option" where
  "getSystemTimeNs r = do {
     let t = clock_ts r;
     s \<leftarrow> i64_mul (tv_sec t) 1000000000;
     mono_ns \<leftarrow> i64_add s (tv_nsec t);
     Some mono_ns
   }"

definition getSystemTimeMs :: "timespec option \<Rightarrow> int option" where
  "getSystemTimeMs r = do {
     let t = clock_ts r;
     s \<leftarrow> i64_mul (tv_sec t) 1000000000;
     mono_ns \<leftarrow> i64_add s (tv_nsec t);
     Some (mono_ns sdiv 1000000)
   }"

definition getSystemTimeUs :: "timespec option \<Rightarrow> int option" where
  "getSystemTimeUs r = do {
     let t = clock_ts r;
     s \<leftarrow> i64_mul (tv_sec t) 1000000000;
     mono_ns \<leftarrow> i64_add s (tv_nsec t);
     Some (mono_ns sdiv 1000)
   }"

text \<open>
  A clock that counts units of \<open>scale\<close> nanoseconds: exact as long as the nanoseconds fit 64
  bits, undefined beyond.
\<close>

locale scaled_clock =
  fixes reading :: "timespec option \<Rightarrow> int option" and scale :: int
  assumes scale_pos: "0 < scale"
    and reading_exact: "normalized t \<Longrightarrow> 0 \<le> tv_sec t \<Longrightarrow>
      reading (Some t) = (if total_ns t \<le> INT64_MAX then Some (total_ns t div scale) else None)"
    and reading_failed: "reading None = Some 0"
begin

lemma reading_nonneg:
  "normalized t \<Longrightarrow> 0 \<le> tv_sec t \<Longrightarrow> reading (Some t) = Some n \<Longrightarrow> 0 \<le> n"
  using scale_pos
  by (auto simp: reading_exact total_ns_def normalized_def pos_imp_zdiv_nonneg_iff split: if_splits)

lemma reading_mono:
  assumes "normalized s" "0 \<le> tv_sec s" "normalized t" "s \<le> t"
    and "reading (Some s) = Some m" "reading (Some t) = Some n"
  shows "m \<le> n"
proof -
  have "0 \<le> tv_sec t" using assms(2,4) by (auto simp: less_eq_timespec_def)
  then show ?thesis
    using assms normalized_order [of s t] scale_pos
    by (auto simp: reading_exact intro: zdiv_mono1 split: if_splits)
qed

lemma reading_resolution:
  assumes "normalized t" "0 \<le> tv_sec t" "reading (Some t) = Some n"
  shows "n * scale \<le> total_ns t \<and> total_ns t < (n + 1) * scale"
proof -
  have n: "n = total_ns t div scale" using assms by (auto simp: reading_exact split: if_splits)
  have "total_ns t = n * scale + total_ns t mod scale" by (simp add: n)
  moreover have "0 \<le> total_ns t mod scale" "total_ns t mod scale < scale" using scale_pos by simp_all
  ultimately show ?thesis by (simp add: distrib_right)
qed

end

lemma total_ns_range:
  assumes "normalized t" and "0 \<le> tv_sec t"
  shows "0 \<le> total_ns t" "tv_sec t * 1000000000 \<le> total_ns t"
  using assms by (auto simp: total_ns_def normalized_def)

lemma mono_ns_exact:
  assumes "normalized t" and "0 \<le> tv_sec t"
  shows "Option.bind (i64_mul (tv_sec t) 1000000000) (\<lambda>s. i64_add s (tv_nsec t)) =
    (if total_ns t \<le> INT64_MAX then Some (total_ns t) else None)"
  using total_ns_range [OF assms] assms
  by (auto simp: i64_mul_def i64_add_def in_i64_def INT64_MIN_def INT64_MAX_def total_ns_def)

lemma mono_ns_scaled:
  assumes "normalized t" and "0 \<le> tv_sec t"
  shows "Option.bind (i64_mul (tv_sec t) 1000000000) (\<lambda>s. Option.bind (i64_add s (tv_nsec t)) f) =
    (if total_ns t \<le> INT64_MAX then f (total_ns t) else None)"
  using mono_ns_exact [OF assms] by (metis Option.bind_assoc bind.bind_lunit bind.bind_lzero)

lemmas clock_reading = getSystemTimeNs_def getSystemTimeUs_def getSystemTimeMs_def clock_ts_def

interpretation ns: scaled_clock getSystemTimeNs 1
  by unfold_locales
    (simp_all add: clock_reading mono_ns_exact total_ns_range, simp add: machine_simps)

interpretation us: scaled_clock getSystemTimeUs 1000
  by unfold_locales
    (simp_all add: clock_reading mono_ns_scaled total_ns_range, simp add: machine_simps)

interpretation ms: scaled_clock getSystemTimeMs 1000000
  by unfold_locales
    (simp_all add: clock_reading mono_ns_scaled total_ns_range, simp add: machine_simps)

text \<open>
  On a normalized nonnegative reading whose nanoseconds fit 64 bits (292
  years), the three clocks agree: microseconds and milliseconds are the nanoseconds rounded
  down. They never go back when the clock does not. Beyond 64 bits all three are undefined,
  and a failing system call reads as 0.
\<close>

theorem system_time_correct:
  assumes "normalized s" and "0 \<le> tv_sec s" and "normalized t" and "s \<le> t"
  shows "(total_ns t \<le> INT64_MAX \<longrightarrow>
      getSystemTimeNs (Some t) = Some (total_ns t) \<and>
      getSystemTimeUs (Some t) = Some (total_ns t div 1000) \<and>
      getSystemTimeMs (Some t) = Some (total_ns t div 1000000)) \<and>
    (INT64_MAX < total_ns t \<longrightarrow> getSystemTimeNs (Some t) = None \<and>
      getSystemTimeUs (Some t) = None \<and> getSystemTimeMs (Some t) = None) \<and>
    (\<forall>m n. getSystemTimeMs (Some s) = Some m \<longrightarrow> getSystemTimeMs (Some t) = Some n \<longrightarrow> m \<le> n) \<and>
    getSystemTimeNs None = Some 0"
proof -
  have "0 \<le> tv_sec t" using assms(2,4) by (auto simp: less_eq_timespec_def)
  then show ?thesis
    using ns.reading_exact [OF assms(3)] us.reading_exact [OF assms(3)]
      ms.reading_exact [OF assms(3)] ms.reading_mono [OF assms] ns.reading_failed
    by simp
qed

theorem system_time_correct_witness:
  "getSystemTimeMs (Some (Timespec 5 999999999)) = Some 5999 \<and>
   getSystemTimeUs (Some (Timespec 5 999999999)) = Some 5999999"
  using system_time_correct [of "Timespec 5 0" "Timespec 5 999999999"]
  by (simp add: normalized_def less_eq_timespec_def total_ns_def INT64_MAX_def)

end
