(* ===== verification/QueueSimple_Time.thy ===== *)
theory QueueSimple_Time
  imports QueueSimple Times
begin

text \<open>
  The rest of \<open>QueueSimple.cpp\<close>: what \<open>readyToRun\<close> and \<open>readyToExit\<close> of both thread classes measure
  and print, and the three sample functions.
\<close>

section \<open>Timing\<close>

record Timing =
  mStartTimeNs :: int
  mStopTimeNs :: int

definition Simple_readyToRun :: "timespec option \<Rightarrow> Timing \<Rightarrow> Timing option" where
  "Simple_readyToRun clock t = map_option (\<lambda>n. t\<lparr>mStartTimeNs := n\<rparr>) (getSystemTimeNs clock)"

text \<open>The number printed as nanoseconds per element, and the state.\<close>

definition Simple_readyToExit :: "timespec option \<Rightarrow> Timing \<Rightarrow> (int \<times> Timing) option" where
  "Simple_readyToExit clock t =
     Option.bind (getSystemTimeNs clock) (\<lambda>n.
       let t1 = t\<lparr>mStopTimeNs := n\<rparr>
       in map_option (\<lambda>d. (d sdiv MAX_CNT, t1)) (i64_sub (mStopTimeNs t1) (mStartTimeNs t1)))"

section \<open>The sample queues\<close>

definition unsorted_mode :: Queue where "unsorted_mode = Queue_new"

definition sorted_mode :: "memory \<Rightarrow> Queue" where
  "sorted_mode mem = Queue_new_sorted True (Some (cmp_int_ptr mem))"

definition sorted2_mode :: "memory \<Rightarrow> Queue" where
  "sorted2_mode mem = Queue_new_max_sorted 3 True (Some (cmp_int_ptr mem))"

section \<open>What they give\<close>

text \<open>
  The queue of the last sample function holds three records at most and hands them out by value,
  smallest first; that of the second is ordered likewise, that of the first not at all.
\<close>

lemma sample_queues:
  "queue_ok (sorted2_mode mem)" "unat (mCapability (sorted2_mode mem)) = 3"
  "order_of (sorted2_mode mem) = Some (True, cmp_int_ptr mem)"
  "queue_ok (sorted_mode mem)" "order_of (sorted_mode mem) = Some (True, cmp_int_ptr mem)"
  "queue_ok unsorted_mode" "order_of unsorted_mode = None"
  by (simp_all add: sorted2_mode_def sorted_mode_def unsorted_mode_def new_as_max_sorted queue_new_facts)

text \<open>
  With a clock that does not go back, what a thread prints when it ends is its running time divided
  by \<open>MAX_CNT\<close>, rounded down, and not negative; no subtraction overflows. A consumer divides by
  \<open>MAX_CNT\<close> too, however many records it took.
\<close>

theorem printed_time:
  assumes "normalized s" and "0 \<le> tv_sec s" and "normalized t" and "s \<le> t" and "total_ns t \<le> INT64_MAX"
  shows "\<exists>a b. Simple_readyToRun (Some s) z = Some a \<and>
    Simple_readyToExit (Some t) a = Some ((total_ns t - total_ns s) div MAX_CNT, b) \<and>
    0 \<le> (total_ns t - total_ns s) div MAX_CNT"
proof -
  have t: "0 \<le> tv_sec t" using assms(2,4) by (auto simp: less_eq_timespec_def)
  have le: "total_ns s \<le> total_ns t" using assms(1,3,4) normalized_order by blast
  have nn: "0 \<le> total_ns s" using assms(1,2) by (simp add: total_ns_def normalized_def)
  have "getSystemTimeNs (Some s) = Some (total_ns s)" "getSystemTimeNs (Some t) = Some (total_ns t)"
    using ns.reading_exact [OF assms(1,2)] ns.reading_exact [OF assms(3) t] le assms(5) by simp_all
  then show ?thesis using le nn assms(5)
    by (simp add: Simple_readyToRun_def Simple_readyToExit_def Let_def i64_sub_def machine_limits MAX_CNT_def
        pos_imp_zdiv_nonneg_iff)
qed

theorem printed_time_witness:
  "\<exists>a b. Simple_readyToRun (Some (Timespec 5 0)) \<lparr>mStartTimeNs = 0, mStopTimeNs = 0\<rparr> = Some a \<and>
    Simple_readyToExit (Some (Timespec 7 500000)) a = Some (2000, b)"
  using printed_time [of "Timespec 5 0" "Timespec 7 500000"]
  by (simp add: normalized_def less_eq_timespec_def total_ns_def INT64_MAX_def MAX_CNT_def)

end
