(* ===== verification/Poll.thy ===== *)
theory Poll
  imports Error_Code
begin

text \<open>
  \<open>Poll.h\<close>/\<open>Poll.cpp\<close>: the array of polled descriptors on the memory \<open>realloc\<close> returns, the
  event masks, the timeout \<open>wait\<close> passes on, and the control socket with its counter of pending
  wake-ups. System calls (\<open>socketpair\<close>, \<open>realloc\<close>, \<open>read\<close>, \<open>write\<close>) are parameters.
\<close>

unbundle bit_operations_syntax

section \<open>Data\<close>

record pollfd =
  fd :: int
  events :: "16 word"
  revents :: "16 word"

definition POLLIN :: "16 word" where "POLLIN = 0x001"
definition POLLPRI :: "16 word" where "POLLPRI = 0x002"
definition POLLOUT :: "16 word" where "POLLOUT = 0x004"
definition POLLERR :: "16 word" where "POLLERR = 0x008"
definition POLLHUP :: "16 word" where "POLLHUP = 0x010"
definition POLLNVAL :: "16 word" where "POLLNVAL = 0x020"
definition POLLRDNORM :: "16 word" where "POLLRDNORM = 0x040"

lemmas poll_bits = POLLIN_def POLLPRI_def POLLOUT_def POLLERR_def POLLHUP_def POLLNVAL_def
  POLLRDNORM_def

text \<open>
  The object. \<open>mFds\<close> is the allocated array, \<open>None\<close> when the pointer is null; \<open>sock\<close> counts the
  bytes written to the control socket and not yet read. \<open>mFlushing\<close> holds 0 or 1.
\<close>

record Poll =
  mControlReadFd :: int
  mControlWriteFd :: int
  mFds :: "pollfd list option"
  mFdsMaxCnt :: nat
  mFdsCnt :: nat
  mControllable :: bool
  mControlPending :: int
  mFlushing :: bool
  mWaiting :: int
  sock :: nat

definition INCREASE_ACTIVE_FDS :: nat where "INCREASE_ACTIVE_FDS = 8"

text \<open>An access of \<open>mFds[i]\<close>: a null pointer or an index beyond the allocation is a fault.\<close>

definition slot :: "Poll \<Rightarrow> nat \<Rightarrow> pollfd option" where
  "slot p i = Option.bind (mFds p) (\<lambda>mem. if i < length mem then Some (mem ! i) else None)"

definition set_slot :: "nat \<Rightarrow> pollfd \<Rightarrow> Poll \<Rightarrow> Poll option" where
  "set_slot i e p = Option.bind (mFds p)
     (\<lambda>mem. if i < length mem then Some (p\<lparr>mFds := Some (mem[i := e])\<rparr>) else None)"

section \<open>Finding a descriptor\<close>

text \<open>
  The loop \<open>for (i = 0; i < mFdsCnt; i++)\<close> that looks for an entry satisfying \<open>P\<close>: \<open>n\<close> entries
  remain from index \<open>i\<close>. \<open>Some None\<close> is the end of the loop.
\<close>

fun find_loop :: "(pollfd \<Rightarrow> bool) \<Rightarrow> Poll \<Rightarrow> nat \<Rightarrow> nat \<Rightarrow> nat option option" where
  "find_loop P p i 0 = Some None"
| "find_loop P p i (Suc n) =
     Option.bind (slot p i) (\<lambda>e. if P e then Some (Some i) else find_loop P p (Suc i) n)"

definition findFd :: "int \<Rightarrow> Poll \<Rightarrow> nat option option" where
  "findFd x p = find_loop (\<lambda>e. fd e = x) p 0 (mFdsCnt p)"

text \<open>
  \<open>addFd\<close>: \<open>grown\<close> is the outcome of \<open>realloc\<close>, the (uninitialised) entries it adds behind the
  old ones, or \<open>None\<close> when it fails; \<open>mFds\<close> is overwritten by its result either way.
\<close>

definition addFd :: "pollfd list option \<Rightarrow> int \<Rightarrow> Poll \<Rightarrow> (int \<times> Poll) option" where
  "addFd grown x p =
     Option.bind (findFd x p) (\<lambda>pfd.
       case pfd of
         Some _ \<Rightarrow> Some (error_value NO_ERROR, p)
       | None \<Rightarrow>
           let p1 = (if mFdsCnt p + 1 > mFdsMaxCnt p
                     then p\<lparr>mFdsMaxCnt := mFdsMaxCnt p + INCREASE_ACTIVE_FDS,
                            mFds := map_option (\<lambda>g. (case mFds p of None \<Rightarrow> [] | Some mem \<Rightarrow> mem) @ g) grown\<rparr>
                     else p)
           in if mFdsCnt p + 1 > mFdsMaxCnt p \<and> mFds p1 = None
              then Some (error_value ERROR_NO_MEMORY, p1)
              else map_option (\<lambda>p2. (error_value NO_ERROR, p2\<lparr>mFdsCnt := mFdsCnt p2 + 1\<rparr>))
                (set_slot (mFdsCnt p1)
                  \<lparr>fd = x, events = POLLERR OR POLLNVAL OR POLLHUP, revents = 0\<rparr> p1))"

text \<open>
  \<open>removeFd\<close>: \<open>memmove(mFds + i * sizeof(struct pollfd), mFds + (i + 1) * sizeof(struct pollfd),
  1)\<close>. The pointers already count entries of 8 bytes, so it moves one byte, the lowest of
  \<open>fd\<close>, from entry \<open>8 (i + 1)\<close> to entry \<open>8 i\<close>.
\<close>

definition sizeof_pollfd :: nat where "sizeof_pollfd = 8"

definition first_byte :: "pollfd \<Rightarrow> int" where "first_byte e = fd e mod 256"

definition set_first_byte :: "int \<Rightarrow> pollfd \<Rightarrow> pollfd" where
  "set_first_byte b e = e\<lparr>fd := fd e div 256 * 256 + b\<rparr>"

definition move_byte :: "nat \<Rightarrow> nat \<Rightarrow> Poll \<Rightarrow> Poll option" where
  "move_byte to from p =
     Option.bind (slot p from) (\<lambda>src. Option.bind (slot p to) (\<lambda>dst.
       set_slot to (set_first_byte (first_byte src) dst) p))"

definition removeFd :: "int \<Rightarrow> Poll \<Rightarrow> (int \<times> Poll) option" where
  "removeFd x p =
     Option.bind (findFd x p) (\<lambda>pfd.
       case pfd of
         None \<Rightarrow> Some (error_value NO_ERROR, p)
       | Some i \<Rightarrow>
           map_option (\<lambda>p'. (error_value NO_ERROR, p'\<lparr>mFdsCnt := mFdsCnt p' - 1\<rparr>))
             (move_byte (i * sizeof_pollfd) ((i + 1) * sizeof_pollfd) p))"

section \<open>Event masks\<close>

definition setFdReadable :: "int \<Rightarrow> bool \<Rightarrow> Poll \<Rightarrow> (int \<times> Poll) option" where
  "setFdReadable x readable p =
     Option.bind (findFd x p) (\<lambda>pfd.
       case pfd of
         None \<Rightarrow> Some (error_value ERROR_BAD_VALUE, p)
       | Some i \<Rightarrow> Option.bind (slot p i) (\<lambda>e.
           map_option (Pair (error_value NO_ERROR))
             (set_slot i
               (if readable then e\<lparr>events := events e OR (POLLIN OR POLLPRI)\<rparr>
                else e\<lparr>events := events e AND NOT POLLIN\<rparr>) p)))"

definition setFdWritable :: "int \<Rightarrow> bool \<Rightarrow> Poll \<Rightarrow> (int \<times> Poll) option" where
  "setFdWritable x writable p =
     Option.bind (findFd x p) (\<lambda>pfd.
       case pfd of
         None \<Rightarrow> Some (error_value ERROR_BAD_VALUE, p)
       | Some i \<Rightarrow> Option.bind (slot p i) (\<lambda>e.
           map_option (Pair (error_value NO_ERROR))
             (set_slot i
               (if writable then e\<lparr>events := events e OR POLLOUT\<rparr>
                else e\<lparr>events := events e AND NOT POLLOUT\<rparr>) p)))"

definition isReadable :: "int \<Rightarrow> Poll \<Rightarrow> bool option" where
  "isReadable x p = map_option (\<lambda>r. r \<noteq> None)
     (find_loop (\<lambda>e. fd e = x \<and> revents e AND (POLLIN OR POLLRDNORM) \<noteq> 0) p 0 (mFdsCnt p))"

definition isWritable :: "int \<Rightarrow> Poll \<Rightarrow> bool option" where
  "isWritable x p = map_option (\<lambda>r. r \<noteq> None)
     (find_loop (\<lambda>e. fd e = x \<and> revents e AND POLLOUT \<noteq> 0) p 0 (mFdsCnt p))"

section \<open>The control socket\<close>

text \<open>
  The loops of \<open>wakeEvent\<close> and \<open>releaseEvent\<close>: each element is what one \<open>write\<close> or \<open>read\<close>
  returns, with \<open>errno\<close>. \<open>None\<close> means that the loop is still going on.
\<close>

fun io_loop :: "(int \<times> int) list \<Rightarrow> bool option" where
  "io_loop [] = None"
| "io_loop ((n, errno) # rs) =
     (if n \<noteq> 1 then (if n = - 1 \<and> errno \<noteq> EAGAIN \<and> errno \<noteq> EINTR then Some False else io_loop rs)
      else Some True)"

definition wakeEvent :: "(int \<times> int) list \<Rightarrow> Poll \<Rightarrow> (bool \<times> Poll) option" where
  "wakeEvent rs p = map_option (\<lambda>ok. (ok, if ok then p\<lparr>sock := sock p + 1\<rparr> else p)) (io_loop rs)"

definition releaseEvent :: "(int \<times> int) list \<Rightarrow> Poll \<Rightarrow> (bool \<times> Poll) option" where
  "releaseEvent rs p = map_option (\<lambda>ok. (ok, if ok then p\<lparr>sock := sock p - 1\<rparr> else p)) (io_loop rs)"

definition raiseWakeup :: "(int \<times> int) list \<Rightarrow> Poll \<Rightarrow> (bool \<times> Poll) option" where
  "raiseWakeup rs p =
     Option.bind (if mControlPending p = 0 then wakeEvent rs p else Some (True, p))
       (\<lambda>(result, p1).
         Some (result,
           if result then p1\<lparr>mControlPending := to_i32 (mControlPending p1 + 1)\<rparr> else p1))"

definition releaseWakeup :: "(int \<times> int) list \<Rightarrow> Poll \<Rightarrow> (bool \<times> Poll) option" where
  "releaseWakeup rs p =
     (if mControlPending p > 0 then
        Option.bind (if mControlPending p = 1 then releaseEvent rs p else Some (True, p))
          (\<lambda>(result, p1).
            Some (result,
              if result then p1\<lparr>mControlPending := to_i32 (mControlPending p1 - 1)\<rparr> else p1))
      else Some (False, p))"

definition releaseAllWakeup :: "(int \<times> int) list \<Rightarrow> Poll \<Rightarrow> (bool \<times> Poll) option" where
  "releaseAllWakeup rs p =
     (if mControlPending p > 0 then
        map_option (\<lambda>(result, p1). (result, if result then p1\<lparr>mControlPending := 0\<rparr> else p1))
          (releaseEvent rs p)
      else Some (False, p))"

section \<open>Construction and timeout\<close>

text \<open>\<open>pair\<close> is what \<open>socketpair\<close> creates, \<open>grown\<close> what \<open>realloc\<close> returns.\<close>

definition Poll_new :: "bool \<Rightarrow> (int \<times> int) option \<Rightarrow> pollfd list option \<Rightarrow> Poll option" where
  "Poll_new controllable pair grown =
     (let p = \<lparr>mControlReadFd = (case pair of None \<Rightarrow> - 1 | Some (r, w) \<Rightarrow> r),
               mControlWriteFd = (case pair of None \<Rightarrow> - 1 | Some (r, w) \<Rightarrow> w),
               mFds = None, mFdsMaxCnt = 0, mFdsCnt = 0, mControllable = controllable,
               mControlPending = 0, mFlushing = False, mWaiting = 0, sock = 0\<rparr>
      in Option.bind (addFd grown (mControlReadFd p) p) (\<lambda>(_, p1).
           map_option snd (setFdReadable (mControlReadFd p1) True p1)))"

text \<open>
  The timeout \<open>wait\<close> passes to \<open>poll\<close>: a 64-bit value, nanoseconds by its name, converted to
  the \<open>int\<close> of milliseconds that \<open>poll\<close> takes.
\<close>

definition poll_timeout :: "int \<Rightarrow> int" where
  "poll_timeout timeoutNs = (let t = (if timeoutNs > 0 then timeoutNs else - 1) in to_i32 t)"

section \<open>Well-formed sets of descriptors\<close>

definition entries :: "Poll \<Rightarrow> pollfd list" where
  "entries p = take (mFdsCnt p) (case mFds p of None \<Rightarrow> [] | Some mem \<Rightarrow> mem)"

abbreviation fds :: "Poll \<Rightarrow> int list" where "fds p \<equiv> map fd (entries p)"

definition poll_wf :: "Poll \<Rightarrow> bool" where
  "poll_wf p \<longleftrightarrow> length (case mFds p of None \<Rightarrow> [] | Some mem \<Rightarrow> mem) = mFdsMaxCnt p \<and>
     mFdsCnt p \<le> mFdsMaxCnt p \<and> distinct (fds p)"

lemma poll_wf_entries: "poll_wf p \<Longrightarrow> length (entries p) = mFdsCnt p"
  by (simp add: poll_wf_def entries_def)

lemma slot_entry: "poll_wf p \<Longrightarrow> i < mFdsCnt p \<Longrightarrow> slot p i = Some (entries p ! i)"
  by (cases "mFds p") (auto simp: poll_wf_def slot_def entries_def)

text \<open>The search loop is the first index that satisfies the test.\<close>

lemma find_loop_none:
  assumes "\<And>k. i \<le> k \<Longrightarrow> k < i + n \<Longrightarrow> slot p k = Some (e k) \<and> \<not> P (e k)"
  shows "find_loop P p i n = Some None"
  using assms by (induction n arbitrary: i) simp_all

lemma find_loop_some:
  assumes "\<And>j. i \<le> j \<Longrightarrow> j < k \<Longrightarrow> slot p j = Some (e j) \<and> \<not> P (e j)"
    and "slot p k = Some (e k)" "P (e k)" "i \<le> k" "k < i + n"
  shows "find_loop P p i n = Some (Some k)"
  using assms
proof (induction n arbitrary: i)
  case (Suc n)
  show ?case
  proof (cases "i = k")
    case False
    then have "slot p i = Some (e i) \<and> \<not> P (e i)" using Suc.prems(1) [of i] Suc.prems(4) by simp
    then show ?thesis using Suc.IH [of "Suc i"] Suc.prems False by simp
  qed (use Suc.prems in simp)
qed simp

lemma findFd_absent:
  assumes "poll_wf p" and "x \<notin> set (fds p)"
  shows "findFd x p = Some None"
  unfolding findFd_def using assms poll_wf_entries [OF assms(1)]
  by (intro find_loop_none [of _ _ _ "\<lambda>k. entries p ! k"]) (auto simp: slot_entry)

lemma findFd_present:
  assumes "poll_wf p" and "i < mFdsCnt p" and "fd (entries p ! i) = x"
  shows "findFd x p = Some (Some i)"
  unfolding findFd_def
proof (rule find_loop_some [of 0 i p "\<lambda>k. entries p ! k"])
  fix j assume "0 \<le> j" "j < i"
  have "distinct (fds p)" using assms(1) by (simp add: poll_wf_def)
  then have "fd (entries p ! j) \<noteq> x"
    using nth_eq_iff_index_eq [of "fds p" j i] assms(2,3) \<open>j < i\<close> poll_wf_entries [OF assms(1)]
    by simp
  then show "slot p j = Some (entries p ! j) \<and> \<not> fd (entries p ! j) = x"
    using assms \<open>j < i\<close> by (simp add: slot_entry)
qed (use assms in \<open>simp_all add: slot_entry\<close>)

lemma fds_index:
  assumes "poll_wf p" and "x \<in> set (fds p)"
  obtains i where "i < mFdsCnt p" "fd (entries p ! i) = x"
  using assms poll_wf_entries [OF assms(1)] by (auto simp: in_set_conv_nth)

text \<open>Rewriting one entry.\<close>

lemma set_slot_entry:
  assumes "poll_wf p" and "i < mFdsCnt p"
  obtains q where "set_slot i e p = Some q" "entries q = (entries p)[i := e]" "mFdsCnt q = mFdsCnt p"
    "mFdsMaxCnt q = mFdsMaxCnt p" "length (case mFds q of None \<Rightarrow> [] | Some mem \<Rightarrow> mem) = mFdsMaxCnt p"
proof -
  obtain mem where "mFds p = Some mem" "length mem = mFdsMaxCnt p" "mFdsCnt p \<le> length mem"
    using assms by (cases "mFds p") (auto simp: poll_wf_def)
  then show thesis using assms(2) that [of "p\<lparr>mFds := Some (mem[i := e])\<rparr>"]
    by (simp add: set_slot_def entries_def take_update_swap)
qed

lemma set_slot_wf:
  assumes "poll_wf p" and "i < mFdsCnt p" and "fd e = fd (entries p ! i)"
  obtains q where "set_slot i e p = Some q" "poll_wf q" "entries q = (entries p)[i := e]"
    "mFdsCnt q = mFdsCnt p"
proof -
  obtain q where q: "set_slot i e p = Some q" "entries q = (entries p)[i := e]"
    "mFdsCnt q = mFdsCnt p" "mFdsMaxCnt q = mFdsMaxCnt p"
    "length (case mFds q of None \<Rightarrow> [] | Some mem \<Rightarrow> mem) = mFdsMaxCnt p"
    by (rule set_slot_entry [OF assms(1,2)])
  have "fds q = (fds p)[i := fds p ! i]"
    unfolding q(2) map_update using assms poll_wf_entries [OF assms(1)] by simp
  then have "fds q = fds p" by (simp only: list_update_id)
  then show thesis using q assms(1) that [of q] by (simp add: poll_wf_def)
qed

definition new_entry :: "int \<Rightarrow> pollfd" where
  "new_entry x = \<lparr>fd = x, events = POLLERR OR POLLNVAL OR POLLHUP, revents = 0\<rparr>"

lemma grow_wf:
  assumes wf: "poll_wf p" and g: "length g = INCREASE_ACTIVE_FDS"
  defines "q \<equiv> p\<lparr>mFdsMaxCnt := mFdsMaxCnt p + INCREASE_ACTIVE_FDS,
    mFds := Some ((case mFds p of None \<Rightarrow> [] | Some mem \<Rightarrow> mem) @ g)\<rparr>"
  shows "poll_wf q" "entries q = entries p" "mFdsCnt q < mFdsMaxCnt q" "mFdsCnt q = mFdsCnt p"
  using wf g by (auto simp: q_def poll_wf_def entries_def INCREASE_ACTIVE_FDS_def)

lemma append_slot:
  assumes wf: "poll_wf p" and room: "mFdsCnt p < mFdsMaxCnt p" and new: "fd e \<notin> set (fds p)"
  obtains q where "set_slot (mFdsCnt p) e p = Some q"
    "poll_wf (q\<lparr>mFdsCnt := mFdsCnt q + 1\<rparr>)" "entries (q\<lparr>mFdsCnt := mFdsCnt q + 1\<rparr>) = entries p @ [e]"
proof -
  obtain mem where mem: "mFds p = Some mem" "length mem = mFdsMaxCnt p"
    using assms by (cases "mFds p") (auto simp: poll_wf_def)
  let ?q = "p\<lparr>mFds := Some (mem[mFdsCnt p := e])\<rparr>"
  have e: "entries (?q\<lparr>mFdsCnt := mFdsCnt ?q + 1\<rparr>) = entries p @ [e]"
    using mem room by (simp add: entries_def take_Suc_conv_app_nth)
  have "poll_wf (?q\<lparr>mFdsCnt := mFdsCnt ?q + 1\<rparr>)"
    using wf mem room new unfolding poll_wf_def e by simp
  then show thesis using that [of ?q] mem room e by (simp add: set_slot_def)
qed

section \<open>Properties of the descriptor set\<close>

lemma addFd_appends:
  assumes wf: "poll_wf p" and g: "grown = Some g" "length g = INCREASE_ACTIVE_FDS"
  shows "\<exists>p'. addFd grown x p = Some (error_value NO_ERROR, p') \<and> poll_wf p' \<and>
    entries p' = (if x \<in> set (fds p) then entries p else entries p @ [new_entry x])"
proof (cases "x \<in> set (fds p)")
  case True
  with fds_index [OF wf] findFd_present [OF wf] have "\<exists>i. findFd x p = Some (Some i)" by metis
  then show ?thesis using wf True by (auto simp: addFd_def)
next
  case False
  note absent = findFd_absent [OF wf False]
  have fdx: "fd (new_entry x) = x" by (simp add: new_entry_def)
  show ?thesis
  proof (cases "mFdsCnt p + 1 > mFdsMaxCnt p")
    case True
    note grow = grow_wf [OF wf g(2)]
    let ?p = "p\<lparr>mFdsMaxCnt := mFdsMaxCnt p + INCREASE_ACTIVE_FDS,
        mFds := Some ((case mFds p of None \<Rightarrow> [] | Some mem \<Rightarrow> mem) @ g)\<rparr>"
    have "fd (new_entry x) \<notin> set (fds ?p)" using False grow(2) fdx by simp
    from append_slot [OF grow(1,3) this] obtain q where
      "set_slot (mFdsCnt ?p) (new_entry x) ?p = Some q" "poll_wf (q\<lparr>mFdsCnt := mFdsCnt q + 1\<rparr>)"
      "entries (q\<lparr>mFdsCnt := mFdsCnt q + 1\<rparr>) = entries ?p @ [new_entry x]" by metis
    then show ?thesis
      using True absent g(1) False grow(2) by (simp add: addFd_def Let_def new_entry_def [symmetric])
  next
    case no: False
    then have "mFdsCnt p < mFdsMaxCnt p" by simp
    from append_slot [OF wf this, of "new_entry x"] fdx False obtain q where
      "set_slot (mFdsCnt p) (new_entry x) p = Some q" "poll_wf (q\<lparr>mFdsCnt := mFdsCnt q + 1\<rparr>)"
      "entries (q\<lparr>mFdsCnt := mFdsCnt q + 1\<rparr>) = entries p @ [new_entry x]" by metis
    then show ?thesis using no absent False
      by (simp add: addFd_def Let_def new_entry_def [symmetric])
  qed
qed

text \<open>
  \<open>addFd\<close> on a well-formed set, when \<open>realloc\<close> succeeds if the array has to
  grow, returns \<open>NO_ERROR\<close>, keeps the set well-formed (no descriptor twice, within the
  allocation) and appends the descriptor with the three error events unless it is there.
\<close>

theorem addFd_correct:
  assumes wf: "poll_wf p" and g: "grown = Some g" "length g = INCREASE_ACTIVE_FDS"
  shows "\<exists>p'. addFd grown x p = Some (error_value NO_ERROR, p') \<and> poll_wf p' \<and>
    entries p' = (if x \<in> set (fds p) then entries p else entries p @ [new_entry x])"
  using assms by (rule addFd_appends)

text \<open>A set of one descriptor, as after construction.\<close>

definition sample_poll :: Poll where
  "sample_poll = \<lparr>mControlReadFd = 3, mControlWriteFd = 4,
     mFds = Some (replicate 8 (new_entry 3)), mFdsMaxCnt = 8, mFdsCnt = 1, mControllable = True,
     mControlPending = 0, mFlushing = False, mWaiting = 0, sock = 0\<rparr>"

lemma sample_poll_facts: "poll_wf sample_poll" "entries sample_poll = [new_entry 3]"
  by (simp_all add: sample_poll_def poll_wf_def entries_def numeral_eq_Suc)

theorem addFd_correct_witness:
  "\<exists>p'. addFd (Some (replicate 8 (new_entry 0))) 9 sample_poll = Some (0, p') \<and> poll_wf p' \<and>
     entries p' = [new_entry 3, new_entry 9]"
  using addFd_correct [OF sample_poll_facts(1) refl, of "replicate 8 (new_entry 0)" 9]
  by (simp add: sample_poll_facts INCREASE_ACTIVE_FDS_def new_entry_def)

lemma null_faults:
  assumes "mFds p = None" and "0 < mFdsCnt p"
  shows "findFd x p = None"
proof -
  obtain n where "mFdsCnt p = Suc n" using assms(2) gr0_conv_Suc by blast
  then show ?thesis using assms(1) by (simp add: findFd_def slot_def)
qed

text \<open>
  When \<open>realloc\<close> fails, \<open>addFd\<close> reports \<open>ERROR_NO_MEMORY\<close> but has overwritten the
  only pointer to the array while the count stays: every later operation on the set
  dereferences a null pointer.
\<close>

theorem addFd_no_memory:
  assumes "poll_wf p" and "mFdsCnt p = mFdsMaxCnt p" and "0 < mFdsCnt p" and "x \<notin> set (fds p)"
  shows "\<exists>p'. addFd None x p = Some (error_value ERROR_NO_MEMORY, p') \<and> mFds p' = None \<and>
    findFd y p' = None \<and> addFd g y p' = None \<and> removeFd y p' = None \<and>
    setFdReadable y b p' = None \<and> setFdWritable y b p' = None"
proof -
  let ?p = "p\<lparr>mFdsMaxCnt := mFdsMaxCnt p + INCREASE_ACTIVE_FDS, mFds := None\<rparr>"
  have "findFd y ?p = None" by (rule null_faults) (use assms(3) in simp_all)
  moreover have "addFd None x p = Some (error_value ERROR_NO_MEMORY, ?p)"
    using findFd_absent [OF assms(1,4)] assms(2) by (simp add: addFd_def Let_def)
  ultimately show ?thesis
    by (simp add: addFd_def removeFd_def setFdReadable_def setFdWritable_def)
qed

definition full_poll :: Poll where
  "full_poll = sample_poll\<lparr>mFds := Some (map new_entry [3, 4, 5, 6, 7, 8, 9, 10]), mFdsCnt := 8\<rparr>"

lemma full_poll_facts: "poll_wf full_poll" "fds full_poll = [3, 4, 5, 6, 7, 8, 9, 10]"
  "mFdsCnt full_poll = 8" "mFdsMaxCnt full_poll = 8"
  by (simp_all add: full_poll_def sample_poll_def poll_wf_def entries_def new_entry_def)

theorem addFd_no_memory_witness:
  "\<exists>p'. addFd None 11 full_poll = Some (- ENOMEM, p') \<and> findFd 3 p' = None"
  using addFd_no_memory [OF full_poll_facts(1), of 11 3] full_poll_facts by auto

text \<open>
  \<open>setFdReadable\<close> and \<open>setFdWritable\<close> change the mask of the one entry of the
  descriptor and nothing else, or report \<open>ERROR_BAD_VALUE\<close>. Switching reading on sets \<open>POLLIN\<close>
  and \<open>POLLPRI\<close>; switching it off clears \<open>POLLIN\<close> only.
\<close>

theorem setFd_correct:
  assumes wf: "poll_wf p"
  shows "(x \<notin> set (fds p) \<longrightarrow> setFdReadable x b p = Some (error_value ERROR_BAD_VALUE, p) \<and>
      setFdWritable x b p = Some (error_value ERROR_BAD_VALUE, p)) \<and>
    (\<forall>i. i < mFdsCnt p \<longrightarrow> fd (entries p ! i) = x \<longrightarrow>
      (\<exists>q. setFdReadable x b p = Some (error_value NO_ERROR, q) \<and> poll_wf q \<and>
        entries q = (entries p)[i := (entries p ! i)\<lparr>events :=
          (if b then events (entries p ! i) OR (POLLIN OR POLLPRI)
           else events (entries p ! i) AND NOT POLLIN)\<rparr>]) \<and>
      (\<exists>q. setFdWritable x b p = Some (error_value NO_ERROR, q) \<and> poll_wf q \<and>
        entries q = (entries p)[i := (entries p ! i)\<lparr>events :=
          (if b then events (entries p ! i) OR POLLOUT
           else events (entries p ! i) AND NOT POLLOUT)\<rparr>]))"
proof (intro conjI impI allI)
  assume "x \<notin> set (fds p)"
  then show "setFdReadable x b p = Some (error_value ERROR_BAD_VALUE, p)"
    and "setFdWritable x b p = Some (error_value ERROR_BAD_VALUE, p)"
    using findFd_absent [OF wf] by (simp_all add: setFdReadable_def setFdWritable_def)
next
  fix i assume i: "i < mFdsCnt p" and x: "fd (entries p ! i) = x"
  note find = findFd_present [OF wf i x] slot_entry [OF wf i]
  let ?r = "(entries p ! i)\<lparr>events := (if b then events (entries p ! i) OR (POLLIN OR POLLPRI)
    else events (entries p ! i) AND NOT POLLIN)\<rparr>"
  let ?w = "(entries p ! i)\<lparr>events := (if b then events (entries p ! i) OR POLLOUT
    else events (entries p ! i) AND NOT POLLOUT)\<rparr>"
  obtain q where "set_slot i ?r p = Some q" "poll_wf q" "entries q = (entries p)[i := ?r]"
    by (rule set_slot_wf [OF wf i, of ?r]) auto
  then show "\<exists>q. setFdReadable x b p = Some (error_value NO_ERROR, q) \<and> poll_wf q \<and>
      entries q = (entries p)[i := ?r]"
    by (cases b) (simp_all add: setFdReadable_def find)
  obtain q' where "set_slot i ?w p = Some q'" "poll_wf q'" "entries q' = (entries p)[i := ?w]"
    by (rule set_slot_wf [OF wf i, of ?w]) auto
  then show "\<exists>q. setFdWritable x b p = Some (error_value NO_ERROR, q) \<and> poll_wf q \<and>
      entries q = (entries p)[i := ?w]"
    by (cases b) (simp_all add: setFdWritable_def find)
qed

theorem setFd_correct_witness:
  "\<exists>q. setFdReadable 3 True sample_poll = Some (0, q) \<and>
     entries q = [\<lparr>fd = 3, events = 0x3B, revents = 0\<rparr>]"
  using setFd_correct [OF sample_poll_facts(1), of 3 True] sample_poll_facts(2)
  by (auto simp: sample_poll_def new_entry_def poll_bits)

text \<open>Moving one byte between entries of the allocation.\<close>

lemma move_byte_bounds:
  assumes "mFds p = Some mem"
  shows "move_byte to from p = (if from < length mem \<and> to < length mem
    then Some (p\<lparr>mFds := Some (mem[to := set_first_byte (first_byte (mem ! from)) (mem ! to)])\<rparr>)
    else None)"
  using assms by (auto simp: move_byte_def slot_def set_slot_def)

lemma entries_move:
  assumes "mFds p = Some mem" and "n \<le> mFdsCnt p" and "mFdsCnt p \<le> length mem" and "k < n" and "k \<noteq> j"
  shows "entries (p\<lparr>mFds := Some (mem[j := e]), mFdsCnt := n\<rparr>) ! k = entries p ! k"
  using assms by (simp add: entries_def)

text \<open>
  C33 (error): \<open>removeFd\<close> of a descriptor at index \<open>i\<close> accesses the entry \<open>8 (i + 1)\<close>. Up to eight
  descriptors this is always out of bounds: every removal of a present descriptor is undefined.
  When it is within the allocation, the call reports success and drops the last entry whichever
  descriptor was named: one that is neither first nor last is still polled. An absent
  descriptor changes nothing.
\<close>

theorem removeFd_drops_last:
  assumes wf: "poll_wf p"
  shows "(x \<notin> set (fds p) \<longrightarrow> removeFd x p = Some (error_value NO_ERROR, p)) \<and>
    (\<forall>i. i < mFdsCnt p \<longrightarrow> fd (entries p ! i) = x \<longrightarrow>
      (mFdsMaxCnt p \<le> 8 * (i + 1) \<longrightarrow> removeFd x p = None) \<and>
      (8 * (i + 1) < mFdsMaxCnt p \<longrightarrow>
        (\<exists>q. removeFd x p = Some (error_value NO_ERROR, q) \<and> mFdsCnt q = mFdsCnt p - 1 \<and>
          (\<forall>k < mFdsCnt q. k \<noteq> 8 * i \<longrightarrow> entries q ! k = entries p ! k) \<and>
          (0 < i \<longrightarrow> i < mFdsCnt p - 1 \<longrightarrow> x \<in> set (fds q)))))"
proof (intro conjI impI allI)
  assume "x \<notin> set (fds p)"
  then show "removeFd x p = Some (error_value NO_ERROR, p)"
    using findFd_absent [OF wf] by (simp add: removeFd_def)
next
  fix i assume i: "i < mFdsCnt p" and x: "fd (entries p ! i) = x"
  note find = findFd_present [OF wf i x]
  obtain mem where mem: "mFds p = Some mem" "length mem = mFdsMaxCnt p" "mFdsCnt p \<le> length mem"
    using i wf by (cases "mFds p") (auto simp: poll_wf_def)
  show "removeFd x p = None" if "mFdsMaxCnt p \<le> 8 * (i + 1)"
    using that find mem by (simp add: removeFd_def sizeof_pollfd_def move_byte_bounds)
  assume room: "8 * (i + 1) < mFdsMaxCnt p"
  let ?e = "set_first_byte (first_byte (mem ! (8 * i + 8))) (mem ! (8 * i))"
  let ?q = "p\<lparr>mFds := Some (mem[8 * i := ?e]), mFdsCnt := mFdsCnt p - 1\<rparr>"
  have r: "removeFd x p = Some (error_value NO_ERROR, ?q)"
    using room find mem by (simp add: removeFd_def sizeof_pollfd_def move_byte_bounds mult.commute add.commute)
  have same: "\<forall>k < mFdsCnt ?q. k \<noteq> 8 * i \<longrightarrow> entries ?q ! k = entries p ! k"
    using entries_move [OF mem(1) _ mem(3), of "mFdsCnt p - 1"] by simp
  have "x \<in> set (fds ?q)" if "0 < i" "i < mFdsCnt p - 1"
  proof -
    have "i < length (entries ?q)" using that mem by (simp add: entries_def)
    moreover have "fd (entries ?q ! i) = x" using same that x by simp
    ultimately show ?thesis by (metis in_set_conv_nth length_map nth_map)
  qed
  then show "\<exists>q. removeFd x p = Some (error_value NO_ERROR, q) \<and> mFdsCnt q = mFdsCnt p - 1 \<and>
      (\<forall>k < mFdsCnt q. k \<noteq> 8 * i \<longrightarrow> entries q ! k = entries p ! k) \<and>
      (0 < i \<longrightarrow> i < mFdsCnt p - 1 \<longrightarrow> x \<in> set (fds q))"
    using r same by (intro exI [of _ ?q]) simp
qed

theorem removeFd_drops_last_witness:
  "removeFd 5 full_poll = None \<and> removeFd 20 full_poll = Some (0, full_poll)"
proof
  have "fd (entries full_poll ! 2) = 5"
    by (simp add: full_poll_def sample_poll_def entries_def new_entry_def)
  moreover have "(2::nat) < mFdsCnt full_poll" "mFdsMaxCnt full_poll \<le> 8 * (2 + 1)"
    by (simp_all add: full_poll_facts)
  ultimately show "removeFd 5 full_poll = None"
    using removeFd_drops_last [OF full_poll_facts(1)] by blast
  have "20 \<notin> set (fds full_poll)" by (simp only: full_poll_facts) simp
  then show "removeFd 20 full_poll = Some (0, full_poll)"
    using removeFd_drops_last [OF full_poll_facts(1), of 20] by simp
qed

section \<open>The control socket\<close>

text \<open>The protocol of the control socket: one byte is in it exactly while wake-ups are pending.\<close>

definition control_ok :: "Poll \<Rightarrow> bool" where
  "control_ok p \<longleftrightarrow> 0 \<le> mControlPending p \<and> mControlPending p \<le> INT32_MAX \<and>
     sock p = (if mControlPending p > 0 then 1 else 0)"

lemma pending_step:
  "0 \<le> n \<Longrightarrow> n < INT32_MAX \<Longrightarrow> to_i32 (n + 1) = n + 1"
  "0 < n \<Longrightarrow> n \<le> INT32_MAX \<Longrightarrow> to_i32 (n - 1) = n - 1"
  by (simp_all add: to_i32_id machine_limits)

lemma raiseWakeup_ok:
  assumes "control_ok p" and "mControlPending p < INT32_MAX" and "raiseWakeup rs p = Some (r, q)"
  shows "control_ok q \<and> (r \<longrightarrow> mControlPending q = mControlPending p + 1) \<and> (\<not> r \<longrightarrow> q = p)"
  using assms pending_step(1) [of "mControlPending p"]
  by (auto simp: control_ok_def raiseWakeup_def wakeEvent_def bind_eq_Some_conv split: if_splits)

lemma releaseWakeup_ok:
  assumes "control_ok p" and "releaseWakeup rs p = Some (r, q)"
  shows "control_ok q \<and> (r \<longrightarrow> mControlPending q = mControlPending p - 1) \<and> (\<not> r \<longrightarrow> q = p)"
  using assms pending_step(2) [of "mControlPending p"]
  by (auto simp: control_ok_def releaseWakeup_def releaseEvent_def bind_eq_Some_conv split: if_splits)

lemma releaseAllWakeup_ok:
  assumes "control_ok p" and "releaseAllWakeup rs p = Some (r, q)"
  shows "control_ok q \<and> (r \<longrightarrow> mControlPending q = 0) \<and> (\<not> r \<longrightarrow> q = p)"
  using assms
  by (auto simp: control_ok_def releaseAllWakeup_def releaseEvent_def INT32_MAX_def split: if_splits)

text \<open>
  C29 (invariant): the wake-up counter and the control socket stay in step under
  \<open>raiseWakeup\<close>, \<open>releaseWakeup\<close> and \<open>releaseAllWakeup\<close>, with interrupted and failing reads and
  writes: one byte is in the socket exactly while the counter is positive, so a read is only
  made when it finds a byte; a failed call changes nothing.
\<close>

theorem control_protocol:
  assumes "control_ok p" and "mControlPending p < INT32_MAX"
    and "raiseWakeup rs p = Some (r, q) \<or> releaseWakeup rs p = Some (r, q) \<or>
      releaseAllWakeup rs p = Some (r, q)"
  shows "control_ok q \<and> (\<not> r \<longrightarrow> q = p) \<and>
    (raiseWakeup rs p = Some (r, q) \<longrightarrow> r \<longrightarrow> mControlPending q = mControlPending p + 1) \<and>
    (releaseWakeup rs p = Some (r, q) \<longrightarrow> r \<longrightarrow> mControlPending q = mControlPending p - 1) \<and>
    (releaseAllWakeup rs p = Some (r, q) \<longrightarrow> r \<longrightarrow> mControlPending q = 0)"
  using assms raiseWakeup_ok [OF assms(1,2), of rs r q] releaseWakeup_ok [OF assms(1), of rs r q]
    releaseAllWakeup_ok [OF assms(1), of rs r q]
  by blast

theorem control_protocol_witness:
  "\<exists>q. raiseWakeup [(- 1, EINTR), (1, 0)] sample_poll = Some (True, q) \<and> sock q = 1 \<and> control_ok q"
proof -
  have ok: "control_ok sample_poll" "mControlPending sample_poll < INT32_MAX"
    by (simp_all add: control_ok_def sample_poll_def INT32_MAX_def)
  obtain q where q: "raiseWakeup [(- 1, EINTR), (1, 0)] sample_poll = Some (True, q)" "sock q = 1"
    by (simp add: raiseWakeup_def wakeEvent_def sample_poll_def EINTR_def)
  with control_protocol [OF ok, of "[(- 1, EINTR), (1, 0)]" True q] show ?thesis by blast
qed

section \<open>The timeout\<close>

text \<open>
  The timeout is passed on unscaled, so nanoseconds are taken for milliseconds: a
  positive value that fits \<open>int\<close> waits a million times too long, 0 and negative values wait for
  ever, and larger values are reduced modulo 2^32: three seconds become an infinite wait,
  2^32 nanoseconds no wait at all.
\<close>

theorem poll_timeout_values:
  "(0 < n \<longrightarrow> n \<le> INT32_MAX \<longrightarrow> poll_timeout n = n) \<and> (n \<le> 0 \<longrightarrow> poll_timeout n = - 1) \<and>
   in_i32 (poll_timeout n) \<and> poll_timeout 3000000000 < 0 \<and> poll_timeout 4294967296 = 0"
  using to_i32_in_range by (simp add: poll_timeout_def to_i32_id machine_limits) (simp add: to_i32_def)

theorem poll_timeout_values_witness:
  "poll_timeout 1000000 = 1000000 \<and> poll_timeout 0 = - 1"
  using poll_timeout_values [of 1000000] poll_timeout_values [of 0] by (simp add: INT32_MAX_def)

end
