(* ===== verification/Poll_Conc.thy ===== *)
theory Poll_Conc
  imports Poll
begin

text \<open>
  \<open>Poll::wait\<close> and \<open>Poll::setFlushing\<close> in any number of threads. Each atomic load or store is a
  step, \<open>raiseWakeup\<close> (under \<open>mMutex\<close>) is one step, and a thread inside the system call \<open>poll\<close>
  has a program counter of its own. Fewer than \<open>2 ^ 31\<close> threads are assumed to be inside \<open>wait\<close> at
  once, so \<open>mWaiting\<close>, an \<open>int\<close> in the code, does not wrap.
\<close>

section \<open>The system\<close>

text \<open>
  The steps of \<open>wait\<close>: the load of \<open>mWaiting\<close> was made (\<open>WAdd\<close> with the old value), it was
  incremented (\<open>WOld\<close>), the flag is tested (\<open>WFlush\<close>), the thread is in \<open>poll\<close> (\<open>WPoll\<close>), it
  came back with a count (\<open>WAfter\<close>), it decrements \<open>mWaiting\<close> and returns (\<open>WSub\<close>). Those of
  \<open>setFlushing\<close>: the store, the loads of \<open>mFlushing\<close> and of \<open>mWaiting\<close>, the wake-up.
\<close>

datatype ppc =
    PIdle
  | WAdd int int | WOld int int | WFlush int | WPoll int | WAfter int | WSub int
  | FStore bool | FLoad | FWait | FRaise
  | PDone int

record psys =
  poll :: Poll
  pcs :: "nat \<Rightarrow> ppc"

text \<open>
  One step of a thread: \<open>n\<close> is what \<open>poll\<close> returns if it does, \<open>rs\<close> what the writes to the
  control socket return. A timeout of \<open>wait\<close> is carried along.
\<close>

fun poll_step :: "int \<Rightarrow> (int \<times> int) list \<Rightarrow> Poll \<Rightarrow> ppc \<Rightarrow> (ppc \<times> Poll) option" where
  "poll_step n rs p (WAdd timeoutNs oldwaiting) =
     Some (WOld timeoutNs oldwaiting, p\<lparr>mWaiting := mWaiting p + 1\<rparr>)"
| "poll_step n rs p (WOld timeoutNs oldwaiting) =
     Some (if oldwaiting > 0 then WSub (- 1) else WFlush timeoutNs, p)"
| "poll_step n rs p (WFlush timeoutNs) =
     Some (if mFlushing p then WSub (- 1) else WPoll (poll_timeout timeoutNs), p)"
| "poll_step n rs p (WPoll t) = Some (WAfter n, p)"
| "poll_step n rs p (WAfter activecnt) = Some (if mFlushing p then WSub (- 1) else WSub activecnt, p)"
| "poll_step n rs p (WSub r) = Some (PDone r, p\<lparr>mWaiting := mWaiting p - 1\<rparr>)"
| "poll_step n rs p (FStore flushing) =
     Some (FLoad, if flushing then p\<lparr>mFlushing := True\<rparr> else p\<lparr>mFlushing := False\<rparr>)"
| "poll_step n rs p FLoad = Some (if mFlushing p \<and> mControllable p then FWait else PDone 0, p)"
| "poll_step n rs p FWait = Some (if mWaiting p > 0 then FRaise else PDone 0, p)"
| "poll_step n rs p FRaise = map_option (\<lambda>(_, p'). (PDone 0, p')) (raiseWakeup rs p)"
| "poll_step n rs p PIdle = None"
| "poll_step n rs p (PDone r) = None"

datatype paction = Wait nat int | SetFlushing nat bool | Move nat int "(int \<times> int) list"

fun free :: "ppc \<Rightarrow> bool" where
  "free PIdle = True" | "free (PDone _) = True" | "free _ = False"

text \<open>A call of \<open>wait\<close> begins with the load of \<open>mWaiting\<close>.\<close>

fun pact :: "paction \<Rightarrow> psys \<Rightarrow> psys option" where
  "pact (Wait i timeoutNs) s =
     (if free (pcs s i) then Some (s\<lparr>pcs := (pcs s)(i := WAdd timeoutNs (mWaiting (poll s)))\<rparr>) else None)"
| "pact (SetFlushing i b) s =
     (if free (pcs s i) then Some (s\<lparr>pcs := (pcs s)(i := FStore b)\<rparr>) else None)"
| "pact (Move i n rs) s =
     map_option (\<lambda>(pc, p). s\<lparr>poll := p, pcs := (pcs s)(i := pc)\<rparr>) (poll_step n rs (poll s) (pcs s i))"

text \<open>In a \<open>reliable\<close> run no write to the control socket fails for good.\<close>

fun reliable_ok :: "paction \<Rightarrow> bool" where
  "reliable_ok (Move i n rs) \<longleftrightarrow> io_loop rs \<noteq> Some False"
| "reliable_ok _ \<longleftrightarrow> True"

inductive pmove :: "bool \<Rightarrow> psys \<Rightarrow> psys \<Rightarrow> bool" for reliable where
  pmove: "pact a s = Some t \<Longrightarrow> reliable \<longrightarrow> reliable_ok a \<Longrightarrow> pmove reliable s t"

definition pinit :: "psys \<Rightarrow> bool" where
  "pinit s \<longleftrightarrow> pcs s = (\<lambda>_. PIdle) \<and> mWaiting (poll s) = 0 \<and> mControlPending (poll s) = 0 \<and>
     \<not> mFlushing (poll s) \<and> sock (poll s) = 0"

section \<open>Invariants\<close>

fun counted :: "ppc \<Rightarrow> bool" where
  "counted (WOld _ _) = True" | "counted (WFlush _) = True" | "counted (WPoll _) = True"
| "counted (WAfter _) = True" | "counted (WSub _) = True" | "counted _ = False"

fun flushing_on :: "ppc \<Rightarrow> bool" where
  "flushing_on FLoad = True" | "flushing_on FWait = True" | "flushing_on FRaise = True"
| "flushing_on _ = False"

definition count_inv :: "psys \<Rightarrow> bool" where
  "count_inv s \<longleftrightarrow> finite {i. counted (pcs s i)} \<and>
     mWaiting (poll s) = int (card {i. counted (pcs s i)})"

definition byte_inv :: "psys \<Rightarrow> bool" where
  "byte_inv s \<longleftrightarrow> (mControlPending (poll s) \<noteq> 0 \<longrightarrow> 0 < sock (poll s))"

definition flush_inv :: "psys \<Rightarrow> bool" where
  "flush_inv s \<longleftrightarrow> (\<forall>i t. pcs s i = WPoll t \<longrightarrow> mFlushing (poll s) \<longrightarrow> mControllable (poll s) \<longrightarrow>
     sock (poll s) = 0 \<longrightarrow> (\<exists>j. flushing_on (pcs s j)))"

lemma counted_upd:
  "{k. counted ((p(i := pc)) k)} =
    (if counted pc then insert i {k. counted (p k)} else {k. counted (p k)} - {i})"
  by auto

lemma raiseWakeup_frame:
  assumes "raiseWakeup rs p = Some (r, q)"
  shows "mWaiting q = mWaiting p" "mFlushing q = mFlushing p" "mControllable q = mControllable p"
    "sock p \<le> sock q" "mControlPending p = 0 \<Longrightarrow> r \<Longrightarrow> 0 < sock q" "\<not> r \<Longrightarrow> q = p"
    "io_loop rs \<noteq> Some False \<Longrightarrow> r"
  using assms
  by (auto simp: raiseWakeup_def wakeEvent_def bind_eq_Some_conv split: if_splits)

text \<open>What one step does to the shared object.\<close>

lemma poll_step_frame:
  assumes "poll_step n rs p pc = Some (pc', p')"
  shows "mControllable p' = mControllable p" and "sock p \<le> sock p'"
    and "mWaiting p' = mWaiting p + (if counted pc' then 1 else 0) - (if counted pc then 1 else 0)"
    and "\<not> free pc"
    and "pc \<noteq> FRaise \<Longrightarrow> sock p' = sock p \<and> mControlPending p' = mControlPending p"
    and "(\<forall>b. pc \<noteq> FStore b) \<Longrightarrow> mFlushing p' = mFlushing p"
  using assms by (cases pc; auto dest: raiseWakeup_frame split: if_splits)+

lemma count_inv_upd:
  assumes inv: "count_inv s"
    and p: "mWaiting p = mWaiting (poll s) + (if counted pc then 1 else 0) -
      (if counted (pcs s i) then 1 else 0)"
    and t: "poll t = p" "pcs t = (pcs s)(i := pc)"
  shows "count_inv t"
proof -
  let ?C = "{k. counted (pcs s k)}"
  have fin: "finite ?C" and w: "mWaiting (poll s) = int (card ?C)" using inv by (auto simp: count_inv_def)
  have "finite {k. counted (pcs t k)}" unfolding t counted_upd using fin by simp
  moreover have "mWaiting p = int (card {k. counted (pcs t k)})"
  proof -
    have "0 < card ?C" if "counted (pcs s i)"
      using that fin by (auto simp: card_gt_0_iff)
    then show ?thesis
      unfolding t(2) counted_upd using fin p w
      by (auto simp: card_insert_if card_Diff_singleton_if int_ops(6) Suc_le_eq)
  qed
  ultimately show ?thesis using t(1) by (simp add: count_inv_def)
qed

lemma count_inv_act: "count_inv s \<Longrightarrow> pact a s = Some t \<Longrightarrow> count_inv t"
proof (cases a)
  case (Wait i timeoutNs)
  assume "count_inv s" "pact a s = Some t"
  with Wait show ?thesis
    by (auto split: if_splits elim!: free.elims(2) intro!: count_inv_upd [of s _ _ i])
next
  case (SetFlushing i b)
  assume "count_inv s" "pact a s = Some t"
  with SetFlushing show ?thesis
    by (auto split: if_splits elim!: free.elims(2) intro!: count_inv_upd [of s _ _ i])
next
  case (Move i n rs)
  assume inv: "count_inv s" and "pact a s = Some t"
  with Move obtain pc p where "poll_step n rs (poll s) (pcs s i) = Some (pc, p)"
    "poll t = p" "pcs t = (pcs s)(i := pc)" by auto
  with count_inv_upd [OF inv poll_step_frame(3)] show ?thesis by blast
qed

lemma byte_inv_act:
  assumes inv: "byte_inv s" and act: "pact a s = Some t"
  shows "byte_inv t" and "sock (poll s) \<le> sock (poll t)"
proof -
  have "byte_inv t \<and> sock (poll s) \<le> sock (poll t)"
  proof (cases a)
    case (Move i n rs)
    with act obtain pc p where m: "poll_step n rs (poll s) (pcs s i) = Some (pc, p)" "poll t = p" by auto
    show ?thesis
    proof (cases "pcs s i = FRaise")
      case True
      with m obtain r where r: "raiseWakeup rs (poll s) = Some (r, p)" by auto
      note f = raiseWakeup_frame [OF r]
      have "0 < sock p" if "mControlPending p \<noteq> 0"
      proof (cases "mControlPending (poll s) = 0")
        case True
        with that f(5,6) show ?thesis by (cases r) auto
      next
        case False
        with inv f(4) show ?thesis by (auto simp: byte_inv_def)
      qed
      then show ?thesis using f(4) m(2) by (simp add: byte_inv_def)
    next
      case False
      from poll_step_frame(5) [OF m(1) False] m(2) inv show ?thesis by (simp add: byte_inv_def)
    qed
  qed (use act inv in \<open>auto simp: byte_inv_def split: if_splits\<close>)
  then show "byte_inv t" "sock (poll s) \<le> sock (poll t)" by auto
qed

lemma flushing_busy: "flushing_on pc \<Longrightarrow> \<not> free pc"
  by (cases pc) simp_all

text \<open>The flag is only set by a thread that then goes on to raise the wake-up.\<close>

text \<open>
  The thread that has set the flag stays on its way to the wake-up: before the byte is written it
  takes no step that ends its call.
\<close>

lemma flushing_step:
  assumes inv: "byte_inv s" and m: "poll_step n rs (poll s) (pcs s k) = Some (pc, p)"
    and rel: "reliable_ok (Move k n rs)" and on: "flushing_on (pcs s k)"
    and fl: "mFlushing (poll s)" "mControllable (poll s)" "0 < mWaiting (poll s)"
    and empty: "sock (poll s) = 0" "sock p = 0"
  shows "flushing_on pc"
proof -
  have pend: "mControlPending (poll s) = 0" using inv empty(1) by (auto simp: byte_inv_def)
  have "pcs s k \<noteq> FRaise"
  proof
    assume "pcs s k = FRaise"
    with m obtain r where r: "raiseWakeup rs (poll s) = Some (r, p)" by auto
    note g = raiseWakeup_frame [OF r]
    have "r" using g(7) rel by simp
    with g(5) pend empty(2) show False by simp
  qed
  with m on fl show ?thesis by (cases "pcs s k") simp_all
qed

lemma flush_inv_move:
  assumes inv: "flush_inv s" "count_inv s" "byte_inv s" and act: "pact (Move k n rs) s = Some t"
    and rel: "reliable_ok (Move k n rs)" and w: "pcs t i = WPoll timeout"
    and fl: "mFlushing (poll t)" and ctl: "mControllable (poll t)"
    and empty: "sock (poll s) = 0" "sock (poll t) = 0"
  shows "\<exists>j. flushing_on (pcs t j)"
proof -
  from act obtain pc p where m: "poll_step n rs (poll s) (pcs s k) = Some (pc, p)"
    "poll t = p" "pcs t = (pcs s)(k := pc)" by auto
  note f = poll_step_frame [OF m(1)]
  show ?thesis
  proof (cases "\<exists>b. pcs s k = FStore b")
    case True
    with m have "pcs t k = FLoad" by auto
    then show ?thesis by (intro exI [of _ k]) simp
  next
    case False
    then have fl': "mFlushing (poll s)" using f(6) fl m(2) by simp
    have old: "pcs s i = WPoll timeout"
    proof (cases "k = i")
      case True
      with w m have "pc = WPoll timeout" by simp
      with m(1) fl' True show ?thesis by (cases "pcs s i") (auto split: if_splits)
    qed (use w m in simp)
    then obtain j where j: "flushing_on (pcs s j)"
      using inv(1) fl' ctl empty(1) f(1) m(2) by (auto simp: flush_inv_def)
    have "i \<in> {k. counted (pcs s k)}" using old by simp
    then have waiting: "0 < mWaiting (poll s)"
      using inv(2) by (auto simp: count_inv_def card_gt_0_iff)
    have "mControllable (poll s)" using ctl f(1) m(2) by simp
    with flushing_step [OF inv(3) m(1) rel _ fl' _ waiting empty(1)] empty(2) m(2) j
    have "flushing_on (pcs t j)" by (cases "j = k") (simp_all add: m(3))
    then show ?thesis ..
  qed
qed

lemma flush_inv_act:
  assumes inv: "flush_inv s" "count_inv s" "byte_inv s" and act: "pact a s = Some t"
    and rel: "reliable_ok a"
  shows "flush_inv t"
  unfolding flush_inv_def
proof (intro allI impI)
  fix i timeout
  assume w: "pcs t i = WPoll timeout" and fl: "mFlushing (poll t)" and ctl: "mControllable (poll t)"
    and empty: "sock (poll t) = 0"
  have before: "sock (poll s) = 0" using byte_inv_act(2) [OF inv(3) act] empty by simp
  show "\<exists>j. flushing_on (pcs t j)"
  proof (cases a)
    case (Move k n rs)
    from flush_inv_move [OF inv act [unfolded Move] rel [unfolded Move] w fl ctl before empty] show ?thesis .
  next
    case (Wait k timeoutNs)
    with act w have "pcs s i = WPoll timeout" "poll t = poll s" by (auto split: if_splits)
    with inv(1) fl ctl empty obtain j where "flushing_on (pcs s j)" by (auto simp: flush_inv_def)
    with act Wait show ?thesis by (intro exI [of _ j]) (auto dest: flushing_busy split: if_splits)
  next
    case (SetFlushing k b)
    with act w have "pcs s i = WPoll timeout" "poll t = poll s" by (auto split: if_splits)
    with inv(1) fl ctl empty obtain j where "flushing_on (pcs s j)" by (auto simp: flush_inv_def)
    with act SetFlushing show ?thesis by (intro exI [of _ j]) (auto dest: flushing_busy split: if_splits)
  qed
qed

definition shared_ok :: "psys \<Rightarrow> bool" where
  "shared_ok s \<longleftrightarrow> count_inv s \<and> byte_inv s"

definition reliable_inv :: "psys \<Rightarrow> bool" where
  "reliable_inv s \<longleftrightarrow> shared_ok s \<and> flush_inv s"

lemma pinit_inv: "pinit s \<Longrightarrow> shared_ok s" "pinit s \<Longrightarrow> reliable_inv s"
  by (simp_all add: pinit_def shared_ok_def reliable_inv_def count_inv_def byte_inv_def flush_inv_def)

interpretation polling: invariant_system pinit "pmove reliable" shared_ok for reliable
proof
  show "shared_ok t" if "shared_ok s" "pmove reliable s t" for s t
    using that by (auto simp: shared_ok_def elim!: pmove.cases intro: count_inv_act byte_inv_act)
qed (rule pinit_inv)

interpretation reliably: invariant_system pinit "pmove True" reliable_inv
proof
  show "reliable_inv t" if "reliable_inv s" "pmove True s t" for s t
    using that by (auto simp: reliable_inv_def shared_ok_def elim!: pmove.cases
      intro: count_inv_act byte_inv_act flush_inv_act)
qed (rule pinit_inv)

lemma sock_monotone:
  assumes "reach (\<lambda>u. u = s) (pmove reliable) t" and "shared_ok s"
  shows "sock (poll s) \<le> sock (poll t) \<and> shared_ok t"
  using assms(1)
proof induction
  case (reach_step t u)
  from reach_step(2) obtain a where a: "pact a t = Some u" by (auto elim: pmove.cases)
  with reach_step.IH show ?case
    using byte_inv_act [of t a u] count_inv_act [of t a u] by (auto simp: shared_ok_def)
qed (use assms(2) in auto)

section \<open>Sample runs\<close>

definition pstart :: psys where
  "pstart = \<lparr>poll = sample_poll, pcs = (\<lambda>_. PIdle)\<rparr>"

definition poll_after :: "paction list \<Rightarrow> psys" where
  "poll_after as = the (perform pact as pstart)"

lemma reach_poll_after:
  assumes "perform pact as pstart \<noteq> None" and "list_all reliable_ok as"
  shows "reach pinit (pmove r) (poll_after as)"
proof -
  obtain t where t: "perform pact as pstart = Some t" using assms(1) by auto
  have start: "reach pinit (pmove r) pstart"
    by (rule reach_init) (simp add: pinit_def pstart_def sample_poll_def)
  have "reach pinit (pmove r) t"
    by (rule perform_reach [OF start t]) (use assms(2) in \<open>auto simp: list_all_iff intro: pmove\<close>)
  then show ?thesis using t by (simp add: poll_after_def)
qed

lemmas poll_eval = pstart_def sample_poll_def raiseWakeup_def wakeEvent_def

text \<open>A thread enters \<open>poll\<close>, another one sets flushing.\<close>

definition waiting_run :: "paction list" where
  "waiting_run = [Wait 0 (- 1), Move 0 0 [(1, 0)], Move 0 0 [(1, 0)], Move 0 0 [(1, 0)]]"

definition flushed_run :: "paction list" where
  "flushed_run = waiting_run @ [SetFlushing 1 True, Move 1 0 [(1, 0)], Move 1 0 [(1, 0)],
     Move 1 0 [(1, 0)], Move 1 0 [(1, 0)]]"

lemma sample_poll_runs:
  "perform pact waiting_run pstart \<noteq> None" "list_all reliable_ok waiting_run"
  "perform pact flushed_run pstart \<noteq> None" "list_all reliable_ok flushed_run"
  "pcs (poll_after flushed_run) 0 = WPoll (- 1)" "mFlushing (poll (poll_after flushed_run))"
  "mControllable (poll (poll_after flushed_run))" "pcs (poll_after flushed_run) 1 = PDone 0"
  "\<not> flushing_on (pcs (poll_after flushed_run) j)"
  by (simp_all add: waiting_run_def flushed_run_def poll_after_def poll_eval poll_timeout_def to_i32_def)

section \<open>Properties\<close>

text \<open>
  C28 (liveness): no wake-up by \<open>setFlushing\<close> is lost. In every reachable state of any number of
  waiters and flushers of a controllable set, as long as writes to the control socket succeed:
  while flushing is set and a thread is inside \<open>poll\<close>, the control socket, which it polls, is
  readable, or a call of \<open>setFlushing\<close> is still on its way to make it so; and the thread that
  comes back while flushing is set returns -1.
\<close>

theorem flushing_wakes:
  assumes "reach pinit (pmove True) s" and "pcs s i = WPoll t"
    and "mFlushing (poll s)" and "mControllable (poll s)"
  shows "(0 < sock (poll s) \<or> (\<exists>j. flushing_on (pcs s j))) \<and>
    poll_step n rs (poll s) (WAfter n) = Some (WSub (- 1), poll s)"
  using reliably.reach_inv [OF assms(1)] assms(2-4)
  by (auto simp: reliable_inv_def flush_inv_def)

theorem flushing_wakes_witness:
  "pcs (poll_after flushed_run) 0 = WPoll (- 1) \<and> 0 < sock (poll (poll_after flushed_run))"
proof -
  note r = sample_poll_runs
  from flushing_wakes [OF reach_poll_after [OF r(3,4)] r(5,6,7)] r(9)
  have "0 < sock (poll (poll_after flushed_run))" by blast
  with r(5) show ?thesis by simp
qed

text \<open>
  \<open>mWaiting\<close> is exactly the number of threads between their increment and their
  decrement, on every path through \<open>wait\<close>, so it is never negative and is zero when nobody
  waits.
\<close>

theorem waiting_count:
  assumes "reach pinit (pmove reliable) s"
  shows "mWaiting (poll s) = int (card {i. counted (pcs s i)}) \<and> finite {i. counted (pcs s i)}"
  using polling.reach_inv [OF assms] by (simp add: shared_ok_def count_inv_def)

theorem waiting_count_witness:
  "mWaiting (poll (poll_after waiting_run)) = int (card {i. counted (pcs (poll_after waiting_run) i)})"
  using waiting_count [OF reach_poll_after [OF sample_poll_runs(1,2)]] by blast

text \<open>
  A wake-up is never taken back. Once the byte is in the control socket it stays
  there in every later state, also after \<open>setFlushing(false)\<close>: \<open>wait\<close> never calls
  \<open>releaseWakeup\<close>, although the comment says that it clears the wake-up, so every later
  \<open>poll\<close> on the set finds a readable descriptor at once.
\<close>

theorem wakeup_never_released:
  assumes "reach pinit (pmove reliable) s" and "reach (\<lambda>u. u = s) (pmove reliable) t"
    and "mControlPending (poll s) \<noteq> 0"
  shows "0 < sock (poll t)"
proof -
  have ok: "shared_ok s" by (rule polling.reach_inv [OF assms(1)])
  then have "0 < sock (poll s)" using assms(3) by (simp add: shared_ok_def byte_inv_def)
  with sock_monotone [OF assms(2) ok] show ?thesis by linarith
qed

theorem wakeup_never_released_witness:
  "0 < sock (poll (poll_after flushed_run))"
proof (rule wakeup_never_released [OF reach_poll_after [OF sample_poll_runs(3,4)]])
  show "reach (\<lambda>u. u = poll_after flushed_run) (pmove True) (poll_after flushed_run)"
    by (rule reach_init) simp
  show "mControlPending (poll (poll_after flushed_run)) \<noteq> 0"
    by (simp add: waiting_run_def flushed_run_def poll_after_def poll_eval to_i32_def)
qed

text \<open>
  \<open>wait\<close> does not keep a second thread out. The load of \<open>mWaiting\<close> and the
  increment are two steps: two threads that both load 0 both end up inside \<open>poll\<close>.
\<close>

theorem two_pollers:
  "\<exists>s. reach pinit (pmove True) s \<and> pcs s 0 = WPoll (- 1) \<and> pcs s 1 = WPoll (- 1)"
proof (intro exI conjI)
  let ?as = "[Wait 0 (- 1), Wait 1 (- 1), Move 0 0 [(1, 0)], Move 1 0 [(1, 0)], Move 0 0 [(1, 0)],
    Move 1 0 [(1, 0)], Move 0 0 [(1, 0)], Move 1 0 [(1, 0)]]"
  show "reach pinit (pmove True) (poll_after ?as)"
    by (rule reach_poll_after) (simp_all add: poll_eval)
  show "pcs (poll_after ?as) 0 = WPoll (- 1)" "pcs (poll_after ?as) 1 = WPoll (- 1)"
    by (simp_all add: poll_after_def poll_eval poll_timeout_def to_i32_def)
qed

end
