(* ===== verification/Poll_Map.thy ===== *)
theory Poll_Map
  imports Poll
begin

text \<open>
  The descriptor set of \<open>Poll\<close> as a map from descriptors to event masks: \<open>addFd\<close>, \<open>setFdReadable\<close>
  and \<open>setFdWritable\<close> implement the operations of the map, result codes included, for any sequence
  of calls. A call of \<open>wait\<close> by a single thread, and what \<open>isReadable\<close> and \<open>isWritable\<close> answer after it.
\<close>

unbundle bit_operations_syntax

section \<open>The map\<close>

definition masks :: "Poll \<Rightarrow> int \<Rightarrow> 16 word option" where
  "masks p = map_of (map (\<lambda>e. (fd e, events e)) (entries p))"

datatype fd_op = AddFd int "pollfd list option" | SetReadable int bool | SetWritable int bool

definition set_mask :: "int \<Rightarrow> (16 word \<Rightarrow> 16 word) \<Rightarrow> (int \<Rightarrow> 16 word option) \<Rightarrow> int \<times> (int \<Rightarrow> 16 word option)" where
  "set_mask x f m =
     (case m x of None \<Rightarrow> (error_value ERROR_BAD_VALUE, m) | Some w \<Rightarrow> (error_value NO_ERROR, m(x \<mapsto> f w)))"

fun spec_fd :: "fd_op \<Rightarrow> (int \<Rightarrow> 16 word option) \<Rightarrow> int \<times> (int \<Rightarrow> 16 word option)" where
  "spec_fd (AddFd x grown) m =
     (error_value NO_ERROR, if x \<in> dom m then m else m(x \<mapsto> POLLERR OR POLLNVAL OR POLLHUP))"
| "spec_fd (SetReadable x b) m = set_mask x (\<lambda>w. if b then w OR (POLLIN OR POLLPRI) else w AND NOT POLLIN) m"
| "spec_fd (SetWritable x b) m = set_mask x (\<lambda>w. if b then w OR POLLOUT else w AND NOT POLLOUT) m"

text \<open>\<open>grown\<close> is what \<open>realloc\<close> adds, if it is called; it must not fail.\<close>

fun fd_call :: "fd_op \<Rightarrow> Poll \<Rightarrow> (int \<times> Poll) option" where
  "fd_call (AddFd x grown) p = addFd grown x p"
| "fd_call (SetReadable x b) p = setFdReadable x b p"
| "fd_call (SetWritable x b) p = setFdWritable x b p"

fun has_memory :: "fd_op \<Rightarrow> bool" where
  "has_memory (AddFd x grown) = (case grown of None \<Rightarrow> False | Some g \<Rightarrow> length g = INCREASE_ACTIVE_FDS)"
| "has_memory _ = True"

section \<open>The set implements the map\<close>

lemma dom_masks: "dom (masks p) = set (fds p)"
  by (simp add: masks_def dom_map_of_conv_image_fst image_image)

lemma masks_entry:
  assumes "poll_wf p" and "i < mFdsCnt p"
  shows "masks p (fd (entries p ! i)) = Some (events (entries p ! i))"
proof -
  have "distinct (map fst (map (\<lambda>e. (fd e, events e)) (entries p)))"
    using assms(1) by (simp add: poll_wf_def comp_def)
  moreover have "(fd (entries p ! i), events (entries p ! i)) \<in> set (map (\<lambda>e. (fd e, events e)) (entries p))"
    using assms poll_wf_entries [OF assms(1)] by simp
  ultimately show ?thesis unfolding masks_def by (rule map_of_is_SomeI)
qed

lemma masks_some:
  assumes "poll_wf p"
  shows "masks p x = Some w \<longleftrightarrow> (\<exists>e\<in>set (entries p). fd e = x \<and> events e = w)"
proof
  assume "masks p x = Some w"
  then show "\<exists>e\<in>set (entries p). fd e = x \<and> events e = w" 
    using map_of_SomeD [of "map (\<lambda>e. (fd e, events e)) (entries p)" x w] by (auto simp: masks_def)
next
  assume "\<exists>e\<in>set (entries p). fd e = x \<and> events e = w"
  then show "masks p x = Some w"
    using masks_entry [OF assms] poll_wf_entries [OF assms] by (auto simp: in_set_conv_nth)
qed

lemma masks_update:
  assumes wf: "poll_wf p" and i: "i < mFdsCnt p" and q: "entries q = (entries p)[i := e]"
    and fd: "fd e = fd (entries p ! i)"
  shows "masks q = (masks p)(fd e \<mapsto> events e)"
proof -
  have len: "length (entries p) = mFdsCnt p" using wf by (rule poll_wf_entries)
  have d: "distinct (fds p)" using wf by (simp add: poll_wf_def)
  have same: "fds q = fds p"
  proof -
    have "fds q = (fds p)[i := fds p ! i]" unfolding q map_update using i fd len by simp
    then show ?thesis by (simp only: list_update_id)
  qed
  show ?thesis
  proof
    fix y
    show "masks q y = ((masks p)(fd e \<mapsto> events e)) y"
    proof (cases "y \<in> set (fds p)")
      case False
      then have "y \<notin> dom (masks q)" "y \<notin> dom (masks p)" unfolding dom_masks same by simp_all
      then have "masks q y = None" "masks p y = None" by (simp_all add: domIff)
      moreover have "y \<noteq> fd e" using False i len fd by auto
      ultimately show ?thesis by simp
    next
      case True
      then obtain k where k: "k < length (entries p)" "fd (entries p ! k) = y"
        by (auto simp: in_set_conv_nth)
      have "map_of (map (\<lambda>e. (fd e, events e)) (entries q)) y = Some (events (entries q ! k))"
      proof (rule map_of_is_SomeI)
        show "distinct (map fst (map (\<lambda>e. (fd e, events e)) (entries q)))" using d same by (simp add: comp_def)
        have "fd (entries q ! k) = y" "k < length (entries q)" using k q fd i len by (auto simp: nth_list_update)
        then show "(y, events (entries q ! k)) \<in> set (map (\<lambda>e. (fd e, events e)) (entries q))"
          using nth_mem [of k "entries q"] by auto
      qed
      moreover have "k = i \<longleftrightarrow> y = fd e" using k i fd len d by (auto simp: distinct_conv_nth)
      moreover have "masks p y = Some (events (entries p ! k))"
        using masks_entry [OF wf, of k] k len by simp
      ultimately show ?thesis using q k len by (auto simp: masks_def nth_list_update)
    qed
  qed
qed

lemma addFd_masks:
  assumes wf: "poll_wf p" and g: "has_memory (AddFd x grown)"
  shows "\<exists>q. addFd grown x p = Some (error_value NO_ERROR, q) \<and> poll_wf q \<and>
    spec_fd (AddFd x grown) (masks p) = (error_value NO_ERROR, masks q)"
proof -
  from g obtain gs where "grown = Some gs" "length gs = INCREASE_ACTIVE_FDS" by (auto split: option.splits)
  from addFd_appends [OF wf this, of x] obtain q where
    q: "addFd grown x p = Some (error_value NO_ERROR, q)" "poll_wf q"
      "entries q = (if x \<in> set (fds p) then entries p else entries p @ [new_entry x])" by blast
  have "masks q = (if x \<in> dom (masks p) then masks p else (masks p)(x \<mapsto> POLLERR OR POLLNVAL OR POLLHUP))"
  proof (cases "x \<in> set (fds p)")
    case True
    then show ?thesis using q(3) dom_masks [of p] by (simp add: masks_def)
  next
    case False
    then have none: "x \<notin> dom (masks p)" by (simp add: dom_masks)
    have "masks q y = ((masks p)(x \<mapsto> POLLERR OR POLLNVAL OR POLLHUP)) y" for y
      using none False q(3)
      by (cases "masks p y") (auto simp: masks_def map_of_append map_add_def new_entry_def domIff)
    then show ?thesis using none by (simp add: fun_eq_iff)
  qed
  with q show ?thesis by simp
qed

lemma setFd_masks:
  assumes wf: "poll_wf p"
  shows "\<exists>r q. setFdReadable x b p = Some (r, q) \<and> poll_wf q \<and> spec_fd (SetReadable x b) (masks p) = (r, masks q)"
    and "\<exists>r q. setFdWritable x b p = Some (r, q) \<and> poll_wf q \<and> spec_fd (SetWritable x b) (masks p) = (r, masks q)"
proof (atomize (full), cases "x \<in> set (fds p)")
  case False
  then have "masks p x = None" using dom_masks [of p] by (auto simp: domIff)
  then show "(\<exists>r q. setFdReadable x b p = Some (r, q) \<and> poll_wf q \<and> spec_fd (SetReadable x b) (masks p) = (r, masks q)) \<and>
    (\<exists>r q. setFdWritable x b p = Some (r, q) \<and> poll_wf q \<and> spec_fd (SetWritable x b) (masks p) = (r, masks q))"
    using setFd_correct [OF wf, of x b] False wf by (simp add: set_mask_def)
next
  case True
  then obtain i where i: "i < mFdsCnt p" "fd (entries p ! i) = x" by (rule fds_index [OF wf])
  note m = masks_entry [OF wf i(1), unfolded i(2)]
  from setFd_correct [OF wf, of x b] i obtain q q' where
    q: "setFdReadable x b p = Some (error_value NO_ERROR, q)" "poll_wf q"
      "entries q = (entries p)[i := (entries p ! i)\<lparr>events :=
          (if b then events (entries p ! i) OR (POLLIN OR POLLPRI)
           else events (entries p ! i) AND NOT POLLIN)\<rparr>]" and
    q': "setFdWritable x b p = Some (error_value NO_ERROR, q')" "poll_wf q'"
      "entries q' = (entries p)[i := (entries p ! i)\<lparr>events :=
          (if b then events (entries p ! i) OR POLLOUT
           else events (entries p ! i) AND NOT POLLOUT)\<rparr>]" by blast
  show "(\<exists>r q. setFdReadable x b p = Some (r, q) \<and> poll_wf q \<and> spec_fd (SetReadable x b) (masks p) = (r, masks q)) \<and>
    (\<exists>r q. setFdWritable x b p = Some (r, q) \<and> poll_wf q \<and> spec_fd (SetWritable x b) (masks p) = (r, masks q))"
    using q q' m masks_update [OF wf i(1) q(3)] masks_update [OF wf i(1) q'(3)] i(2)
    by (simp add: set_mask_def)
qed

interpretation fd_set: specified_object poll_wf masks has_memory fd_call spec_fd
proof
  fix p x assume wf: "poll_wf p" and x: "has_memory x"
  show "\<exists>r q. fd_call x p = Some (r, q) \<and> poll_wf q \<and> spec_fd x (masks p) = (r, masks q)"
  proof (cases x)
    case (AddFd y grown)
    with addFd_masks [OF wf x [unfolded AddFd]] show ?thesis by auto
  next
    case (SetReadable y b)
    with setFd_masks(1) [OF wf] show ?thesis by simp
  next
    case (SetWritable y b)
    with setFd_masks(2) [OF wf] show ?thesis by simp
  qed
qed

section \<open>Waiting\<close>

text \<open>
  \<open>wait\<close> by a thread that nobody disturbs: \<open>sys\<close> is the system call \<open>poll\<close> on the first
  \<open>mFdsCnt\<close> entries, with the timeout; it returns a count and the entries with their \<open>revents\<close>.
\<close>

definition wait_alone ::
  "(pollfd list \<Rightarrow> int \<Rightarrow> int \<times> pollfd list) \<Rightarrow> int \<Rightarrow> Poll \<Rightarrow> int \<times> Poll" where
  "wait_alone sys timeoutNs p =
     (let oldwaiting = mWaiting p; p1 = p\<lparr>mWaiting := mWaiting p + 1\<rparr>
      in if oldwaiting > 0 then (- 1, p1\<lparr>mWaiting := mWaiting p1 - 1\<rparr>)
         else if mFlushing p1 then (- 1, p1\<lparr>mWaiting := mWaiting p1 - 1\<rparr>)
         else
           let (activecnt, es) = sys (entries p1) (poll_timeout timeoutNs);
               p2 = p1\<lparr>mFds := map_option (\<lambda>mem. es @ drop (mFdsCnt p1) mem) (mFds p1)\<rparr>
           in if mFlushing p2 then (- 1, p2\<lparr>mWaiting := mWaiting p2 - 1\<rparr>)
              else (activecnt, p2\<lparr>mWaiting := mWaiting p2 - 1\<rparr>))"

text \<open>
  What \<open>poll(2)\<close> documents: of a nonnegative descriptor it returns the events among those asked for,
  and the error events, that are \<open>ready\<close>; of a negative one none; it returns the number of entries
  with an event.
\<close>

definition documented :: "(int \<Rightarrow> 16 word) \<Rightarrow> (pollfd list \<Rightarrow> int \<Rightarrow> int \<times> pollfd list) \<Rightarrow> bool" where
  "documented ready sys \<longleftrightarrow> (\<forall>es t.
     snd (sys es t) = map (\<lambda>e. e\<lparr>revents := (if fd e < 0 then 0
       else ready (fd e) AND (events e OR (POLLERR OR POLLHUP OR POLLNVAL)))\<rparr>) es \<and>
     fst (sys es t) = int (length (filter (\<lambda>e. revents e \<noteq> 0) (snd (sys es t)))))"

lemma find_loop_test:
  assumes wf: "poll_wf p"
  shows "map_option (\<lambda>r. r \<noteq> None) (find_loop P p 0 (mFdsCnt p)) = Some (\<exists>e\<in>set (entries p). P e)"
proof -
  note len = poll_wf_entries [OF wf]
  have "\<exists>r. find_loop P p 0 (mFdsCnt p) = Some r \<and> (r \<noteq> None) = (\<exists>e\<in>set (entries p). P e)"
  proof (cases "\<exists>e\<in>set (entries p). P e")
    case False
    then have "find_loop P p 0 (mFdsCnt p) = Some None"
      using len by (intro find_loop_none [of _ _ _ "\<lambda>k. entries p ! k"]) (auto simp: slot_entry [OF wf])
    with False show ?thesis by simp
  next
    case True
    define k where "k = (LEAST k. k < mFdsCnt p \<and> P (entries p ! k))"
    from True obtain j where "j < mFdsCnt p \<and> P (entries p ! j)" using len by (auto simp: in_set_conv_nth)
    then have k: "k < mFdsCnt p \<and> P (entries p ! k)" unfolding k_def by (rule LeastI)
    have least: "\<not> P (entries p ! i)" if "i < k" for i
      using not_less_Least [of i "\<lambda>k. k < mFdsCnt p \<and> P (entries p ! k)"] that k unfolding k_def by fastforce
    have "find_loop P p 0 (mFdsCnt p) = Some (Some k)"
      by (rule find_loop_some [of 0 k p "\<lambda>k. entries p ! k"]) (use k least in \<open>auto simp: slot_entry [OF wf]\<close>)
    with True show ?thesis by simp
  qed
  then show ?thesis by auto
qed

lemma documentedD:
  assumes "documented ready sys"
  shows "snd (sys es t) = map (\<lambda>e. e\<lparr>revents := (if fd e < 0 then 0
      else ready (fd e) AND (events e OR (POLLERR OR POLLHUP OR POLLNVAL)))\<rparr>) es"
    and "fst (sys es t) = int (length (filter (\<lambda>e. revents e \<noteq> 0) (snd (sys es t))))"
  using assms unfolding documented_def by blast+

lemma wait_alone_entries:
  assumes wf: "poll_wf p" and idle: "mWaiting p = 0" "\<not> mFlushing p" and doc: "documented ready sys"
  obtains q where "wait_alone sys t p = (fst (sys (entries p) (poll_timeout t)), q)" "poll_wf q"
    "entries q = snd (sys (entries p) (poll_timeout t))" "mFdsCnt q = mFdsCnt p" "mWaiting q = 0"
proof -
  have e1: "entries (p\<lparr>mWaiting := w\<rparr>) = entries p" for w by (simp add: entries_def)
  obtain n es where k: "sys (entries p) (poll_timeout t) = (n, es)" by fastforce
  have es: "es = map (\<lambda>e. e\<lparr>revents := (if fd e < 0 then 0
      else ready (fd e) AND (events e OR (POLLERR OR POLLHUP OR POLLNVAL)))\<rparr>) (entries p)"
    using documentedD(1) [OF doc, of "entries p" "poll_timeout t"] k by simp
  have len: "length es = mFdsCnt p" using es poll_wf_entries [OF wf] by simp
  let ?q = "p\<lparr>mFds := map_option (\<lambda>mem. es @ drop (mFdsCnt p) mem) (mFds p), mWaiting := 0\<rparr>"
  have w: "wait_alone sys t p = (n, ?q)"
    using idle by (simp add: wait_alone_def e1 k Let_def)
  have "mFdsCnt p = 0 \<or> (\<exists>mem. mFds p = Some mem)" using wf by (cases "mFds p") (auto simp: poll_wf_def)
  then have eq: "entries ?q = es" using len by (cases "mFds p") (auto simp: entries_def)
  have "map fd es = fds p" by (simp add: es)
  with eq have "fds ?q = fds p" by (simp only:)
  then have "poll_wf ?q" using wf len by (cases "mFds p") (auto simp: poll_wf_def)
  with eq w k show thesis by (intro that [of ?q]) simp_all
qed

section \<open>Properties of the map\<close>

text \<open>
  C30 (refinement): for every sequence of \<open>addFd\<close>, \<open>setFdReadable\<close> and \<open>setFdWritable\<close> calls with
  enough memory, on a well-formed set, no access is out of bounds and each call returns what the same
  operation of the map of masks returns; the set stays well-formed and its masks are the map. For
  a descriptor that is not in the set \<open>setFdReadable\<close> and \<open>setFdWritable\<close> return \<open>ERROR_BAD_VALUE\<close>, which
  is \<open>- EINVAL\<close>; the comments of \<open>Poll.h\<close> say -1.
\<close>

theorem fd_set_map:
  assumes "poll_wf p" and "list_all has_memory xs"
  shows "\<exists>rs q. run_object fd_call xs p = Some (rs, q) \<and> poll_wf q \<and> run_spec spec_fd xs (masks p) = (rs, masks q)"
  using assms by (rule fd_set.run_refines)

theorem fd_set_map_witness:
  "\<exists>q. run_object fd_call [AddFd 9 (Some (replicate 8 (new_entry 0))), SetReadable 9 True, SetWritable 5 True]
      sample_poll = Some ([0, 0, - EINVAL], q) \<and> masks q 9 = Some 0x3B"
proof -
  let ?xs = "[AddFd 9 (Some (replicate 8 (new_entry 0))), SetReadable 9 True, SetWritable 5 True]"
  have "list_all has_memory ?xs" by (simp add: INCREASE_ACTIVE_FDS_def)
  from fd_set_map [OF sample_poll_facts(1) this] obtain rs q where
    q: "run_object fd_call ?xs sample_poll = Some (rs, q)" "run_spec spec_fd ?xs (masks sample_poll) = (rs, masks q)"
    by blast
  have "masks sample_poll = [3 \<mapsto> 0x38]"
    by (simp add: masks_def sample_poll_facts new_entry_def poll_bits)
  with q(2) have "(rs, masks q) = ([0, 0, - EINVAL], [3 \<mapsto> 0x38, 9 \<mapsto> 0x3B])"
    by (simp add: set_mask_def poll_bits)
  with q(1) show ?thesis by simp
qed

text \<open>
  C31 (functional): when \<open>poll\<close> behaves as documented, \<open>wait\<close> by one undisturbed thread returns the
  number of descriptors with an event and keeps the set and its masks. Afterwards \<open>isReadable\<close> and
  \<open>isWritable\<close> answer true exactly for a nonnegative descriptor of the set that is ready for reading,
  or for writing, and was switched on for it.
\<close>

theorem wait_ready:
  assumes wf: "poll_wf p" and idle: "mWaiting p = 0" "\<not> mFlushing p" and doc: "documented ready sys"
  shows "\<exists>n q. wait_alone sys t p = (n, q) \<and> poll_wf q \<and> masks q = masks p \<and> mWaiting q = 0 \<and>
    n = int (length (filter (\<lambda>e. revents e \<noteq> 0) (entries q))) \<and>
    isReadable x q = Some (0 \<le> x \<and>
      (\<exists>w. masks p x = Some w \<and> ready x AND (w OR (POLLERR OR POLLHUP OR POLLNVAL)) AND (POLLIN OR POLLRDNORM) \<noteq> 0)) \<and>
    isWritable x q = Some (0 \<le> x \<and>
      (\<exists>w. masks p x = Some w \<and> ready x AND (w OR (POLLERR OR POLLHUP OR POLLNVAL)) AND POLLOUT \<noteq> 0))"
proof -
  obtain q where q: "wait_alone sys t p = (fst (sys (entries p) (poll_timeout t)), q)" "poll_wf q"
    "entries q = snd (sys (entries p) (poll_timeout t))" "mFdsCnt q = mFdsCnt p" "mWaiting q = 0"
    by (rule wait_alone_entries [OF assms])
  let ?f = "\<lambda>e. e\<lparr>revents := (if fd e < 0 then 0
      else ready (fd e) AND (events e OR (POLLERR OR POLLHUP OR POLLNVAL)))\<rparr>"
  have es: "entries q = map ?f (entries p)" using q(3) documentedD(1) [OF doc] by simp
  have m: "masks q = masks p" by (simp add: masks_def es comp_def)
  have some: "(\<exists>e\<in>set (entries q). fd e = x \<and> revents e AND bits \<noteq> 0) \<longleftrightarrow>
      0 \<le> x \<and> (\<exists>w. masks p x = Some w \<and> ready x AND (w OR (POLLERR OR POLLHUP OR POLLNVAL)) AND bits \<noteq> 0)" for bits
  proof -
    let ?ev = "\<lambda>w. ready x AND (w OR (POLLERR OR POLLHUP OR POLLNVAL)) AND bits \<noteq> 0"
    have one: "fd (?f e) = x \<and> revents (?f e) AND bits \<noteq> 0 \<longleftrightarrow> fd e = x \<and> 0 \<le> x \<and> ?ev (events e)" for e
      by (cases "fd e = x"; cases "x < 0") (simp_all add: and.assoc)
    have "(\<exists>e\<in>set (entries q). fd e = x \<and> revents e AND bits \<noteq> 0) \<longleftrightarrow>
        (\<exists>e\<in>set (entries p). fd (?f e) = x \<and> revents (?f e) AND bits \<noteq> 0)"
      unfolding es by (simp only: set_map bex_simps)
    also have "\<dots> \<longleftrightarrow> (\<exists>e\<in>set (entries p). fd e = x \<and> 0 \<le> x \<and> ?ev (events e))"
      by (simp only: one)
    also have "\<dots> \<longleftrightarrow> 0 \<le> x \<and> (\<exists>w. masks p x = Some w \<and> ?ev w)"
      unfolding masks_some [OF wf] by blast
    finally show ?thesis .
  qed
  have "isReadable x q = Some (\<exists>e\<in>set (entries q). fd e = x \<and> revents e AND (POLLIN OR POLLRDNORM) \<noteq> 0)"
    and "isWritable x q = Some (\<exists>e\<in>set (entries q). fd e = x \<and> revents e AND POLLOUT \<noteq> 0)"
    unfolding isReadable_def isWritable_def by (rule find_loop_test [OF q(2)])+
  then show ?thesis using q m documentedD(2) [OF doc] unfolding some by (intro exI conjI) (simp_all add: some)
qed

definition readable_poll :: Poll where
  "readable_poll = sample_poll\<lparr>mFds := Some (replicate 8 \<lparr>fd = 3, events = 0x3B, revents = 0\<rparr>)\<rparr>"

definition sample_sys :: "pollfd list \<Rightarrow> int \<Rightarrow> int \<times> pollfd list" where
  "sample_sys es t =
     (let fs = map (\<lambda>e. e\<lparr>revents := (if fd e < 0 then 0
         else POLLIN AND (events e OR (POLLERR OR POLLHUP OR POLLNVAL)))\<rparr>) es
      in (int (length (filter (\<lambda>e. revents e \<noteq> 0) fs)), fs))"

theorem wait_ready_witness:
  "\<exists>q. wait_alone sample_sys (- 1) readable_poll = (1, q) \<and> isReadable 3 q = Some True \<and> isWritable 3 q = Some False"
proof -
  have wf: "poll_wf readable_poll" "mWaiting readable_poll = 0" "\<not> mFlushing readable_poll"
    by (simp_all add: readable_poll_def sample_poll_def poll_wf_def entries_def numeral_eq_Suc)
  have doc: "documented (\<lambda>_. POLLIN) sample_sys" by (simp add: documented_def sample_sys_def Let_def)
  have m: "masks readable_poll 3 = Some 0x3B"
    by (simp add: masks_def readable_poll_def sample_poll_def entries_def numeral_eq_Suc)
  have "fst (wait_alone sample_sys (- 1) readable_poll) = 1"
    by (simp add: wait_alone_def readable_poll_def sample_poll_def entries_def sample_sys_def poll_bits Let_def
        numeral_eq_Suc)
  with wait_ready [OF wf doc, of "- 1" 3] m show ?thesis by (auto simp: poll_bits)
qed

end
