(* ===== verification/Poll_Life.thy ===== *)
theory Poll_Life
  imports Poll_Map
begin

text \<open>
  The life of a \<open>Poll\<close> object: what the constructor builds, what the destructor closes and frees,
  and a thread inside \<open>wait\<close> while others change the set. \<open>wait\<close> hands \<open>mFds\<close> and \<open>mFdsCnt\<close> to
  \<open>poll\<close> without the mutex, and \<open>addFd\<close> may move the array meanwhile.
\<close>

unbundle bit_operations_syntax

section \<open>Construction and deletion\<close>

text \<open>The destructor: the descriptors it closes, in order, and whether it frees the array.\<close>

definition Poll_delete :: "Poll \<Rightarrow> int list \<times> bool" where
  "Poll_delete p =
     ((if mControlWriteFd p \<ge> 0 then [mControlWriteFd p] else []) @
      (if mControlReadFd p \<ge> 0 then [mControlReadFd p] else []), mFds p \<noteq> None)"

lemma Poll_new_built:
  assumes g: "length g = INCREASE_ACTIVE_FDS"
  obtains p where "Poll_new c pair (Some g) = Some p" "poll_wf p"
    "entries p = [(new_entry (case pair of None \<Rightarrow> - 1 | Some (r, w) \<Rightarrow> r))\<lparr>events := 0x3B\<rparr>]"
    "mFdsMaxCnt p = INCREASE_ACTIVE_FDS" "mFds p \<noteq> None" "mFdsCnt p = 1"
    "mControlReadFd p = (case pair of None \<Rightarrow> - 1 | Some (r, w) \<Rightarrow> r)"
    "mControlWriteFd p = (case pair of None \<Rightarrow> - 1 | Some (r, w) \<Rightarrow> w)"
    "mWaiting p = 0" "\<not> mFlushing p" "mControlPending p = 0" "sock p = 0"
proof -
  obtain e g' where e: "g = e # g'" "length g' = 7"
    using g by (cases g) (auto simp: INCREASE_ACTIVE_FDS_def)
  obtain x w where x: "x = (case pair of None \<Rightarrow> - 1 | Some (r, w) \<Rightarrow> r)"
    "w = (case pair of None \<Rightarrow> - 1 | Some (r, w) \<Rightarrow> w)" by blast
  let ?p = "\<lparr>mControlReadFd = x, mControlWriteFd = w, mFds = Some ((new_entry x)\<lparr>events := 0x3B\<rparr> # g'),
    mFdsMaxCnt = INCREASE_ACTIVE_FDS, mFdsCnt = 1, mControllable = c, mControlPending = 0,
    mFlushing = False, mWaiting = 0, sock = 0\<rparr>"
  have "Poll_new c pair (Some g) = Some ?p"
    unfolding Poll_new_def x [symmetric] using e
    by (simp add: addFd_def findFd_def set_slot_def slot_def setFdReadable_def Let_def
        INCREASE_ACTIVE_FDS_def new_entry_def poll_bits)
  then show thesis using e x
    by (intro that [of ?p]) (simp_all add: poll_wf_def entries_def INCREASE_ACTIVE_FDS_def)
qed

section \<open>Waiting while the set changes\<close>

text \<open>
  \<open>array\<close> numbers the places the array has had; \<open>given\<close> is what the thread inside \<open>poll\<close> was given:
  an array and a number of entries. Growing the array may move it.
\<close>

record prace =
  pobj :: Poll
  array :: nat
  given :: "(nat \<times> nat) option"

definition write_revents :: "16 word list \<Rightarrow> Poll \<Rightarrow> Poll" where
  "write_revents rv p = p\<lparr>mFds := map_option (\<lambda>mem.
     map2 (\<lambda>e v. e\<lparr>revents := v\<rparr>) (take (length rv) mem) rv @ drop (length rv) mem) (mFds p)\<rparr>"

inductive rmove :: "int set \<Rightarrow> prace \<Rightarrow> prace \<Rightarrow> bool" for F where
  add: "x \<in> F \<Longrightarrow> length g = INCREASE_ACTIVE_FDS \<Longrightarrow> addFd (Some g) x (pobj s) = Some (r, q) \<Longrightarrow>
    rmove F s (s\<lparr>pobj := q, array := array s + (if mFdsMaxCnt q = mFdsMaxCnt (pobj s) then 0 else 1)\<rparr>)"
| readable: "setFdReadable x b (pobj s) = Some (r, q) \<Longrightarrow> rmove F s (s\<lparr>pobj := q\<rparr>)"
| writable: "setFdWritable x b (pobj s) = Some (r, q) \<Longrightarrow> rmove F s (s\<lparr>pobj := q\<rparr>)"
| enter: "given s = None \<Longrightarrow> rmove F s (s\<lparr>given := Some (array s, mFdsCnt (pobj s))\<rparr>)"
| leave: "given s = Some (array s, length rv) \<Longrightarrow>
    rmove F s (s\<lparr>pobj := write_revents rv (pobj s), given := None\<rparr>)"

definition rinit :: "int set \<Rightarrow> prace \<Rightarrow> bool" where
  "rinit F s \<longleftrightarrow> array s = 0 \<and> given s = None \<and> mControlReadFd (pobj s) \<in> F \<and>
     (\<exists>c pair g. length g = INCREASE_ACTIVE_FDS \<and> Poll_new c pair (Some g) = Some (pobj s))"

text \<open>The thread inside \<open>poll\<close> works on an array that was freed.\<close>

definition stale :: "prace \<Rightarrow> bool" where
  "stale s \<longleftrightarrow> (\<exists>a n. given s = Some (a, n) \<and> a \<noteq> array s)"

definition fixed_array :: "int set \<Rightarrow> prace \<Rightarrow> bool" where
  "fixed_array F s \<longleftrightarrow> (finite F \<and> card F \<le> INCREASE_ACTIVE_FDS \<longrightarrow>
     poll_wf (pobj s) \<and> set (fds (pobj s)) \<subseteq> F \<and> mFdsMaxCnt (pobj s) = INCREASE_ACTIVE_FDS \<and>
     array s = 0 \<and> (\<forall>a n. given s = Some (a, n) \<longrightarrow> a = 0 \<and> n \<le> mFdsCnt (pobj s)))"

lemma fds_mem: "fds p = take (mFdsCnt p) (map fd (case mFds p of None \<Rightarrow> [] | Some mem \<Rightarrow> mem))"
  by (simp add: entries_def take_map)

lemma addFd_room:
  assumes wf: "poll_wf p" and F: "finite F" "card F \<le> mFdsMaxCnt p" "set (fds p) \<subseteq> F" "x \<in> F"
    and a: "addFd (Some g) x p = Some (r, q)"
  shows "mFdsMaxCnt q = mFdsMaxCnt p" and "mFdsCnt p \<le> mFdsCnt q"
proof -
  have "x \<in> set (fds p) \<or> mFdsCnt p < mFdsMaxCnt p"
  proof (cases "x \<in> set (fds p)")
    case False
    with F have "set (fds p) \<subset> F" by blast
    then have "card (set (fds p)) < card F" by (rule psubset_card_mono [OF F(1)])
    moreover have "card (set (fds p)) = mFdsCnt p"
      using wf poll_wf_entries [OF wf] distinct_card [of "fds p"] by (simp add: poll_wf_def)
    ultimately show ?thesis using F(2) by simp
  qed simp
  then have "mFdsMaxCnt q = mFdsMaxCnt p \<and> mFdsCnt p \<le> mFdsCnt q"
  proof
    assume "x \<in> set (fds p)"
    then obtain i where "findFd x p = Some (Some i)" using fds_index [OF wf] findFd_present [OF wf] by metis
    with a show ?thesis by (simp add: addFd_def)
  next
    assume "mFdsCnt p < mFdsMaxCnt p"
    with a show ?thesis
      by (auto simp: addFd_def set_slot_def bind_eq_Some_conv Let_def split: option.splits if_splits)
  qed
  then show "mFdsMaxCnt q = mFdsMaxCnt p" "mFdsCnt p \<le> mFdsCnt q" by auto
qed

lemma setFd_shape:
  assumes "setFdReadable x b p = Some (r, q) \<or> setFdWritable x b p = Some (r, q)" and wf: "poll_wf p"
  shows "poll_wf q \<and> fds q = fds p \<and> mFdsMaxCnt q = mFdsMaxCnt p \<and> mFdsCnt q = mFdsCnt p"
proof -
  have "\<exists>i e e'. q = p \<or> slot p i = Some e \<and> fd e' = fd e \<and> set_slot i e' p = Some q"
    using assms(1)
    by (auto simp: setFdReadable_def setFdWritable_def bind_eq_Some_conv split: option.splits if_splits)
  then obtain i e e' where c: "q = p \<or> slot p i = Some e \<and> fd e' = fd e \<and> set_slot i e' p = Some q" by blast
  then show ?thesis
  proof
    assume s: "slot p i = Some e \<and> fd e' = fd e \<and> set_slot i e' p = Some q"
    then obtain mem where mem: "mFds p = Some mem" "i < length mem" "mem ! i = e"
      "q = p\<lparr>mFds := Some (mem[i := e'])\<rparr>"
      by (auto simp: slot_def set_slot_def bind_eq_Some_conv split: if_splits)
    have "map fd (mem[i := e']) = (map fd mem)[i := map fd mem ! i]" using s mem by (simp add: map_update)
    then have "map fd (mem[i := e']) = map fd mem" by (simp only: list_update_id)
    then have "fds q = fds p" unfolding fds_mem using mem by simp
    then show ?thesis using wf mem by (simp add: poll_wf_def)
  qed (use wf in simp)
qed

lemma write_revents_shape:
  assumes wf: "poll_wf p" and n: "length rv \<le> mFdsCnt p"
  shows "poll_wf (write_revents rv p) \<and> fds (write_revents rv p) = fds p \<and>
    mFdsMaxCnt (write_revents rv p) = mFdsMaxCnt p \<and> mFdsCnt (write_revents rv p) = mFdsCnt p"
proof (cases "mFds p")
  case None
  then have "write_revents rv p = p" by (cases p) (simp add: write_revents_def)
  with wf show ?thesis by simp
next
  case (Some mem)
  then have len: "length rv \<le> length mem" using wf n by (simp add: poll_wf_def)
  let ?m = "map2 (\<lambda>e v. e\<lparr>revents := v\<rparr>) (take (length rv) mem) rv @ drop (length rv) mem"
  have "map fd (map2 (\<lambda>e v. e\<lparr>revents := v\<rparr>) (take (length rv) mem) rv) = map fd (take (length rv) mem)"
    using len by (intro nth_equalityI) simp_all
  then have "map fd ?m = map fd (take (length rv) mem @ drop (length rv) mem)" by (simp only: map_append)
  then have "map fd ?m = map fd mem" by simp
  then have f: "fds (write_revents rv p) = fds p"
    unfolding fds_mem using Some by (simp add: write_revents_def)
  show ?thesis using wf f Some len by (simp add: poll_wf_def) (simp add: write_revents_def)
qed

interpretation kept: invariant_system "rinit F" "rmove F" "fixed_array F" for F
proof
  fix s assume "rinit F s"
  then obtain c pair g where i: "array s = 0" "given s = None" "mControlReadFd (pobj s) \<in> F"
    "length g = INCREASE_ACTIVE_FDS" "Poll_new c pair (Some g) = Some (pobj s)"
    by (auto simp: rinit_def)
  from i(5) show "fixed_array F s"
    by (rule_tac Poll_new_built [OF i(4), of c pair]) (use i in \<open>simp add: fixed_array_def new_entry_def\<close>)
next
  fix s t assume inv: "fixed_array F s" and step: "rmove F s t"
  show "fixed_array F t"
    unfolding fixed_array_def
  proof
    assume F: "finite F \<and> card F \<le> INCREASE_ACTIVE_FDS"
    with inv have i: "poll_wf (pobj s)" "set (fds (pobj s)) \<subseteq> F" "mFdsMaxCnt (pobj s) = INCREASE_ACTIVE_FDS"
      "array s = 0" "\<And>a n. given s = Some (a, n) \<Longrightarrow> a = 0 \<and> n \<le> mFdsCnt (pobj s)"
      by (simp_all add: fixed_array_def)
    from step show "poll_wf (pobj t) \<and> set (fds (pobj t)) \<subseteq> F \<and> mFdsMaxCnt (pobj t) = INCREASE_ACTIVE_FDS \<and>
      array t = 0 \<and> (\<forall>a n. given t = Some (a, n) \<longrightarrow> a = 0 \<and> n \<le> mFdsCnt (pobj t))"
    proof cases
      case (add x g r q)
      from addFd_appends [OF i(1) refl add(3), of x] add(4) have q: "poll_wf q"
        "entries q = (if x \<in> set (fds (pobj s)) then entries (pobj s) else entries (pobj s) @ [new_entry x])" by auto
      have "set (fds q) \<subseteq> F" using q(2) i(2) add(2) by (auto simp: new_entry_def split: if_splits)
      moreover have room: "mFdsMaxCnt q = mFdsMaxCnt (pobj s)" "mFdsCnt (pobj s) \<le> mFdsCnt q"
        using addFd_room [OF i(1) _ _ i(2) add(2,4)] F i(3) by simp_all
      ultimately show ?thesis using add q i order_trans [OF _ room(2)] by simp
    next
      case (readable x b r q)
      with setFd_shape [of x b "pobj s" r q] i show ?thesis by simp
    next
      case (writable x b r q)
      with setFd_shape [of x b "pobj s" r q] i show ?thesis by simp
    next
      case enter
      with i show ?thesis by simp
    next
      case (leave rv)
      with i(5) have "length rv \<le> mFdsCnt (pobj s)" by simp
      with write_revents_shape [OF i(1) this] leave i show ?thesis by simp
    qed
  qed
qed

section \<open>Properties\<close>

text \<open>
  When its allocation succeeds the constructor builds a well-formed set of one
  descriptor, the reading end of the control socket, switched on for reading, with no wake-up
  pending; deleting it closes both ends once and frees the array. When no socket was created
  the set holds the descriptor -1, which \<open>poll\<close> ignores, and nothing is closed.
\<close>

theorem poll_life:
  assumes "length g = INCREASE_ACTIVE_FDS" and "0 \<le> r" and "0 \<le> w"
  shows "(\<exists>p. Poll_new c (Some (r, w)) (Some g) = Some p \<and> poll_wf p \<and> control_ok p \<and>
      masks p = [r \<mapsto> POLLIN OR POLLPRI OR POLLERR OR POLLNVAL OR POLLHUP] \<and> Poll_delete p = ([w, r], True)) \<and>
    (\<exists>p. Poll_new c None (Some g) = Some p \<and> poll_wf p \<and> control_ok p \<and>
      masks p = [- 1 \<mapsto> POLLIN OR POLLPRI OR POLLERR OR POLLNVAL OR POLLHUP] \<and> Poll_delete p = ([], True))"
proof
  have bits: "POLLIN OR POLLPRI OR POLLERR OR POLLNVAL OR POLLHUP = 0x3B" by (simp add: poll_bits)
  show "\<exists>p. Poll_new c (Some (r, w)) (Some g) = Some p \<and> poll_wf p \<and> control_ok p \<and>
      masks p = [r \<mapsto> POLLIN OR POLLPRI OR POLLERR OR POLLNVAL OR POLLHUP] \<and> Poll_delete p = ([w, r], True)"
    unfolding bits
    by (rule Poll_new_built [OF assms(1), of c "Some (r, w)"])
      (use assms in \<open>auto simp: control_ok_def masks_def Poll_delete_def new_entry_def INT32_MAX_def\<close>)
  show "\<exists>p. Poll_new c None (Some g) = Some p \<and> poll_wf p \<and> control_ok p \<and>
      masks p = [- 1 \<mapsto> POLLIN OR POLLPRI OR POLLERR OR POLLNVAL OR POLLHUP] \<and> Poll_delete p = ([], True)"
    unfolding bits
    by (rule Poll_new_built [OF assms(1), of c None])
      (auto simp: control_ok_def masks_def Poll_delete_def new_entry_def INT32_MAX_def)
qed

theorem poll_life_witness:
  "\<exists>p. Poll_new True (Some (3, 4)) (Some (replicate 8 (new_entry 0))) = Some p \<and> Poll_delete p = ([4, 3], True)"
  using poll_life [of "replicate 8 (new_entry 0)" 3 4 True] by (auto simp: INCREASE_ACTIVE_FDS_def)

text \<open>
  C32 (safety): as long as the descriptors ever added, the control socket among them, are at most
  eight, changing the set while a thread is inside \<open>wait\<close> is safe: the array \<open>poll\<close> works on is
  never moved, and the set is well-formed.
\<close>

theorem eight_fds_stay:
  assumes "reach (rinit F) (rmove F) s" and "finite F" and "card F \<le> INCREASE_ACTIVE_FDS"
  shows "\<not> stale s \<and> poll_wf (pobj s) \<and> set (fds (pobj s)) \<subseteq> F"
  using kept.reach_inv [OF assms(1)] assms(2,3) by (auto simp: fixed_array_def stale_def)

definition race_start :: prace where
  "race_start = \<lparr>pobj = sample_poll\<lparr>mFds := Some ((new_entry 3)\<lparr>events := 0x3B\<rparr> # replicate 7 (new_entry 0))\<rparr>,
     array = 0, given = None\<rparr>"

lemma race_started: "3 \<in> F \<Longrightarrow> rinit F race_start"
proof -
  have "Poll_new True (Some (3, 4)) (Some (replicate 8 (new_entry 0))) = Some (pobj race_start)"
    by (simp add: Poll_new_def addFd_def findFd_def set_slot_def slot_def setFdReadable_def Let_def
        INCREASE_ACTIVE_FDS_def new_entry_def poll_bits race_start_def sample_poll_def numeral_eq_Suc)
  moreover assume "3 \<in> F"
  ultimately show ?thesis unfolding rinit_def
    by (intro conjI exI [of _ True] exI [of _ "Some (3, 4)"] exI [of _ "replicate 8 (new_entry 0)"])
      (simp_all add: race_start_def sample_poll_def INCREASE_ACTIVE_FDS_def)
qed

theorem eight_fds_stay_witness:
  "\<not> stale (race_start\<lparr>given := Some (0, 1)\<rparr>) \<and> poll_wf sample_poll"
proof -
  have r: "reach (rinit {3}) (rmove {3}) race_start" by (rule reach_init) (rule race_started, simp)
  have "rmove {3} race_start (race_start\<lparr>given := Some (array race_start, mFdsCnt (pobj race_start))\<rparr>)"
    by (rule enter) (simp add: race_start_def)
  with r have "reach (rinit {3}) (rmove {3}) (race_start\<lparr>given := Some (0, 1)\<rparr>)"
    using reach_step by (fastforce simp: race_start_def sample_poll_def)
  from eight_fds_stay [OF this] show ?thesis using sample_poll_facts by (simp add: INCREASE_ACTIVE_FDS_def)
qed

text \<open>The descriptors 4 to 10 are added, a thread enters \<open>wait\<close>, the descriptor 11 is added.\<close>

lemma full_reached:
  "n \<le> 7 \<Longrightarrow> \<exists>q. reach (rinit {3..11}) (rmove {3..11}) \<lparr>pobj = q, array = 0, given = None\<rparr> \<and> poll_wf q \<and>
    fds q = map int [3..<n + 4] \<and> mFdsMaxCnt q = 8"
proof (induction n)
  case 0
  have "poll_wf (pobj race_start)" "fds (pobj race_start) = [3]"
    by (simp_all add: race_start_def sample_poll_def poll_wf_def entries_def new_entry_def)
  moreover have "reach (rinit {3..11}) (rmove {3..11}) race_start"
    by (rule reach_init) (rule race_started, simp)
  moreover have "race_start = \<lparr>pobj = pobj race_start, array = 0, given = None\<rparr>"
    by (simp add: race_start_def)
  moreover have "mFdsMaxCnt (pobj race_start) = 8" by (simp add: race_start_def sample_poll_def)
  ultimately show ?case by (intro exI [of _ "pobj race_start"]) (simp add: upt_rec)
next
  case (Suc n)
  then obtain q where q: "reach (rinit {3..11}) (rmove {3..11}) \<lparr>pobj = q, array = 0, given = None\<rparr>"
    "poll_wf q" "fds q = map int [3..<n + 4]" "mFdsMaxCnt q = 8" by auto
  let ?x = "int n + 4" and ?g = "replicate 8 (new_entry 0)"
  have g: "length ?g = INCREASE_ACTIVE_FDS" by (simp add: INCREASE_ACTIVE_FDS_def)
  have set: "set (fds q) = {3..<int n + 4}" unfolding q(3) by (simp add: image_int_atLeastLessThan)
  then have "?x \<notin> set (fds q)" by simp
  with addFd_appends [OF q(2) refl g, of ?x] obtain q' where q':
    "addFd (Some ?g) ?x q = Some (error_value NO_ERROR, q')" "poll_wf q'"
    "entries q' = entries q @ [new_entry ?x]" by metis
  have "card {3..int n + 4} \<le> mFdsMaxCnt q" using q(4) Suc.prems by simp
  moreover have "set (fds q) \<subseteq> {3..int n + 4}" unfolding set by auto
  ultimately have same: "mFdsMaxCnt q' = mFdsMaxCnt q"
    using addFd_room(1) [OF q(2) _ _ _ _ q'(1), of "{3..int n + 4}"] by simp
  from add [of ?x "{3..11}" ?g "\<lparr>pobj = q, array = 0, given = None\<rparr>"] q'(1) g Suc.prems
  have "rmove {3..11} \<lparr>pobj = q, array = 0, given = None\<rparr>
      \<lparr>pobj = q', array = (if mFdsMaxCnt q' = mFdsMaxCnt q then 0 else 1), given = None\<rparr>" by simp
  then have "reach (rinit {3..11}) (rmove {3..11}) \<lparr>pobj = q', array = 0, given = None\<rparr>"
    using reach_step [OF q(1)] same by simp
  moreover have "fds q' = map int [3..<Suc n + 4]"
    using q(3) q'(3) upt_Suc_append [of 3 "n + 4"] by (simp add: new_entry_def)
  ultimately show ?case using q'(2) q(4) same by (intro exI [of _ q']) simp
qed

text \<open>
  With nine descriptors it is not: a thread waits on eight, another adds the ninth,
  the array grows and may move, and \<open>poll\<close> goes on reading and writing the freed one.
\<close>

theorem ninth_fd_moves_array:
  "\<exists>s. reach (rinit {3..11}) (rmove {3..11}) s \<and> stale s \<and> set (fds (pobj s)) = {3..11}"
proof -
  obtain q where q: "reach (rinit {3..11}) (rmove {3..11}) \<lparr>pobj = q, array = 0, given = None\<rparr>"
    "poll_wf q" "fds q = map int [3..<11]" "mFdsMaxCnt q = 8" using full_reached [of 7] by auto
  let ?g = "replicate 8 (new_entry 0)"
  have g: "length ?g = INCREASE_ACTIVE_FDS" by (simp add: INCREASE_ACTIVE_FDS_def)
  have n: "mFdsCnt q = 8" using arg_cong [OF q(3), of length] poll_wf_entries [OF q(2)] by simp
  have set: "set (fds q) = {3..<11}" 
    unfolding q(3) by (simp only: set_map set_upt image_int_atLeastLessThan of_nat_numeral)
  then have "11 \<notin> set (fds q)" by simp
  with addFd_appends [OF q(2) refl g, of 11] obtain q' where q':
    "addFd (Some ?g) 11 q = Some (error_value NO_ERROR, q')" "poll_wf q'"
    "entries q' = entries q @ [new_entry 11]" by metis
  have "mFdsCnt q' = 9" using q'(3) poll_wf_entries [OF q'(2)] poll_wf_entries [OF q(2)] n by simp
  then have "mFdsMaxCnt q' \<noteq> mFdsMaxCnt q" using q'(2) q(4) by (simp add: poll_wf_def)
  then have grow: "rmove {3..11} \<lparr>pobj = q, array = 0, given = Some (0, 8)\<rparr>
      \<lparr>pobj = q', array = 1, given = Some (0, 8)\<rparr>"
    using add [of 11 "{3..11}" ?g "\<lparr>pobj = q, array = 0, given = Some (0, 8)\<rparr>"] q'(1) g by simp
  have inside: "rmove {3..11} \<lparr>pobj = q, array = 0, given = None\<rparr> \<lparr>pobj = q, array = 0, given = Some (0, 8)\<rparr>"
    using enter [of "\<lparr>pobj = q, array = 0, given = None\<rparr>"] n by simp
  have "reach (rinit {3..11}) (rmove {3..11}) \<lparr>pobj = q', array = 1, given = Some (0, 8)\<rparr>"
    by (rule reach_step [OF reach_step [OF q(1) inside] grow])
  moreover have "set (fds q') = {3..11}"
  proof -
    have "set (fds q') = insert 11 (set (fds q))" using q'(3) by (simp add: new_entry_def)
    then show ?thesis unfolding set by auto
  qed
  moreover have "stale \<lparr>pobj = q', array = 1, given = Some (0, 8)\<rparr>" by (simp add: stale_def)
  ultimately show ?thesis by (metis prace.select_convs(1))
qed

end
