(* ===== verification/Condition.thy ===== *)
theory Condition
  imports Times
begin

text \<open>
  \<open>Mutex.h\<close> and \<open>Condition.h\<close>: which pthread objects the constructors create, the returned
  codes, and the absolute deadlines of \<open>waitRelative\<close> and \<open>waitRelativeUs\<close>, with 64-bit
  arithmetic checked. The pthread calls and the clocks are parameters.
\<close>

section \<open>Mutex\<close>

text \<open>Attributes of a pthread mutex or condition variable.\<close>

datatype clockid = CLOCK_REALTIME | CLOCK_MONOTONIC

record pthread_attr =
  attr_clock :: clockid
  attr_shared :: bool

definition attr_init :: pthread_attr where
  "attr_init = \<lparr>attr_clock = CLOCK_REALTIME, attr_shared = False\<rparr>"

definition MUTEX_SHARED :: int where "MUTEX_SHARED = 1"

definition Mutex_new :: "int \<Rightarrow> pthread_attr" where
  "Mutex_new type = (if type = MUTEX_SHARED then attr_init\<lparr>attr_shared := True\<rparr> else attr_init)"

definition Mutex_new_named :: "string \<Rightarrow> pthread_attr" where
  "Mutex_new_named name = attr_init"

text \<open>\<open>rc\<close> is the result of the pthread call.\<close>

definition Mutex_lock :: "int \<Rightarrow> int" where "Mutex_lock rc = - rc"

definition Mutex_tryLock :: "int \<Rightarrow> int" where "Mutex_tryLock rc = - rc"

text \<open>
  A block under \<open>Autolock\<close>: the result of \<open>lock\<close> is ignored, the body runs, the destructor
  unlocks. \<open>lock\<close> and \<open>unlock\<close> act on the state and return a code.
\<close>

definition Autolock ::
  "('s \<Rightarrow> int \<times> 's) \<Rightarrow> ('s \<Rightarrow> int \<times> 's) \<Rightarrow> ('s \<Rightarrow> 'r \<times> 's) \<Rightarrow> 's \<Rightarrow> 'r \<times> 's" where
  "Autolock lock unlock body s =
     (let (_, s1) = lock s; (r, s2) = body s1; (_, s3) = unlock s2 in (r, s3))"

section \<open>Condition\<close>

datatype WakeUpType = WAKE_UP_ONE | WAKE_UP_ALL

datatype cond_call = CondSignal | CondBroadcast

definition COND_SHARED :: int where "COND_SHARED = 1"

definition Condition_new :: "int \<Rightarrow> pthread_attr" where
  "Condition_new type =
     (let attr = attr_init\<lparr>attr_clock := CLOCK_MONOTONIC\<rparr>
      in if type = COND_SHARED then attr\<lparr>attr_shared := True\<rparr> else attr)"

definition Condition_wait :: "int \<Rightarrow> int" where "Condition_wait rc = - rc"

definition Condition_signal :: "WakeUpType \<Rightarrow> cond_call" where
  "Condition_signal type = (if type = WAKE_UP_ONE then CondSignal else CondBroadcast)"

definition LONG_MAX :: int where "LONG_MAX = 9223372036854775807"

text \<open>
  The deadline both timed waits compute: \<open>sec\<close> and \<open>nsec\<close> are the two parts of the relative
  time, \<open>ts\<close> is the current time.
\<close>

definition add_relative :: "timespec \<Rightarrow> int \<Rightarrow> int \<Rightarrow> timespec option" where
  "add_relative ts sec nsec = do {
     tv_nsec \<leftarrow> i64_add (tv_nsec ts) nsec;
     (tv_nsec, reltime_sec) \<leftarrow>
       (if sec < INT64_MAX \<and> tv_nsec \<ge> 1000000000
        then do { s \<leftarrow> i64_add sec 1; Some (tv_nsec - 1000000000, s) }
        else Some (tv_nsec, sec));
     limit \<leftarrow> i64_sub INT64_MAX reltime_sec;
     time_sec \<leftarrow> (if tv_sec ts > limit then Some INT64_MAX else i64_add (tv_sec ts) reltime_sec);
     Some (Timespec (if time_sec > LONG_MAX then LONG_MAX else time_sec) tv_nsec)
   }"

definition deadline_ms :: "timespec \<Rightarrow> int \<Rightarrow> timespec option" where
  "deadline_ms ts reltime = do {
     let reltime_sec = reltime sdiv 1000;
     us \<leftarrow> i64_mul reltime 1000;
     ns \<leftarrow> i64_mul us 1000;
     add_relative ts reltime_sec (ns smod 1000000000)
   }"

definition deadline_us :: "timespec \<Rightarrow> int \<Rightarrow> timespec option" where
  "deadline_us ts reltime = do {
     let reltime_sec = reltime sdiv 1000000;
     ns \<leftarrow> i64_mul reltime 1000;
     add_relative ts reltime_sec (ns smod 1000000000)
   }"

text \<open>
  \<open>clocks\<close> are the clocks of the system, \<open>timedwait\<close> the result of
  \<open>pthread_cond_timedwait\<close> on the condition variable with the given deadline.
\<close>

definition waitRelative ::
  "(pthread_attr \<Rightarrow> timespec \<Rightarrow> int) \<Rightarrow> (clockid \<Rightarrow> timespec) \<Rightarrow> pthread_attr \<Rightarrow> int \<Rightarrow> int option" where
  "waitRelative timedwait clocks cond reltime =
     map_option (\<lambda>ts. - timedwait cond ts) (deadline_ms (clocks CLOCK_MONOTONIC) reltime)"

definition waitRelativeUs ::
  "(pthread_attr \<Rightarrow> timespec \<Rightarrow> int) \<Rightarrow> (clockid \<Rightarrow> timespec) \<Rightarrow> pthread_attr \<Rightarrow> int \<Rightarrow> int option" where
  "waitRelativeUs timedwait clocks cond reltime =
     map_option (\<lambda>ts. - timedwait cond ts) (deadline_us (clocks CLOCK_MONOTONIC) reltime)"

section \<open>The deadline arithmetic\<close>

lemma add_relative_exact:
  assumes ts: "normalized ts" "0 \<le> tv_sec ts"
    and rel: "0 \<le> sec" "sec < INT64_MAX" "0 \<le> nsec" "nsec < 1000000000"
    and room: "tv_sec ts + sec < INT64_MAX"
  shows "\<exists>d. add_relative ts sec nsec = Some d \<and> normalized d \<and>
    total_ns d = total_ns ts + sec * 1000000000 + nsec"
proof -
  have n: "in_i64 (tv_nsec ts + nsec)" using ts rel by (simp add: normalized_def machine_limits)
  show ?thesis
  proof (cases "tv_nsec ts + nsec \<ge> 1000000000")
    case True
    have "add_relative ts sec nsec = Some (Timespec (tv_sec ts + (sec + 1)) (tv_nsec ts + nsec - 1000000000))"
      using ts rel room n True
      by (simp add: add_relative_def i64_add_def i64_sub_def LONG_MAX_def machine_limits)
    then show ?thesis using ts rel True by (simp add: normalized_def total_ns_def)
  next
    case False
    have "add_relative ts sec nsec = Some (Timespec (tv_sec ts + sec) (tv_nsec ts + nsec))"
      using ts rel room n False
      by (simp add: add_relative_def i64_add_def i64_sub_def LONG_MAX_def machine_limits)
    then show ?thesis using ts rel False by (simp add: normalized_def total_ns_def)
  qed
qed

lemma add_relative_saturates:
  assumes ts: "normalized ts" "0 \<le> tv_sec ts" "tv_sec ts \<le> INT64_MAX"
    and rel: "0 \<le> sec" "sec < INT64_MAX" "0 \<le> nsec" "nsec < 1000000000"
    and full: "INT64_MAX < tv_sec ts + sec"
  shows "\<exists>n. add_relative ts sec nsec = Some (Timespec INT64_MAX n) \<and> 0 \<le> n \<and> n < 1000000000"
proof -
  have n: "in_i64 (tv_nsec ts + nsec)" using ts rel by (simp add: normalized_def machine_limits)
  then show ?thesis
    using ts rel full
    by (cases "tv_nsec ts + nsec \<ge> 1000000000")
      (simp_all add: add_relative_def i64_add_def i64_sub_def LONG_MAX_def machine_limits
        normalized_def)
qed

text \<open>A negative number of seconds always overflows in \<open>INT64_MAX - reltime_sec\<close>.\<close>

lemma add_relative_negative_sec:
  assumes "normalized ts" and "sec < 0" and "nsec \<le> 0"
  shows "add_relative ts sec nsec = None"
  using assms
  by (auto simp: add_relative_def i64_add_def i64_sub_def machine_limits normalized_def
      bind_eq_None_conv)

text \<open>
  A relative deadline of \<open>per_sec\<close> units in a second, each of \<open>unit\<close> nanoseconds.
\<close>

locale relative_deadline =
  fixes deadline :: "timespec \<Rightarrow> int \<Rightarrow> timespec option" and per_sec :: int and unit :: int
  assumes unit_pos: "0 < unit" and units: "per_sec * unit = 1000000000"
    and deadline_def: "in_i64 (r * unit) \<Longrightarrow>
      deadline ts r = add_relative ts (r sdiv per_sec) ((r * unit) smod 1000000000)"
begin

lemma per_sec_pos: "0 < per_sec"
  using unit_pos units by (metis zero_less_mult_pos2 zero_less_numeral)

lemma split_units:
  assumes "0 \<le> r"
  shows "(r sdiv per_sec) * 1000000000 + (r * unit) smod 1000000000 = r * unit"
proof -
  have "(r sdiv per_sec) * 1000000000 = (r div per_sec) * per_sec * unit"
    using assms per_sec_pos units by simp
  moreover have "(r * unit) smod 1000000000 = (r mod per_sec) * unit"
    using assms unit_pos units per_sec_pos by (simp flip: mult_mod_left units)
  ultimately show ?thesis by (simp add: distrib_right [symmetric])
qed

lemma parts:
  assumes "0 \<le> r" "r * unit \<le> INT64_MAX"
  shows "in_i64 (r * unit)" "0 \<le> r sdiv per_sec" "r sdiv per_sec \<le> r" "r sdiv per_sec < INT64_MAX"
    "0 \<le> (r * unit) smod 1000000000" "(r * unit) smod 1000000000 < 1000000000"
proof -
  have nn: "0 \<le> r * unit" using assms(1) unit_pos by simp
  show "in_i64 (r * unit)" using nn assms(2) by (simp add: machine_limits)
  show s: "0 \<le> r sdiv per_sec" "r sdiv per_sec \<le> r"
    using assms(1) per_sec_pos zdiv_mono2 [of r 1 per_sec] by (simp_all add: pos_imp_zdiv_nonneg_iff)
  show m: "0 \<le> (r * unit) smod 1000000000" "(r * unit) smod 1000000000 < 1000000000"
    using nn by simp_all
  have "(r sdiv per_sec) * 1000000000 \<le> r * unit" using split_units [OF assms(1)] m(1) by linarith
  then show "r sdiv per_sec < INT64_MAX" using s(1) assms(2) by (simp add: INT64_MAX_def)
qed

text \<open>The exact case: the deadline is the current time plus the relative time.\<close>

lemma deadline_exact:
  assumes "normalized ts" "0 \<le> tv_sec ts" "0 \<le> r" "r * unit \<le> INT64_MAX"
    and "tv_sec ts + r < INT64_MAX"
  shows "\<exists>d. deadline ts r = Some d \<and> normalized d \<and> total_ns d = total_ns ts + r * unit"
proof -
  note p = parts [OF assms(3,4)]
  have room: "tv_sec ts + r sdiv per_sec < INT64_MAX" using p(3) assms(5) by linarith
  from add_relative_exact [OF assms(1,2) p(2,4,5,6) room] obtain d where
    "add_relative ts (r sdiv per_sec) ((r * unit) smod 1000000000) = Some d" "normalized d"
    "total_ns d = total_ns ts + (r sdiv per_sec) * 1000000000 + (r * unit) smod 1000000000" by blast
  then show ?thesis using split_units [OF assms(3)] deadline_def [OF p(1)] by auto
qed

lemma deadline_later:
  assumes "normalized ts" "0 \<le> tv_sec ts" "0 \<le> r" "r * unit \<le> INT64_MAX"
    and "tv_sec ts + r < INT64_MAX" "deadline ts r = Some d"
  shows "ts \<le> d"
  using deadline_exact [OF assms(1-5)] assms unit_pos normalized_order [of ts d] by auto

lemma deadline_negative:
  assumes "normalized ts" "r \<le> - per_sec" "in_i64 (r * unit)"
  shows "deadline ts r = None"
proof -
  have "r sdiv per_sec < 0"
  proof -
    have "1 \<le> (- r) div per_sec" using assms(2) per_sec_pos by (simp add: pos_imp_zdiv_pos_iff int_one_le_iff_zero_less)
    then show ?thesis using assms(2) per_sec_pos
      by (simp add: signed_divide_int_def sgn_if)
  qed
  moreover have "(r * unit) smod 1000000000 \<le> 0"
  proof -
    have "r * unit < 0" using assms(2) per_sec_pos unit_pos by (intro mult_neg_pos) auto
    then show ?thesis by (simp add: signed_modulo_int_def sgn_if)
  qed
  ultimately show ?thesis
    using add_relative_negative_sec [OF assms(1)] deadline_def [OF assms(3)] by simp
qed

text \<open>A negative fraction of a second is subtracted from the nanoseconds alone.\<close>

lemma deadline_fraction:
  assumes "normalized ts" "0 \<le> tv_sec ts" "tv_sec ts < INT64_MAX" "- per_sec < r" "r < 0"
  shows "deadline ts r = Some (Timespec (tv_sec ts) (tv_nsec ts + r * unit))"
proof -
  have lt: "- 1000000000 < r * unit" "r * unit < 0"
    using assms(4,5) unit_pos mult_strict_right_mono [OF assms(4) unit_pos]
    by (simp_all add: units mult_neg_pos)
  have z: "r sdiv per_sec = 0"
    using assms(4,5) per_sec_pos by (simp add: signed_divide_int_def)
  have m: "(r * unit) smod 1000000000 = r * unit"
    using lt by (simp add: signed_modulo_int_def sgn_if)
  have "in_i64 (r * unit)" using lt by (simp add: machine_limits)
  from deadline_def [OF this, of ts] show ?thesis
    using assms lt
    by (simp add: z m add_relative_def i64_add_def i64_sub_def LONG_MAX_def machine_limits
        normalized_def)
qed

end

interpretation in_ms: relative_deadline deadline_ms 1000 1000000
proof
  fix r :: int and ts :: timespec
  assume "in_i64 (r * 1000000)"
  moreover have "r * 1000 * 1000 = r * 1000000" by simp
  ultimately show "deadline_ms ts r = add_relative ts (r sdiv 1000) ((r * 1000000) smod 1000000000)"
    by (auto simp only: deadline_ms_def i64_mul_def Let_def if_True bind.bind_lunit machine_limits
        split: if_splits)
qed simp_all

interpretation in_us: relative_deadline deadline_us 1000000 1000
proof
  fix r :: int and ts :: timespec
  assume "in_i64 (r * 1000)"
  then show "deadline_us ts r = add_relative ts (r sdiv 1000000) ((r * 1000) smod 1000000000)"
    by (auto simp: deadline_us_def i64_mul_def machine_limits)
qed simp_all

section \<open>Properties\<close>

text \<open>
  C34 (functional): a timed wait on a condition variable the library created, for a nonnegative
  time without overflow, hands \<open>pthread_cond_timedwait\<close> a valid absolute deadline on the very
  clock of that variable: the current time plus \<open>r\<close> milliseconds for \<open>waitRelative\<close> (its
  comments say microseconds), plus \<open>r\<close> microseconds for \<open>waitRelativeUs\<close>.
\<close>

theorem timed_wait_deadline:
  assumes "now = clocks (attr_clock (Condition_new type))" and "normalized now" and "0 \<le> tv_sec now"
    and "0 \<le> r" and "r * 1000000 \<le> INT64_MAX" and "tv_sec now + r < INT64_MAX"
  shows "(\<exists>d. waitRelative timedwait clocks (Condition_new type) r =
        Some (- timedwait (Condition_new type) d) \<and>
      normalized d \<and> total_ns d = total_ns now + r * 1000000) \<and>
    (\<exists>d. waitRelativeUs timedwait clocks (Condition_new type) r =
        Some (- timedwait (Condition_new type) d) \<and>
      normalized d \<and> total_ns d = total_ns now + r * 1000)"
proof -
  have now: "now = clocks CLOCK_MONOTONIC"
    using assms(1) by (simp add: Condition_new_def Let_def)
  have us: "r * 1000 \<le> INT64_MAX" using assms(4,5) by linarith
  from in_ms.deadline_exact [OF assms(2-6)] in_us.deadline_exact [OF assms(2-4) us assms(6)]
  show ?thesis unfolding waitRelative_def waitRelativeUs_def now by fastforce
qed

theorem timed_wait_deadline_witness:
  "\<exists>d. waitRelative (\<lambda>_ _. 110) (\<lambda>c. Timespec 7 999000000) (Condition_new 0) 1500 = Some (- 110) \<and>
     normalized d \<and> total_ns d = 9499000000"
  using timed_wait_deadline [of "Timespec 7 999000000" "\<lambda>c. Timespec 7 999000000" 0 1500 "\<lambda>_ _. 110"]
  by (auto simp: normalized_def INT64_MAX_def total_ns_def)

text \<open>
  Beyond the representable range the deadline saturates at the last second, still
  with valid nanoseconds.
\<close>

theorem deadline_saturates:
  assumes "normalized ts" and "0 \<le> tv_sec ts" and "tv_sec ts \<le> INT64_MAX"
    and "0 \<le> r" and "r * 1000000 \<le> INT64_MAX" and "INT64_MAX < tv_sec ts + r div 1000"
  shows "\<exists>n. deadline_ms ts r = Some (Timespec INT64_MAX n) \<and> 0 \<le> n \<and> n < 1000000000"
proof -
  note p = in_ms.parts [OF assms(4,5)]
  have "INT64_MAX < tv_sec ts + r sdiv 1000" using assms(4,6) by simp
  from add_relative_saturates [OF assms(1-3) p(2,4,5,6) this] in_ms.deadline_def [OF p(1)]
  show ?thesis by simp
qed

theorem deadline_saturates_witness:
  "\<exists>n. deadline_ms (Timespec 9223372036854775807 0) 5000 = Some (Timespec INT64_MAX n)"
  using deadline_saturates [of "Timespec 9223372036854775807 0" 5000]
  by (auto simp: normalized_def INT64_MAX_def)

text \<open>
  Negative relative times are not handled. A fraction of a second below zero gives
  nanoseconds that may be negative, an invalid deadline; a second or more overflows.
\<close>

theorem negative_wait:
  assumes "normalized ts" and "0 \<le> tv_sec ts" and "tv_sec ts < INT64_MAX" and "r < 0"
  shows "(- 1000 < r \<longrightarrow> deadline_ms ts r = Some (Timespec (tv_sec ts) (tv_nsec ts + r * 1000000)) \<and>
      (tv_nsec ts < - r * 1000000 \<longrightarrow>
        \<not> normalized (Timespec (tv_sec ts) (tv_nsec ts + r * 1000000)))) \<and>
    (r \<le> - 1000 \<longrightarrow> deadline_ms ts r = None)"
proof (intro conjI impI)
  assume "- 1000 < r"
  then show "deadline_ms ts r = Some (Timespec (tv_sec ts) (tv_nsec ts + r * 1000000))"
    using in_ms.deadline_fraction assms by blast
next
  assume "r \<le> - 1000"
  show "deadline_ms ts r = None"
  proof (cases "in_i64 (r * 1000000)")
    case True
    with in_ms.deadline_negative assms(1) \<open>r \<le> - 1000\<close> show ?thesis by blast
  next
    case False
    then show ?thesis
      by (auto simp: deadline_ms_def i64_mul_def bind_eq_None_conv mult.assoc)
  qed
qed (simp add: normalized_def)

theorem negative_wait_witness:
  "deadline_ms (Timespec 5 0) (- 1) = Some (Timespec 5 (- 1000000)) \<and>
   deadline_ms (Timespec 5 0) (- 1000) = None"
  using negative_wait [of "Timespec 5 0" "- 1"] negative_wait [of "Timespec 5 0" "- 1000"]
  by (simp add: normalized_def INT64_MAX_def)

text \<open>
  The two timed waits are one computation: for every number of milliseconds
  whose microseconds fit in 64 bits, negative and overflowing ones included, \<open>waitRelativeUs\<close>
  of the microseconds waits for the deadline of \<open>waitRelative\<close>, or both are undefined.
\<close>

theorem waits_agree:
  assumes "in_i64 (r * 1000)"
  shows "waitRelativeUs timedwait clocks cond (r * 1000) = waitRelative timedwait clocks cond r"
proof -
  have "(r * 1000) sdiv 1000000 = r sdiv 1000"
  proof -
    have "(\<bar>r\<bar> * 1000) div (1000 * 1000) = \<bar>r\<bar> div 1000" by (rule div_mult_mult2) simp
    then show ?thesis by (simp add: signed_divide_int_def abs_mult sgn_mult)
  qed
  then have "deadline_us ts (r * 1000) = deadline_ms ts r" for ts
    using assms by (simp add: deadline_us_def deadline_ms_def i64_mul_def Let_def)
  then show ?thesis by (simp add: waitRelativeUs_def waitRelative_def)
qed

theorem waits_agree_witness:
  "waitRelativeUs (\<lambda>_ ts. tv_sec ts) (\<lambda>_. Timespec 7 999000000) (Condition_new 0) 2500000 =
     waitRelative (\<lambda>_ ts. tv_sec ts) (\<lambda>_. Timespec 7 999000000) (Condition_new 0) 2500"
  using waits_agree [of 2500] by (simp add: machine_limits)

end
