(* ===== verification/Utils.thy ===== *)
theory Utils
  imports Prelude
begin

text \<open>
  \<open>Utils.h\<close>/\<open>Utils.cpp\<close>: rounding to multiples of a power of two, the big-endian byte codecs
  \<open>getU32\<close>/\<open>putU32\<close> and \<open>getS64\<close>/\<open>putS64\<close>, and the arguments \<open>TIME_ARGS\<close> prepares for
  \<open>TIME_FORMAT\<close>.
\<close>

unbundle bit_operations_syntax

section \<open>Rounding\<close>

text \<open>
  The macros on an unsigned operand of at least the width of \<open>int\<close>: the constants \<open>~1\<close>,
  \<open>~3\<close>, \<dots> are negative \<open>int\<close>s, which the conversion to the type of \<open>num\<close> sign-extends.
\<close>

definition ROUND_UP_2 :: "'a::len word \<Rightarrow> 'a word" where
  "ROUND_UP_2 num = (num + 1) AND NOT 1"
definition ROUND_UP_4 :: "'a::len word \<Rightarrow> 'a word" where
  "ROUND_UP_4 num = (num + 3) AND NOT 3"
definition ROUND_UP_8 :: "'a::len word \<Rightarrow> 'a word" where
  "ROUND_UP_8 num = (num + 7) AND NOT 7"
definition ROUND_UP_16 :: "'a::len word \<Rightarrow> 'a word" where
  "ROUND_UP_16 num = (num + 15) AND NOT 15"
definition ROUND_UP_32 :: "'a::len word \<Rightarrow> 'a word" where
  "ROUND_UP_32 num = (num + 31) AND NOT 31"
definition ROUND_UP_64 :: "'a::len word \<Rightarrow> 'a word" where
  "ROUND_UP_64 num = (num + 63) AND NOT 63"
definition ROUND_UP_128 :: "'a::len word \<Rightarrow> 'a word" where
  "ROUND_UP_128 num = (num + 127) AND NOT 127"

definition ROUND_DOWN_2 :: "'a::len word \<Rightarrow> 'a word" where
  "ROUND_DOWN_2 num = num AND NOT 1"
definition ROUND_DOWN_4 :: "'a::len word \<Rightarrow> 'a word" where
  "ROUND_DOWN_4 num = num AND NOT 3"
definition ROUND_DOWN_8 :: "'a::len word \<Rightarrow> 'a word" where
  "ROUND_DOWN_8 num = num AND NOT 7"
definition ROUND_DOWN_16 :: "'a::len word \<Rightarrow> 'a word" where
  "ROUND_DOWN_16 num = num AND NOT 15"
definition ROUND_DOWN_32 :: "'a::len word \<Rightarrow> 'a word" where
  "ROUND_DOWN_32 num = num AND NOT 31"
definition ROUND_DOWN_64 :: "'a::len word \<Rightarrow> 'a word" where
  "ROUND_DOWN_64 num = num AND NOT 63"
definition ROUND_DOWN_128 :: "'a::len word \<Rightarrow> 'a word" where
  "ROUND_DOWN_128 num = num AND NOT 127"

text \<open>
  With a variable alignment the type of \<open>align\<close> matters: \<open>~(align - 1)\<close> is computed in it (an
  unsigned type of the width of \<open>int\<close> or more) and then zero-extended to the type of \<open>num\<close>.
\<close>

definition ROUND_UP_N :: "'a::len word \<Rightarrow> 'b::len word \<Rightarrow> 'a word" where
  "ROUND_UP_N num align = (num + ucast (align - 1)) AND ucast (NOT (align - 1))"

definition ROUND_DOWN_N :: "'a::len word \<Rightarrow> 'b::len word \<Rightarrow> 'a word" where
  "ROUND_DOWN_N num align = num AND ucast (NOT (align - 1))"

lemma unat_lt: "unat (x :: 'a::len word) < 2 ^ LENGTH('a)"
  by (rule unsigned_less)

text \<open>
  What it is to round to multiples of \<open>2 ^ k\<close>: the down operation clears \<open>k\<close> bits, the up
  operation adds the mask of \<open>k\<close> bits first.
\<close>

locale rounding =
  fixes up :: "'a::len word \<Rightarrow> 'a word" and down :: "'a word \<Rightarrow> 'a word" and k :: nat
  assumes down_mask: "down x = x AND NOT (mask k)"
    and up_down: "up x = down (x + mask k)"
begin

lemma unat_down: "unat (down x) = unat x div 2 ^ k * 2 ^ k"
proof -
  have "down x = push_bit k (drop_bit k x)"
    by (rule bit_word_eqI) (auto simp: down_mask bit_simps)
  also have "unat \<dots> = unat x div 2 ^ k * 2 ^ k"
  proof -
    have "unat x div 2 ^ k * 2 ^ k < 2 ^ LENGTH('a)"
      by (meson div_times_less_eq_dividend le_less_trans unsigned_less)
    then show ?thesis
      by (subst unsigned_push_bit_eq, subst unsigned_drop_bit_eq)
        (simp only: push_bit_eq_mult drop_bit_eq_div take_bit_nat_eq_self unat_lt)
  qed
  finally show ?thesis .
qed

lemma down_multiple: "2 ^ k dvd unat (down x)" by (simp add: unat_down)

lemma down_greatest:
  "unat (down x) \<le> unat x" "unat x < unat (down x) + 2 ^ k"
  "2 ^ k dvd m \<Longrightarrow> m \<le> unat x \<Longrightarrow> m \<le> unat (down x)"
proof -
  show "unat (down x) \<le> unat x" by (simp add: unat_down)
  have "unat x mod 2 ^ k < 2 ^ k" by simp
  then show "unat x < unat (down x) + 2 ^ k"
    unfolding unat_down using div_mult_mod_eq [of "unat x" "2 ^ k"] by linarith
  assume "2 ^ k dvd m" and "m \<le> unat x"
  then show "m \<le> unat (down x)"
    by (metis div_le_mono dvd_div_mult_self mult_le_mono1 unat_down)
qed

lemma down_fixed: "down x = x \<longleftrightarrow> 2 ^ k dvd unat x"
  by (metis down_multiple dvd_div_mult_self unat_down word_unat_eq_iff)

lemma unat_mask_k: "unat (mask k :: 'a word) = 2 ^ min k LENGTH('a) - 1"
proof -
  have "unat (mask k :: 'a word) = take_bit k (unat (- 1 :: 'a word))"
    by (simp only: unsigned_take_bit_eq [symmetric] take_bit_minus_one_eq_mask)
  also have "\<dots> = mask (min k LENGTH('a))"
    by (simp only: unsigned_minus_1_eq_mask take_bit_of_mask)
  finally show ?thesis by (simp add: mask_eq_exp_minus_1)
qed

lemma up_least:
  assumes "unat x + (2 ^ k - 1) < 2 ^ LENGTH('a)"
  shows "unat x \<le> unat (up x)" "unat (up x) < unat x + 2 ^ k" "2 ^ k dvd unat (up x)"
    "2 ^ k dvd m \<Longrightarrow> unat x \<le> m \<Longrightarrow> unat (up x) \<le> m"
proof -
  have "(2::nat) ^ k - 1 < 2 ^ LENGTH('a)" using assms by linarith
  then have "k \<le> LENGTH('a)" by (rule exp_pred_le)
  then have sum: "unat (x + mask k) = unat x + (2 ^ k - 1)"
    using assms by (simp add: unat_word_ariths unat_mask_k min_absorb1)
  have pos: "(0::nat) < 2 ^ k" by simp
  show "unat x \<le> unat (up x)" "unat (up x) < unat x + 2 ^ k"
    using down_greatest(1,2) [of "x + mask k"] pos unfolding up_down sum by linarith+
  show "2 ^ k dvd unat (up x)" by (simp add: up_down down_multiple)
  assume m: "2 ^ k dvd m" "unat x \<le> m"
  have "unat (up x) < m + 2 ^ k"
    using down_greatest(1) [of "x + mask k"] m(2) pos unfolding up_down sum by linarith
  then show "unat (up x) \<le> m"
    using m(1) down_multiple [of "x + mask k"] unfolding up_down [symmetric]
    by (intro dvd_between)
qed

text \<open>
  The sum wraps around exactly when the next multiple is not representable: the result is 0.
\<close>

lemma up_overflow:
  assumes over: "2 ^ LENGTH('a) \<le> unat x + (2 ^ k - 1)"
  shows "up x = 0"
proof -
  have "unat (x + mask k) < 2 ^ k"
  proof (cases "k \<le> LENGTH('a)")
    case True
    have "(2::nat) ^ k \<le> 2 ^ LENGTH('a)" using True by simp
    moreover have "unat (x + mask k) = (unat x + (2 ^ k - 1)) mod 2 ^ LENGTH('a)"
      using True by (simp add: unat_word_ariths unat_mask_k min_absorb1)
    moreover have "unat x + (2 ^ k - 1) - 2 ^ LENGTH('a) < 2 ^ k"
      using unat_lt [of x] over by linarith
    ultimately show ?thesis using over by (metis le_less_trans le_mod_geq mod_less_eq_dividend)
  next
    case False
    then have "(2::nat) ^ LENGTH('a) \<le> 2 ^ k" by simp
    then show ?thesis using unat_lt [of "x + mask k"] by linarith
  qed
  then have "unat (up x) = unat (0 :: 'a word)" unfolding up_down unat_down by simp
  then show ?thesis by (simp only: word_unat_eq_iff)
qed

lemma up_fixed:
  assumes "2 ^ k dvd unat x"
  shows "up x = x"
proof (cases "unat x + (2 ^ k - 1) < 2 ^ LENGTH('a)")
  case True
  show ?thesis
    using up_least(1) [OF True] up_least(4) [OF True assms order_refl]
    by (simp add: word_unat_eq_iff)
next
  case False
  have pos: "(0::nat) < 2 ^ k" by simp
  have "x = 0"
  proof (cases "k \<le> LENGTH('a)")
    case True
    have "2 ^ LENGTH('a) < unat x + 2 ^ k" using False pos by linarith
    from dvd_between [OF le_imp_power_dvd [OF True] assms this] unat_lt [of x]
    show ?thesis by simp
  next
    case k: False
    then have "(2::nat) ^ LENGTH('a) \<le> 2 ^ k" by simp
    then have "unat x < 2 ^ k" using unat_lt [of x] by linarith
    then have "unat x = unat (0 :: 'a word)" using assms by (auto dest: nat_dvd_not_less)
    then show ?thesis by (simp only: word_unat_eq_iff)
  qed
  then show ?thesis using up_overflow False by simp
qed

end

lemma two_power_minus_1: "(2 ^ k - 1 :: 'a::len word) = mask k"
  by (simp add: mask_eq_exp_minus_1)

interpretation round_n:
  rounding "\<lambda>x::'a::len word. ROUND_UP_N x (2 ^ k :: 'a word)"
    "\<lambda>x. ROUND_DOWN_N x (2 ^ k :: 'a word)" k
  for k
  by unfold_locales
    (simp_all only: ROUND_UP_N_def ROUND_DOWN_N_def two_power_minus_1 ucast_id)

text \<open>
  Rounding to a power of two \<open>align\<close> of the same unsigned type. Down is the
  greatest multiple below; up is the least multiple above when it is representable, and wraps
  to 0 when it is not; multiples are left alone.
\<close>

theorem round_n_correct:
  fixes x :: "'a::len word"
  shows "unat (ROUND_DOWN_N x (2 ^ k :: 'a word)) = unat x div 2 ^ k * 2 ^ k \<and>
    (unat x + (2 ^ k - 1) < 2 ^ LENGTH('a) \<longrightarrow>
      2 ^ k dvd unat (ROUND_UP_N x (2 ^ k :: 'a word)) \<and>
      unat x \<le> unat (ROUND_UP_N x (2 ^ k :: 'a word)) \<and>
      (\<forall>m. 2 ^ k dvd m \<longrightarrow> unat x \<le> m \<longrightarrow> unat (ROUND_UP_N x (2 ^ k :: 'a word)) \<le> m)) \<and>
    (2 ^ LENGTH('a) \<le> unat x + (2 ^ k - 1) \<longrightarrow> ROUND_UP_N x (2 ^ k :: 'a word) = 0) \<and>
    (2 ^ k dvd unat x \<longrightarrow>
      ROUND_UP_N x (2 ^ k :: 'a word) = x \<and> ROUND_DOWN_N x (2 ^ k :: 'a word) = x)"
  by (intro conjI impI allI)
    (rule round_n.unat_down round_n.up_least round_n.up_overflow round_n.up_fixed
      round_n.down_fixed [THEN iffD2]; assumption)+

theorem round_n_correct_witness:
  "unat (ROUND_DOWN_N (13 :: 32 word) (2 ^ 3 :: 32 word)) = 8 \<and>
   unat (ROUND_UP_N (13 :: 32 word) (2 ^ 3 :: 32 word)) \<le> 16 \<and>
   ROUND_UP_N (4294967295 :: 32 word) (2 ^ 3 :: 32 word) = 0"
  using round_n_correct [of "13 :: 32 word" 3] round_n_correct [of "4294967295 :: 32 word" 3]
  by (auto dest!: spec [of _ 16])

text \<open>
  The fourteen macros with a fixed alignment are those with a variable one.
\<close>

theorem round_macros:
  fixes x :: "'a::len word"
  shows "ROUND_UP_2 x = ROUND_UP_N x (2 :: 'a word) \<and> ROUND_DOWN_2 x = ROUND_DOWN_N x (2 :: 'a word) \<and>
    ROUND_UP_4 x = ROUND_UP_N x (4 :: 'a word) \<and> ROUND_DOWN_4 x = ROUND_DOWN_N x (4 :: 'a word) \<and>
    ROUND_UP_8 x = ROUND_UP_N x (8 :: 'a word) \<and> ROUND_DOWN_8 x = ROUND_DOWN_N x (8 :: 'a word) \<and>
    ROUND_UP_16 x = ROUND_UP_N x (16 :: 'a word) \<and>
    ROUND_DOWN_16 x = ROUND_DOWN_N x (16 :: 'a word) \<and>
    ROUND_UP_32 x = ROUND_UP_N x (32 :: 'a word) \<and>
    ROUND_DOWN_32 x = ROUND_DOWN_N x (32 :: 'a word) \<and>
    ROUND_UP_64 x = ROUND_UP_N x (64 :: 'a word) \<and>
    ROUND_DOWN_64 x = ROUND_DOWN_N x (64 :: 'a word) \<and>
    ROUND_UP_128 x = ROUND_UP_N x (128 :: 'a word) \<and>
    ROUND_DOWN_128 x = ROUND_DOWN_N x (128 :: 'a word)"
  unfolding ROUND_UP_N_def ROUND_DOWN_N_def ucast_id
    ROUND_UP_2_def ROUND_UP_4_def ROUND_UP_8_def ROUND_UP_16_def ROUND_UP_32_def ROUND_UP_64_def
    ROUND_UP_128_def ROUND_DOWN_2_def ROUND_DOWN_4_def ROUND_DOWN_8_def ROUND_DOWN_16_def
    ROUND_DOWN_32_def ROUND_DOWN_64_def ROUND_DOWN_128_def
  by simp

text \<open>
  With an alignment of a narrower unsigned type the result loses the high bits of
  \<open>num\<close>, for every operand: a 64-bit size rounded with a 32-bit alignment is below 2^32.
\<close>

theorem round_n_narrow_align:
  fixes x :: "'a::len word" and align :: "'b::len word"
  shows "unat (ROUND_UP_N x align) < 2 ^ LENGTH('b) \<and> unat (ROUND_DOWN_N x align) < 2 ^ LENGTH('b) \<and>
    ROUND_UP_N (4294967301 :: 64 word) (8 :: 32 word) = 8"
proof -
  have "unat (y AND ucast z :: 'a word) < 2 ^ LENGTH('b)" for y and z :: "'b word"
  proof -
    have "y AND ucast z = take_bit LENGTH('b) (y AND ucast z)"
      by (rule bit_word_eqI) (auto simp: bit_simps dest: bit_imp_le_length)
    then have "unat (y AND ucast z) = take_bit LENGTH('b) (unat (y AND ucast z))"
      by (metis unsigned_take_bit_eq)
    then show ?thesis by (metis take_bit_nat_less_exp)
  qed
  then show ?thesis by (simp add: ROUND_UP_N_def ROUND_DOWN_N_def)
qed

section \<open>Byte codecs\<close>

text \<open>
  A buffer is the list of bytes that may be accessed from the pointer; an access beyond it is
  undefined: \<open>None\<close>. The shifts of promoted bytes are those of C++14, whose result is
  converted modulo the width.
\<close>

type_synonym buffer = "8 word list"

definition get_byte :: "buffer \<Rightarrow> nat \<Rightarrow> 8 word option" where
  "get_byte p i = (if i < length p then Some (p ! i) else None)"

definition put_byte :: "buffer \<Rightarrow> nat \<Rightarrow> 8 word \<Rightarrow> buffer option" where
  "put_byte p i b = (if i < length p then Some (p[i := b]) else None)"

definition getU32 :: "buffer \<Rightarrow> 32 word option" where
  "getU32 p = do {
     p0 \<leftarrow> get_byte p 0; p1 \<leftarrow> get_byte p 1; p2 \<leftarrow> get_byte p 2; p3 \<leftarrow> get_byte p 3;
     Some (push_bit 24 (ucast p0) OR push_bit 16 (ucast p1) OR push_bit 8 (ucast p2) OR ucast p3)
   }"

definition putU32 :: "buffer \<Rightarrow> 32 word \<Rightarrow> (int \<times> buffer) option" where
  "putU32 p n = do {
     p \<leftarrow> put_byte p 0 (ucast (drop_bit 24 n));
     p \<leftarrow> put_byte p 1 (ucast (drop_bit 16 n));
     p \<leftarrow> put_byte p 2 (ucast (drop_bit 8 n));
     p \<leftarrow> put_byte p 3 (ucast (n AND 0xFF));
     Some (4, p)
   }"

text \<open>An \<open>int64_t\<close> is a 64-bit word, read with \<open>sint\<close>.\<close>

definition getS64 :: "buffer \<Rightarrow> 64 word option" where
  "getS64 p = do {
     p0 \<leftarrow> get_byte p 0; p1 \<leftarrow> get_byte p 1; p2 \<leftarrow> get_byte p 2; p3 \<leftarrow> get_byte p 3;
     p4 \<leftarrow> get_byte p 4; p5 \<leftarrow> get_byte p 5; p6 \<leftarrow> get_byte p 6; p7 \<leftarrow> get_byte p 7;
     Some (push_bit 56 (ucast p0) OR push_bit 48 (ucast p1) OR push_bit 40 (ucast p2) OR
       push_bit 32 (ucast p3) OR push_bit 24 (ucast p4) OR push_bit 16 (ucast p5) OR
       push_bit 8 (ucast p6) OR ucast p7)
   }"

definition putS64 :: "buffer \<Rightarrow> 64 word \<Rightarrow> (int \<times> buffer) option" where
  "putS64 p n = do {
     p \<leftarrow> put_byte p 0 (ucast (drop_bit 56 n));
     p \<leftarrow> put_byte p 1 (ucast (drop_bit 48 n));
     p \<leftarrow> put_byte p 2 (ucast (drop_bit 40 n));
     p \<leftarrow> put_byte p 3 (ucast (drop_bit 32 n));
     p \<leftarrow> put_byte p 4 (ucast (drop_bit 24 n));
     p \<leftarrow> put_byte p 5 (ucast (drop_bit 16 n));
     p \<leftarrow> put_byte p 6 (ucast (drop_bit 8 n));
     p \<leftarrow> put_byte p 7 (ucast (n AND 0xFF));
     Some (8, p)
   }"

text \<open>
  The interface of a codec of fixed width: the image of a value, and its value as a big-endian
  number. Buffers that are too short fault.
\<close>

fun big_endian :: "buffer \<Rightarrow> nat" where
  "big_endian [] = 0"
| "big_endian (b # bs) = unat b * 256 ^ length bs + big_endian bs"

locale byte_codec =
  fixes get :: "buffer \<Rightarrow> 'n::len word option" and put :: "buffer \<Rightarrow> 'n word \<Rightarrow> (int \<times> buffer) option"
    and width :: nat and image :: "'n word \<Rightarrow> buffer"
  assumes image_length [simp]: "length (image n) = width"
    and put_image: "put p n = (if width \<le> length p then Some (int width, image n @ drop width p) else None)"
    and get_defined: "get p \<noteq> None \<longleftrightarrow> width \<le> length p"
    and get_image: "get p = Some n \<Longrightarrow> image n = take width p"
    and get_value: "get p = Some n \<Longrightarrow> unat n = big_endian (take width p)"
    and image_inj: "image m = image n \<Longrightarrow> m = n"
begin

lemma put_faults: "put p n = None \<longleftrightarrow> length p < width"
  by (simp add: put_image not_le)

lemma get_of_image: "get (image n @ r) = Some n"
proof -
  have "get (image n @ r) \<noteq> None" unfolding get_defined by simp
  then obtain m where m: "get (image n @ r) = Some m" by blast
  from get_image [OF this] have "image m = image n" by simp
  then have "m = n" by (rule image_inj)
  with m show ?thesis by simp
qed

lemma put_get: "put p n = Some (c, p') \<Longrightarrow> get p' = Some n"
  by (auto simp: put_image get_of_image split: if_splits)

lemma put_frame:
  "put p n = Some (c, p') \<Longrightarrow> c = int width \<and> length p' = length p \<and> drop width p' = drop width p"
  by (auto simp: put_image split: if_splits)

lemma get_put: "get p = Some n \<Longrightarrow> put p n = Some (int width, p)"
  using get_defined [of p] by (auto simp: put_image get_image)

lemma big_endian_image: "big_endian (image n) = unat n"
  using get_value [OF get_of_image [of n "[]"]] by simp

text \<open>Two values in a row.\<close>

lemma put_twice:
  assumes "put p m = Some (c, p')" and "put (drop width p') n = Some (d, r)"
  shows "get (take width p' @ r) = Some m" and "get (drop width (take width p' @ r)) = Some n"
  using assms by (auto simp: put_image get_of_image split: if_splits)

end

subsection \<open>32 bits\<close>

definition image32 :: "32 word \<Rightarrow> buffer" where
  "image32 n = [ucast (drop_bit 24 n), ucast (drop_bit 16 n), ucast (drop_bit 8 n), ucast n]"

lemma take4: "4 \<le> length p \<Longrightarrow> take 4 p = [p ! 0, p ! 1, p ! 2, p ! 3]"
  by (rule nth_equalityI) (auto simp: less_Suc_eq numeral_eq_Suc)

lemma getU32_Some:
  "getU32 p = (if 4 \<le> length p then
     Some (push_bit 24 (ucast (p ! 0)) OR push_bit 16 (ucast (p ! 1)) OR
       push_bit 8 (ucast (p ! 2)) OR ucast (p ! 3)) else None)"
  by (auto simp: getU32_def get_byte_def)

lemma low_byte: "ucast (n AND 0xFF) = (ucast n :: 8 word)"
proof -
  have m: "(0xFF :: 'a::len word) = mask 8" by (simp add: mask_eq_exp_minus_1)
  show ?thesis unfolding m
    by (intro bit_word_eqI) (auto simp: bit_simps dest: bit_imp_le_length)
qed

lemma buffer4: "4 \<le> length p \<longleftrightarrow> (\<exists>a b c d r. p = a # b # c # d # r)"
  by (auto simp: numeral_eq_Suc Suc_le_length_iff)

lemma putU32_image:
  "putU32 p n = (if 4 \<le> length p then Some (int 4, image32 n @ drop 4 p) else None)"
proof (cases "4 \<le> length p")
  case True
  then obtain a b c d r where "p = a # b # c # d # r" by (auto simp: buffer4)
  then show ?thesis by (simp add: putU32_def put_byte_def image32_def low_byte)
next
  case False
  then show ?thesis by (auto simp: putU32_def put_byte_def)
qed

text \<open>Bytes of a combined value.\<close>

lemma image32_get:
  "image32 (push_bit 24 (ucast a) OR push_bit 16 (ucast b) OR push_bit 8 (ucast c) OR ucast d) =
    [a, b, c, d]"
  by (auto simp: image32_def intro!: bit_word_eqI) (auto simp: bit_simps dest: bit_imp_le_length)

lemma unat_byte_sum:
  fixes n :: "'a::len word"
  shows "unat (ucast (drop_bit k n) :: 8 word) = unat n div 2 ^ k mod 256"
proof -
  have "take_bit LENGTH('a) (unat n) = unat n" by (simp add: take_bit_nat_eq_self unat_lt)
  then have "unat (drop_bit k n) = unat n div 2 ^ k"
    by (subst unsigned_drop_bit_eq) (simp only: drop_bit_eq_div)
  then show ?thesis by (subst unsigned_ucast_eq) (simp add: take_bit_eq_mod)
qed

lemma digit: "b * 256 = c \<Longrightarrow> x div b = 256 * (x div c) + x div b mod (256::nat)"
  by (auto simp: div_mult2_eq)

lemma horner4:
  "(x::nat) = 256 * x1 + d0 \<Longrightarrow> x1 = 256 * x2 + d1 \<Longrightarrow> x2 = 256 * x3 + d2 \<Longrightarrow>
   x3 * 16777216 + (d2 * 65536 + (d1 * 256 + d0)) = x"
  by simp

lemma horner8:
  "(x::nat) = 256 * x1 + d0 \<Longrightarrow> x1 = 256 * x2 + d1 \<Longrightarrow> x2 = 256 * x3 + d2 \<Longrightarrow>
   x3 = 256 * x4 + d3 \<Longrightarrow> x4 = 256 * x5 + d4 \<Longrightarrow> x5 = 256 * x6 + d5 \<Longrightarrow> x6 = 256 * x7 + d6 \<Longrightarrow>
   x7 * 72057594037927936 + (d6 * 281474976710656 + (d5 * 1099511627776 + (d4 * 4294967296 +
     (d3 * 16777216 + (d2 * 65536 + (d1 * 256 + d0)))))) = x"
  by simp

lemma value32: "big_endian (image32 n) = unat n"
proof -
  have "unat n < 4294967296" using unat_lt [of n] by simp
  then have top: "unat n div 16777216 mod 256 = unat n div 16777216" by simp
  note b = unat_byte_sum [of 0 n] unat_byte_sum [of 8 n] unat_byte_sum [of 16 n]
    unat_byte_sum [of 24 n]
  have "big_endian (image32 n) = unat n div 16777216 * 16777216 +
      (unat n div 65536 mod 256 * 65536 + (unat n div 256 mod 256 * 256 + unat n mod 256))"
    using b top by (simp add: image32_def)
  also have "\<dots> = unat n"
    by (rule horner4 [OF _ digit digit]) simp_all
  finally show ?thesis .
qed

lemma image32_inj: "image32 m = image32 n \<Longrightarrow> m = n"
  by (metis value32 word_unat_eq_iff)

interpretation u32: byte_codec getU32 putU32 4 image32
proof
  show "length (image32 n) = 4" for n by (simp add: image32_def)
  show "putU32 p n = (if 4 \<le> length p then Some (int 4, image32 n @ drop 4 p) else None)" for p n
    by (rule putU32_image)
  show "getU32 p \<noteq> None \<longleftrightarrow> 4 \<le> length p" for p by (simp add: getU32_Some)
  show img: "image32 n = take 4 p" if "getU32 p = Some n" for p n
    using that by (auto simp: getU32_Some image32_get take4 split: if_splits)
  show "unat n = big_endian (take 4 p)" if "getU32 p = Some n" for p n
    using img [OF that] value32 [of n] by simp
qed (rule image32_inj)

subsection \<open>64 bits\<close>

definition image64 :: "64 word \<Rightarrow> buffer" where
  "image64 n = [ucast (drop_bit 56 n), ucast (drop_bit 48 n), ucast (drop_bit 40 n),
     ucast (drop_bit 32 n), ucast (drop_bit 24 n), ucast (drop_bit 16 n), ucast (drop_bit 8 n),
     ucast n]"

lemma buffer8: "8 \<le> length p \<longleftrightarrow> (\<exists>a b c d e f g h r. p = a # b # c # d # e # f # g # h # r)"
  by (auto simp: numeral_eq_Suc Suc_le_length_iff)

lemma getS64_Some:
  "getS64 p = (if 8 \<le> length p then
     Some (push_bit 56 (ucast (p ! 0)) OR push_bit 48 (ucast (p ! 1)) OR
       push_bit 40 (ucast (p ! 2)) OR push_bit 32 (ucast (p ! 3)) OR push_bit 24 (ucast (p ! 4)) OR
       push_bit 16 (ucast (p ! 5)) OR push_bit 8 (ucast (p ! 6)) OR ucast (p ! 7)) else None)"
  by (auto simp: getS64_def get_byte_def)

lemma putS64_image:
  "putS64 p n = (if 8 \<le> length p then Some (int 8, image64 n @ drop 8 p) else None)"
proof (cases "8 \<le> length p")
  case True
  then obtain a b c d e f g h r where "p = a # b # c # d # e # f # g # h # r"
    by (auto simp: buffer8)
  then show ?thesis by (simp add: putS64_def put_byte_def image64_def low_byte)
next
  case False
  then show ?thesis by (auto simp: putS64_def put_byte_def)
qed

lemma image64_get:
  "image64 (push_bit 56 (ucast a) OR push_bit 48 (ucast b) OR push_bit 40 (ucast c) OR
     push_bit 32 (ucast d) OR push_bit 24 (ucast e) OR push_bit 16 (ucast f) OR
     push_bit 8 (ucast g) OR ucast h) = [a, b, c, d, e, f, g, h]"
  unfolding image64_def list.inject
  by (intro conjI refl) (rule bit_word_eqI, auto simp: bit_simps dest: bit_imp_le_length)+

lemma value64: "big_endian (image64 n) = unat n"
proof -
  have "unat n < 18446744073709551616" using unat_lt [of n] by simp
  then have top: "unat n div 72057594037927936 mod 256 = unat n div 72057594037927936" by simp
  note b = unat_byte_sum [of 0 n] unat_byte_sum [of 8 n] unat_byte_sum [of 16 n]
    unat_byte_sum [of 24 n] unat_byte_sum [of 32 n] unat_byte_sum [of 40 n]
    unat_byte_sum [of 48 n] unat_byte_sum [of 56 n]
  have "big_endian (image64 n) = unat n div 72057594037927936 * 72057594037927936 +
      (unat n div 281474976710656 mod 256 * 281474976710656 +
      (unat n div 1099511627776 mod 256 * 1099511627776 +
      (unat n div 4294967296 mod 256 * 4294967296 + (unat n div 16777216 mod 256 * 16777216 +
      (unat n div 65536 mod 256 * 65536 + (unat n div 256 mod 256 * 256 + unat n mod 256))))))"
    using b top by (simp add: image64_def)
  also have "\<dots> = unat n"
    by (rule horner8 [OF _ digit digit digit digit digit digit]) simp_all
  finally show ?thesis .
qed

lemma image64_inj: "image64 m = image64 n \<Longrightarrow> m = n"
  by (metis value64 word_unat_eq_iff)

interpretation s64: byte_codec getS64 putS64 8 image64
proof
  show "length (image64 n) = 8" for n by (simp add: image64_def)
  show "putS64 p n = (if 8 \<le> length p then Some (int 8, image64 n @ drop 8 p) else None)" for p n
    by (rule putS64_image)
  show "getS64 p \<noteq> None \<longleftrightarrow> 8 \<le> length p" for p by (simp add: getS64_Some)
  show img: "image64 n = take 8 p" if "getS64 p = Some n" for p n
    using that by (auto simp: getS64_Some image64_get buffer8 split: if_splits)
  show "unat n = big_endian (take 8 p)" if "getS64 p = Some n" for p n
    using img [OF that] value64 [of n] by simp
qed (rule image64_inj)

subsection \<open>Properties\<close>

text \<open>
  \<open>putU32\<close> writes exactly four bytes, the big-endian image of its argument, and
  \<open>getU32\<close> reads it back; writing back what was read changes nothing; both fault exactly on
  buffers shorter than four bytes.
\<close>

theorem u32_roundtrip:
  "(putU32 p n = None \<longleftrightarrow> length p < 4) \<and> (getU32 p = None \<longleftrightarrow> length p < 4) \<and>
   (\<forall>c p'. putU32 p n = Some (c, p') \<longrightarrow> c = 4 \<and> getU32 p' = Some n \<and> length p' = length p \<and>
      drop 4 p' = drop 4 p \<and> big_endian (take 4 p') = unat n) \<and>
   (\<forall>m. getU32 p = Some m \<longrightarrow> unat m = big_endian (take 4 p) \<and> putU32 p m = Some (4, p))"
  using u32.put_faults [of p n] u32.get_defined [of p] u32.put_get [of p n] u32.put_frame [of p n]
    u32.get_value u32.get_put [of p]
  by (auto simp: not_le)

theorem u32_roundtrip_witness:
  "putU32 [1, 2, 3, 4, 5] 0x0A0B0C0D = Some (4, [10, 11, 12, 13, 5]) \<and>
   getU32 [10, 11, 12, 13, 5] = Some 0x0A0B0C0D"
proof -
  have p: "putU32 [1, 2, 3, 4, 5] 0x0A0B0C0D = Some (4, [10, 11, 12, 13, 5])"
    by (simp add: putU32_def put_byte_def drop_bit_eq_div)
  with u32_roundtrip [of "[1, 2, 3, 4, 5]" "0x0A0B0C0D"] show ?thesis by blast
qed

text \<open>
  C35 (roundtrip): \<open>putS64\<close> and \<open>getS64\<close> are inverse on every signed 64-bit value, negative ones
  included: eight bytes, big-endian in two's complement, nothing else touched.
\<close>

theorem s64_roundtrip:
  assumes "8 \<le> length p" and "in_i64 i"
  shows "\<exists>p'. putS64 p (word_of_int i) = Some (8, p') \<and> map_option sint (getS64 p') = Some i \<and>
    length p' = length p \<and> drop 8 p' = drop 8 p \<and>
    int (big_endian (take 8 p')) = i mod 18446744073709551616 \<and>
    (\<forall>m. getS64 p = Some m \<longrightarrow> putS64 p m = Some (8, p))"
proof -
  let ?w = "word_of_int i :: 64 word"
  from assms(1) have "putS64 p ?w \<noteq> None" using s64.put_faults [of p ?w] by simp
  then obtain c p' where p: "putS64 p ?w = Some (c, p')" by auto
  note fr = s64.put_frame [OF p] and get = s64.put_get [OF p]
  have "sint ?w = i"
    using assms(2) by (simp add: machine_limits signed_take_bit_int_eq_self sint_sbintrunc')
  moreover have "int (unat ?w) = i mod 18446744073709551616" by (simp add: uint_word_of_int)
  then have "int (big_endian (take 8 p')) = i mod 18446744073709551616"
    using s64.get_value [OF get] by simp
  ultimately show ?thesis using p fr get s64.get_put [of p] by auto
qed

text \<open>The value -2, in a buffer of nine bytes.\<close>

theorem s64_roundtrip_witness:
  "\<exists>p'. putS64 (replicate 9 7) (word_of_int (- 2)) = Some (8, p') \<and>
     map_option sint (getS64 p') = Some (- 2) \<and> drop 8 p' = [7]"
  using s64_roundtrip [of "replicate 9 7" "- 2"] by (auto simp: machine_limits)

section \<open>TIME_ARGS\<close>

text \<open>
  The four arguments of \<open>TIME_FORMAT\<close> for a time \<open>t\<close> of type \<open>int64_t\<close>. The divisors are
  products of \<open>int\<close> constants, \<open>TIME_SECOND * 60 * 60\<close>; \<open>mul\<close> is the multiplication of
  \<open>int\<close>. The C++ one is checked, \<open>i32_mul\<close>: overflow is undefined behaviour, \<open>None\<close>.
\<close>

definition TIME_SECOND :: int where "TIME_SECOND = 1000000000"

definition TIME_INVALID_VALUE :: int where "TIME_INVALID_VALUE = - 1"

definition TIME_IS_VALID :: "int \<Rightarrow> bool" where
  "TIME_IS_VALID t \<longleftrightarrow> t \<noteq> TIME_INVALID_VALUE"

definition TIME_ARGS ::
  "(int \<Rightarrow> int \<Rightarrow> int option) \<Rightarrow> int \<Rightarrow> int option \<times> int option \<times> int option \<times> int option" where
  "TIME_ARGS mul t =
    ((if TIME_IS_VALID t then do {
        m \<leftarrow> mul TIME_SECOND 60; h \<leftarrow> mul m 60; Some (to_u32 (t sdiv h)) } else Some 99),
     (if TIME_IS_VALID t then do {
        m \<leftarrow> mul TIME_SECOND 60; Some (to_u32 ((t sdiv m) smod 60)) } else Some 99),
     (if TIME_IS_VALID t then Some (to_u32 ((t sdiv TIME_SECOND) smod 60)) else Some 99),
     (if TIME_IS_VALID t then Some (to_u32 (t smod TIME_SECOND)) else Some 999999999))"

text \<open>The multiplication a compiler that wraps around uses, and one of 64 bits.\<close>

definition wrap_mul :: "int \<Rightarrow> int \<Rightarrow> int option" where
  "wrap_mul a b = Some (to_i32 (a * b))"

text \<open>
  \<open>TIME_ARGS\<close> overflows \<open>int\<close> for every valid time: the hour and the minute are
  undefined, only the second and the fraction are those of the time. An invalid time gives the
  documented placeholder. With the products reduced modulo 2^32 one hour prints
  as 4404 hours.
\<close>

theorem TIME_ARGS_overflow:
  assumes "0 \<le> t" and "in_i64 t"
  shows "TIME_ARGS i32_mul t = (None, None, Some (t div 1000000000 mod 60), Some (t mod 1000000000)) \<and>
    TIME_ARGS i32_mul (- 1) = (Some 99, Some 99, Some 99, Some 999999999) \<and>
    fst (TIME_ARGS wrap_mul 3600000000000) = Some 4404"
proof -
  have "0 \<le> t mod 1000000000" "t mod 1000000000 < 1000000000" by simp_all
  then have "(t mod 1000000000) mod 4294967296 = t mod 1000000000" by (intro mod_pos_pos_trivial) auto
  moreover have "(t div 1000000000 mod 60) mod 4294967296 = t div 1000000000 mod 60"
    by (intro mod_pos_pos_trivial) (auto intro: less_trans [of _ 60])
  ultimately show ?thesis using assms
    by (simp add: TIME_ARGS_def TIME_IS_VALID_def TIME_INVALID_VALUE_def TIME_SECOND_def wrap_mul_def
        i32_mul_def in_i32_def INT32_MAX_def INT32_MIN_def to_u32_def to_i32_def)
qed

theorem TIME_ARGS_overflow_witness:
  "TIME_ARGS i32_mul 5000000007 = (None, None, Some 5, Some 7)"
  using TIME_ARGS_overflow [of 5000000007] by (simp add: machine_limits)

text \<open>
  Computed without overflow, as in 64 bits, the four arguments are the exact
  decomposition of the time into hours, minutes, seconds and nanoseconds.
\<close>

theorem TIME_ARGS_exact:
  assumes "0 \<le> t" and "in_i64 t"
  shows "\<exists>h m s f. TIME_ARGS i64_mul t = (Some h, Some m, Some s, Some f) \<and>
    t = ((h * 60 + m) * 60 + s) * 1000000000 + f \<and> 0 \<le> h \<and> 0 \<le> m \<and> m < 60 \<and>
    0 \<le> s \<and> s < 60 \<and> 0 \<le> f \<and> f < 1000000000"
proof -
  have h: "t div 3600000000000 < 4294967296" "0 \<le> t div 3600000000000"
    using assms by (auto simp: machine_limits)
  let ?h = "t div 3600000000000" and ?m = "t div 60000000000 mod 60"
    and ?s = "t div 1000000000 mod 60" and ?f = "t mod 1000000000"
  have u: "to_u32 ?h = ?h" "to_u32 ?m = ?m" "to_u32 ?s = ?s" "to_u32 ?f = ?f"
    using h pos_mod_bound [of 60 "t div 60000000000"] pos_mod_bound [of 60 "t div 1000000000"]
      pos_mod_bound [of 1000000000 t]
    unfolding to_u32_def by (intro mod_pos_pos_trivial; simp)+
  have "TIME_ARGS i64_mul t = (Some ?h, Some ?m, Some ?s, Some ?f)"
    using assms u by (simp add: TIME_ARGS_def TIME_IS_VALID_def TIME_INVALID_VALUE_def
        TIME_SECOND_def i64_mul_def in_i64_def INT64_MAX_def INT64_MIN_def pos_imp_zdiv_nonneg_iff)
  moreover have "t = ((?h * 60 + ?m) * 60 + ?s) * 1000000000 + ?f"
  proof -
    have "?h = t div 1000000000 div 60 div 60" "?m = t div 1000000000 div 60 mod 60"
      by (simp_all add: zdiv_zmult2_eq [symmetric])
    then show ?thesis by (simp only: div_mult_mod_eq)
  qed
  moreover have "0 \<le> ?m" "?m < 60" "0 \<le> ?s" "?s < 60" "0 \<le> ?f" "?f < 1000000000"
    by simp_all
  ultimately show ?thesis using h(2) by blast
qed

theorem TIME_ARGS_exact_witness:
  "\<exists>h m s f. TIME_ARGS i64_mul 3661000000005 = (Some h, Some m, Some s, Some f) \<and>
    3661000000005 = ((h * 60 + m) * 60 + s) * 1000000000 + f"
  using TIME_ARGS_exact [of 3661000000005] by (auto simp: machine_limits)

end
