(* ===== verification/Logger.thy ===== *)
theory Logger
  imports Times
begin

text \<open>
  \<open>Logger.h\<close>/\<open>Logger.cpp\<close>: the level filter, the table of user tags, the log file and the
  routing of \<open>logPrint\<close>. A C string is the list of its characters without the terminating
  null; copying one into an array that is too short is undefined behaviour: \<open>None\<close>. The results
  of \<open>fopen\<close>, the clock and the identifiers of process and thread are parameters.
\<close>

section \<open>State\<close>

definition MAX_USER_TAG :: nat where "MAX_USER_TAG = 8"
definition MAX_TAG_LENGTH :: nat where "MAX_TAG_LENGTH = 64"
definition MAX_FILENAME_LENGTH :: nat where "MAX_FILENAME_LENGTH = 128"

record UserTag =
  object :: "64 word"
  tag :: string
  active :: bool

text \<open>A stream is \<open>stderr\<close> or a file that \<open>fopen\<close> returned; \<open>closed\<close> records the calls of \<open>fclose\<close>.\<close>

datatype stream = Stderr | File nat

record Logger =
  g_activeLevel :: int
  g_fd :: stream
  g_fileName :: string
  g_userTag :: "UserTag list"
  g_activeUserTag :: int
  g_init :: int
  closed :: "nat list"

text \<open>The static storage at the start of the program: everything not initialised is zero.\<close>

definition logger_static :: Logger where
  "logger_static = \<lparr>g_activeLevel = 2, g_fd = Stderr, g_fileName = [],
     g_userTag = replicate MAX_USER_TAG \<lparr>object = 0, tag = [], active = False\<rparr>,
     g_activeUserTag = 0, g_init = 0, closed = []\<rparr>"

definition no_tag :: UserTag where
  "no_tag = \<lparr>object = - 1, tag = [], active = False\<rparr>"

definition Logger_init :: "Logger \<Rightarrow> Logger" where
  "Logger_init l =
     (if g_init l > 0 then l
      else l\<lparr>g_init := 1, g_activeUserTag := 0, g_fileName := [],
             g_userTag := replicate MAX_USER_TAG no_tag\<rparr>)"

section \<open>Levels\<close>

definition Logger_set_level :: "int \<Rightarrow> Logger \<Rightarrow> Logger" where
  "Logger_set_level setLevel l =
     (if setLevel \<le> 0 then l\<lparr>g_activeLevel := 0\<rparr>
      else if setLevel > 6 then l\<lparr>g_activeLevel := 6\<rparr>
      else l\<lparr>g_activeLevel := setLevel\<rparr>)"

definition Logger_get_level :: "Logger \<Rightarrow> int" where
  "Logger_get_level l = g_activeLevel l"

section \<open>User tags\<close>

text \<open>\<open>strcpy\<close> of a string and its terminating null into an array of \<open>n\<close> characters.\<close>

definition strcpy :: "nat \<Rightarrow> string \<Rightarrow> string option" where
  "strcpy n s = (if length s + 1 \<le> n then Some s else None)"

text \<open>The index of the first slot that satisfies \<open>P\<close>, from index \<open>i\<close> on.\<close>

fun first_slot :: "(UserTag \<Rightarrow> bool) \<Rightarrow> nat \<Rightarrow> UserTag list \<Rightarrow> nat option" where
  "first_slot P i [] = None"
| "first_slot P i (t # ts) = (if P t then Some i else first_slot P (Suc i) ts)"

text \<open>
  A tag longer than the array is not copied: the code compares it (\<open>strncmp\<close>) where it means
  to copy.
\<close>

definition Logger_set_userTag :: "64 word \<Rightarrow> string option \<Rightarrow> Logger \<Rightarrow> (int \<times> Logger) option" where
  "Logger_set_userTag ob userTag l =
     (case userTag of
        Some s \<Rightarrow>
          (case first_slot (\<lambda>t. active t = False) 0 (g_userTag l) of
             None \<Rightarrow> Some (- 1, l)
           | Some i \<Rightarrow>
               Option.bind (if length s \<le> MAX_TAG_LENGTH then strcpy MAX_TAG_LENGTH s
                            else Some (tag (g_userTag l ! i)))
                 (\<lambda>tg. Some (int i,
                    l\<lparr>g_userTag := (g_userTag l)[i := \<lparr>object = ob, tag = tg, active = True\<rparr>],
                      g_activeUserTag := g_activeUserTag l + 1\<rparr>)))
      | None \<Rightarrow>
          (case first_slot (\<lambda>t. object t = ob) 0 (g_userTag l) of
             None \<Rightarrow> Some (- 1, l)
           | Some i \<Rightarrow> Some (int i,
               l\<lparr>g_userTag := (g_userTag l)[i := no_tag],
                 g_activeUserTag := g_activeUserTag l - 1\<rparr>)))"

section \<open>The log file\<close>

definition close_file :: "Logger \<Rightarrow> Logger" where
  "close_file l = (case g_fd l of Stderr \<Rightarrow> l | File f \<Rightarrow> l\<lparr>closed := closed l @ [f], g_fd := Stderr\<rparr>)"

text \<open>\<open>opened\<close> is the stream \<open>fopen\<close> returns, \<open>None\<close> for a null pointer.\<close>

definition Logger_set_file :: "string option \<Rightarrow> nat option \<Rightarrow> Logger \<Rightarrow> Logger option" where
  "Logger_set_file filepath opened l =
     (case filepath of
        None \<Rightarrow> Some (if g_fd l \<noteq> Stderr then (close_file l)\<lparr>g_fileName := []\<rparr> else l)
      | Some path \<Rightarrow>
          if g_fileName l = path then Some l
          else Option.bind (strcpy MAX_FILENAME_LENGTH path) (\<lambda>name.
            let l1 = close_file (l\<lparr>g_fileName := name\<rparr>)
            in Some (case opened of None \<Rightarrow> l1 | Some f \<Rightarrow> l1\<lparr>g_fd := File f\<rparr>)))"

section \<open>Printing\<close>

text \<open>\<open>getCurrentTimeMillis\<close> divides nanoseconds by 1000.\<close>

definition getCurrentTimeMillis :: "timespec option \<Rightarrow> int option" where
  "getCurrentTimeMillis r = do {
     let t = clock_ts r;
     s \<leftarrow> i64_mul (tv_sec t) 1000000000;
     mono_ns \<leftarrow> i64_add s (tv_nsec t);
     Some (mono_ns sdiv 1000)
   }"

text \<open>
  What \<open>logPrint\<close> writes and where: the time, the user tag or the process and thread, and the
  formatted message \<open>msg\<close>. Nothing is written above the active level.
\<close>

datatype origin = Tagged string | Thread_id int int

record log_entry =
  stream_of :: stream
  stamp :: int
  origin_of :: origin
  message :: string

definition logPrint ::
  "timespec option \<Rightarrow> int \<Rightarrow> int \<Rightarrow> int \<Rightarrow> int \<Rightarrow> string \<Rightarrow> Logger \<Rightarrow> log_entry list option" where
  "logPrint clock pid tid categery level msg l =
     (if level \<le> g_activeLevel l then
        map_option (\<lambda>time.
          [\<lparr>stream_of = g_fd l, stamp = time,
            origin_of =
              (if g_activeUserTag l \<noteq> 0 \<and> categery \<ge> 0 \<and> categery < int MAX_USER_TAG \<and>
                  active (g_userTag l ! nat categery)
               then Tagged (tag (g_userTag l ! nat categery)) else Thread_id pid tid),
            message = msg\<rparr>])
          (getCurrentTimeMillis clock)
      else Some [])"

section \<open>The table of tags\<close>

lemma first_slot_None: "first_slot P i ts = None \<longleftrightarrow> (\<forall>t\<in>set ts. \<not> P t)"
  by (induction ts arbitrary: i) auto

lemma first_slot_Some:
  "first_slot P i ts = Some k \<Longrightarrow>
   \<exists>j. k = i + j \<and> j < length ts \<and> P (ts ! j) \<and> (\<forall>m < j. \<not> P (ts ! m))"
proof (induction ts arbitrary: i)
  case (Cons t ts)
  show ?case
  proof (cases "P t")
    case True
    with Cons.prems show ?thesis by (intro exI [of _ 0]) simp
  next
    case False
    then have "first_slot P (Suc i) ts = Some k" using Cons.prems by simp
    from Cons.IH [OF this] obtain j where
      "k = Suc i + j" "j < length ts" "P (ts ! j)" "\<forall>m < j. \<not> P (ts ! m)" by blast
    then show ?thesis using False
      by (intro exI [of _ "Suc j"]) (simp add: All_less_Suc2)
  qed
qed simp

definition tags_ok :: "Logger \<Rightarrow> bool" where
  "tags_ok l \<longleftrightarrow> length (g_userTag l) = MAX_USER_TAG \<and>
     g_activeUserTag l = int (length (filter active (g_userTag l))) \<and>
     (\<forall>t\<in>set (g_userTag l). \<not> active t \<longrightarrow> t = no_tag)"

lemma init_tags_ok: "tags_ok (Logger_init logger_static)"
  by (simp add: tags_ok_def Logger_init_def logger_static_def no_tag_def)

lemma filter_length_upd:
  "i < length ts \<Longrightarrow>
   (if P (ts ! i) then 1 else 0) + length (filter P (ts[i := t])) =
     length (filter P ts) + (if P t then 1 else 0)"
proof (induction ts arbitrary: i)
  case (Cons a ts)
  then show ?case by (cases i) (auto split: if_splits)
qed simp

lemma tags_ok_upd:
  assumes "tags_ok l" and "i < MAX_USER_TAG" and "\<not> active t \<longrightarrow> t = no_tag"
    and "n = g_activeUserTag l - (if active (g_userTag l ! i) then 1 else 0) + (if active t then 1 else 0)"
  shows "tags_ok (l\<lparr>g_userTag := (g_userTag l)[i := t], g_activeUserTag := n\<rparr>)"
proof -
  have "\<forall>u\<in>set ((g_userTag l)[i := t]). \<not> active u \<longrightarrow> u = no_tag"
    using assms(1,3) set_update_subset_insert [of "g_userTag l" i t] by (auto simp: tags_ok_def)
  moreover have "n = int (length (filter active ((g_userTag l)[i := t])))"
    using assms filter_length_upd [of i "g_userTag l" active t]
    by (auto simp: tags_ok_def split: if_splits)
  ultimately show ?thesis using assms(1) by (simp add: tags_ok_def)
qed

text \<open>What is kept of a tag of a given length.\<close>

definition stored :: "string \<Rightarrow> string" where
  "stored s = (if length s < MAX_TAG_LENGTH then s else [])"

lemma register_tag:
  assumes ok: "tags_ok l" and len: "length s \<noteq> MAX_TAG_LENGTH"
  shows "(Logger_set_userTag ob (Some s) l = Some (- 1, l) \<and> (\<forall>t\<in>set (g_userTag l). active t)) \<or>
    (\<exists>i l'. i < MAX_USER_TAG \<and> \<not> active (g_userTag l ! i) \<and>
      Logger_set_userTag ob (Some s) l = Some (int i, l') \<and> tags_ok l' \<and>
      l' = l\<lparr>g_userTag := (g_userTag l)[i := \<lparr>object = ob, tag = stored s, active = True\<rparr>],
        g_activeUserTag := g_activeUserTag l + 1\<rparr>)"
proof (cases "first_slot (\<lambda>t. active t = False) 0 (g_userTag l)")
  case None
  then show ?thesis
    using first_slot_None [THEN iffD1, OF None] unfolding Logger_set_userTag_def by simp
next
  case (Some i)
  then have i: "i < MAX_USER_TAG" "\<not> active (g_userTag l ! i)"
    using ok first_slot_Some [OF Some] by (auto simp: tags_ok_def)
  then have free: "g_userTag l ! i = no_tag" using ok by (auto simp: tags_ok_def)
  have "(if length s \<le> MAX_TAG_LENGTH then strcpy MAX_TAG_LENGTH s else Some (tag (g_userTag l ! i))) =
      Some (stored s)"
    using len by (auto simp: strcpy_def stored_def free no_tag_def)
  then have "Logger_set_userTag ob (Some s) l =
      Some (int i, l\<lparr>g_userTag := (g_userTag l)[i := \<lparr>object = ob, tag = stored s, active = True\<rparr>],
        g_activeUserTag := g_activeUserTag l + 1\<rparr>)"
    using Some by (simp add: Logger_set_userTag_def)
  moreover have "tags_ok (l\<lparr>g_userTag := (g_userTag l)[i := \<lparr>object = ob, tag = stored s, active = True\<rparr>],
        g_activeUserTag := g_activeUserTag l + 1\<rparr>)"
    by (rule tags_ok_upd [OF ok i(1)]) (use i in simp_all)
  ultimately show ?thesis using i by blast
qed

lemma unregister_tag:
  assumes ok: "tags_ok l" and ob: "ob \<noteq> - 1"
  shows "\<exists>r l'. Logger_set_userTag ob None l = Some (r, l') \<and> tags_ok l' \<and>
    (r = - 1 \<longrightarrow> l' = l \<and> (\<forall>t\<in>set (g_userTag l). object t \<noteq> ob))"
proof (cases "first_slot (\<lambda>t. object t = ob) 0 (g_userTag l)")
  case None
  then show ?thesis
    using ok first_slot_None [THEN iffD1, OF None] unfolding Logger_set_userTag_def by simp
next
  case (Some i)
  then have i: "i < MAX_USER_TAG" "object (g_userTag l ! i) = ob"
    using ok first_slot_Some [OF Some] by (auto simp: tags_ok_def)
  then have "active (g_userTag l ! i)"
    using ok ob by (metis tags_ok_def nth_mem no_tag_def UserTag.select_convs(1))
  then have "tags_ok (l\<lparr>g_userTag := (g_userTag l)[i := no_tag],
      g_activeUserTag := g_activeUserTag l - 1\<rparr>)"
    by (intro tags_ok_upd [OF ok i(1)]) (simp_all add: no_tag_def)
  then show ?thesis using Some by (simp add: Logger_set_userTag_def)
qed

text \<open>The stamp of an entry is a clock of microseconds, in spite of its name.\<close>

interpretation log_clock: scaled_clock getCurrentTimeMillis 1000
proof -
  have "getCurrentTimeMillis = getSystemTimeUs"
    by (rule ext) (simp add: getCurrentTimeMillis_def getSystemTimeUs_def)
  then show "scaled_clock getCurrentTimeMillis 1000" using us.scaled_clock_axioms by simp
qed

lemma printed:
  assumes "getCurrentTimeMillis clock = Some time" and "level \<le> g_activeLevel l"
  shows "logPrint clock pid tid cat level msg l =
    Some [\<lparr>stream_of = g_fd l, stamp = time,
      origin_of = (if g_activeUserTag l \<noteq> 0 \<and> cat \<ge> 0 \<and> cat < int MAX_USER_TAG \<and>
          active (g_userTag l ! nat cat)
        then Tagged (tag (g_userTag l ! nat cat)) else Thread_id pid tid), message = msg\<rparr>]"
  using assms by (simp add: logPrint_def)

section \<open>Properties\<close>

text \<open>
  \<open>Logger_set_level\<close> clamps to 0..6; a message is written, to the current
  stream and with the microsecond stamp, exactly when its level is not above that; fatal and
  error messages (level 0) always are.
\<close>

theorem level_filter:
  assumes "normalized t" and "0 \<le> tv_sec t" and "total_ns t \<le> INT64_MAX"
  shows "Logger_get_level (Logger_set_level n l) = max 0 (min 6 n) \<and>
    (logPrint (Some t) pid tid cat level msg (Logger_set_level n l) = Some [] \<longleftrightarrow>
      max 0 (min 6 n) < level) \<and>
    (\<exists>e. logPrint (Some t) pid tid cat 0 msg (Logger_set_level n l) = Some [e] \<and>
      stream_of e = g_fd l \<and> message e = msg \<and> stamp e = total_ns t div 1000)"
proof -
  define m where "m = max 0 (min 6 n)"
  have lv: "g_activeLevel (Logger_set_level n l) = m"
    "g_fd (Logger_set_level n l) = g_fd l"
    by (auto simp: Logger_set_level_def m_def)
  have time: "getCurrentTimeMillis (Some t) = Some (total_ns t div 1000)"
    using log_clock.reading_exact [OF assms(1,2)] assms(3) by simp
  have "logPrint (Some t) pid tid cat level msg (Logger_set_level n l) = Some [] \<longleftrightarrow> m < level"
    using lv time by (simp add: logPrint_def not_le)
  moreover have "0 \<le> m" by (simp add: m_def)
  ultimately show ?thesis
    using printed [OF time, of 0 "Logger_set_level n l"] lv
    by (simp add: Logger_get_level_def m_def [symmetric])
qed

theorem level_filter_witness:
  "logPrint (Some (Timespec 1 0)) 1 2 (- 1) 4 ''x'' (Logger_set_level 3 logger_static) = Some [] \<and>
   Logger_get_level (Logger_set_level 9 logger_static) = 6"
  using level_filter [of "Timespec 1 0" 3 logger_static 1 2 "- 1" 4 "''x''"]
    level_filter [of "Timespec 1 0" 9 logger_static 1 2 "- 1" 4 "''x''"]
  by (simp add: normalized_def total_ns_def INT64_MAX_def)

text \<open>
  On an initialised table, registering a tag of fewer than 64 characters for an
  object that has none either reports a full table or returns a slot in which messages are
  printed with that tag; the table keeps its count; and removing the object's tag returns the
  same slot and restores the table exactly.
\<close>

theorem user_tag_roundtrip:
  assumes ok: "tags_ok l" and len: "length s < MAX_TAG_LENGTH"
    and new: "\<forall>t\<in>set (g_userTag l). object t \<noteq> ob"
    and time: "getCurrentTimeMillis clock = Some time" and level: "level \<le> g_activeLevel l"
  shows "(Logger_set_userTag ob (Some s) l = Some (- 1, l) \<and> (\<forall>t\<in>set (g_userTag l). active t)) \<or>
    (\<exists>i l'. i < MAX_USER_TAG \<and> Logger_set_userTag ob (Some s) l = Some (int i, l') \<and> tags_ok l' \<and>
      logPrint clock pid tid (int i) level msg l' =
        Some [\<lparr>stream_of = g_fd l, stamp = time, origin_of = Tagged s, message = msg\<rparr>] \<and>
      Logger_set_userTag ob None l' = Some (int i, l))"
proof (cases "\<forall>t\<in>set (g_userTag l). active t")
  case True
  then have "first_slot (\<lambda>t. active t = False) 0 (g_userTag l) = None" by (simp add: first_slot_None)
  then show ?thesis using True by (simp add: Logger_set_userTag_def)
next
  case False
  let ?t = "\<lparr>object = ob, tag = s, active = True\<rparr>"
  from False register_tag [OF ok, of s ob] len obtain i l' where i: "i < MAX_USER_TAG"
    "\<not> active (g_userTag l ! i)" "Logger_set_userTag ob (Some s) l = Some (int i, l')" "tags_ok l'"
    and l': "l' = l\<lparr>g_userTag := (g_userTag l)[i := ?t], g_activeUserTag := g_activeUserTag l + 1\<rparr>"
    by (auto simp: stored_def)
  have n: "length (g_userTag l) = MAX_USER_TAG" and pos: "0 \<le> g_activeUserTag l"
    using ok by (auto simp: tags_ok_def)
  have free: "g_userTag l ! i = no_tag" using ok i n by (auto simp: tags_ok_def)
  have "first_slot (\<lambda>t. object t = ob) 0 (g_userTag l') = Some i"
  proof -
    have "first_slot (\<lambda>t. object t = ob) 0 (g_userTag l') \<noteq> None"
      using i n by (auto simp: l' first_slot_None set_update_memI intro: bexI [of _ ?t])
    then obtain j where j: "first_slot (\<lambda>t. object t = ob) 0 (g_userTag l') = Some j" by auto
    have "j = i"
      using first_slot_Some [OF j] new n i by (auto simp: l' nth_list_update split: if_splits)
    with j show ?thesis by simp
  qed
  then have "Logger_set_userTag ob None l' = Some (int i, l)"
    using i n free by (simp add: Logger_set_userTag_def l' list_update_same_conv)
  moreover have "logPrint clock pid tid (int i) level msg l' =
      Some [\<lparr>stream_of = g_fd l, stamp = time, origin_of = Tagged s, message = msg\<rparr>]"
    using printed [OF time, of level l'] level i n pos by (simp add: l')
  ultimately show ?thesis using i by blast
qed

theorem user_tag_roundtrip_witness:
  "\<exists>i l'. Logger_set_userTag 77 (Some ''cam'') (Logger_init logger_static) = Some (int i, l') \<and>
     Logger_set_userTag 77 None l' = Some (int i, Logger_init logger_static)"
proof -
  have "getCurrentTimeMillis None = Some 0" by (rule log_clock.reading_failed)
  moreover have "\<forall>t\<in>set (g_userTag (Logger_init logger_static)). object t \<noteq> 77"
    "\<not> (\<forall>t\<in>set (g_userTag (Logger_init logger_static)). active t)"
    by (simp_all add: Logger_init_def logger_static_def MAX_USER_TAG_def no_tag_def)
  ultimately show ?thesis
    using user_tag_roundtrip [OF init_tags_ok, of "''cam''" 77 None 0 0,
        where pid = 1 and tid = 2 and msg = "[]"]
    by (auto simp: MAX_TAG_LENGTH_def Logger_init_def logger_static_def)
qed

text \<open>
  A tag of exactly 64 characters overflows its array; a longer one is accepted but
  lost, its slot prints an empty tag; and removing the tag of object -1, the mark of an unused
  slot, on a fresh table makes the count of active tags -1.
\<close>

theorem user_tag_limits:
  assumes ok: "tags_ok l" and room: "\<exists>t\<in>set (g_userTag l). \<not> active t"
  shows "(length s = MAX_TAG_LENGTH \<longrightarrow> Logger_set_userTag ob (Some s) l = None) \<and>
    (MAX_TAG_LENGTH < length s \<longrightarrow> (\<exists>i l'. Logger_set_userTag ob (Some s) l = Some (int i, l') \<and>
      i < MAX_USER_TAG \<and> tag (g_userTag l' ! i) = [])) \<and>
    map_option (\<lambda>(r, l'). (r, g_activeUserTag l')) (Logger_set_userTag (- 1) None (Logger_init logger_static)) =
      Some (0, - 1)"
proof -
  have "first_slot (\<lambda>t. active t = False) 0 (g_userTag l) \<noteq> None"
    using room by (auto simp: first_slot_None)
  then have "length s = MAX_TAG_LENGTH \<longrightarrow> Logger_set_userTag ob (Some s) l = None"
    by (auto simp: Logger_set_userTag_def strcpy_def)
  moreover have "\<exists>i l'. Logger_set_userTag ob (Some s) l = Some (int i, l') \<and>
      i < MAX_USER_TAG \<and> tag (g_userTag l' ! i) = []" if "MAX_TAG_LENGTH < length s"
    using register_tag [OF ok, of s ob] that room ok by (auto simp: stored_def tags_ok_def)
  moreover have "map_option (\<lambda>(r, l'). (r, g_activeUserTag l'))
      (Logger_set_userTag (- 1) None (Logger_init logger_static)) = Some (0, - 1)"
    by (simp add: Logger_set_userTag_def Logger_init_def logger_static_def MAX_USER_TAG_def no_tag_def
        numeral_eq_Suc)
  ultimately show ?thesis by blast
qed

theorem user_tag_limits_witness:
  "Logger_set_userTag 5 (Some (replicate 64 CHR ''a'')) (Logger_init logger_static) = None"
proof -
  have "\<exists>t\<in>set (g_userTag (Logger_init logger_static)). \<not> active t"
    by (simp add: Logger_init_def logger_static_def MAX_USER_TAG_def no_tag_def)
  from user_tag_limits [OF init_tags_ok this, of "replicate 64 CHR ''a''" 5] show ?thesis
    by (simp add: MAX_TAG_LENGTH_def)
qed

text \<open>No message is written to a closed file.\<close>

definition file_ok :: "Logger \<Rightarrow> bool" where
  "file_ok l \<longleftrightarrow> (\<forall>f. g_fd l = File f \<longrightarrow> f \<notin> set (closed l)) \<and> distinct (closed l)"

text \<open>
  \<open>Logger_set_file\<close> never leaves a closed file as the current stream and closes no
  file twice: it closes the previous file once and switches to the new one, to \<open>stderr\<close> when it
  cannot be opened or no path is given. After a failed opening the name is kept, so asking for
  the same path again does nothing; a path of 128 characters or more overflows the array.
\<close>

theorem set_file_correct:
  assumes ok: "file_ok l" and new: "\<forall>f. opened = Some f \<longrightarrow> f \<notin> set (closed l) \<and> g_fd l \<noteq> File f"
    and path: "g_fileName l \<noteq> path"
  shows "(length path < MAX_FILENAME_LENGTH \<longrightarrow> (\<exists>l'. Logger_set_file (Some path) opened l = Some l' \<and>
      file_ok l' \<and> g_fd l' = (case opened of None \<Rightarrow> Stderr | Some f \<Rightarrow> File f) \<and>
      closed l' = closed l @ (case g_fd l of Stderr \<Rightarrow> [] | File f \<Rightarrow> [f]) \<and>
      Logger_set_file (Some path) again l' = Some l')) \<and>
    (MAX_FILENAME_LENGTH \<le> length path \<longrightarrow> Logger_set_file (Some path) opened l = None) \<and>
    (\<exists>l'. Logger_set_file None opened l = Some l' \<and> file_ok l' \<and> g_fd l' = Stderr)"
proof -
  have none: "\<exists>l'. Logger_set_file None opened l = Some l' \<and> file_ok l' \<and> g_fd l' = Stderr"
    using ok by (cases "g_fd l") (auto simp: Logger_set_file_def close_file_def file_ok_def)
  have "\<exists>l'. Logger_set_file (Some path) opened l = Some l' \<and>
      file_ok l' \<and> g_fd l' = (case opened of None \<Rightarrow> Stderr | Some f \<Rightarrow> File f) \<and>
      closed l' = closed l @ (case g_fd l of Stderr \<Rightarrow> [] | File f \<Rightarrow> [f]) \<and>
      Logger_set_file (Some path) again l' = Some l'" if "length path < MAX_FILENAME_LENGTH"
    using ok new path that
    by (cases "g_fd l"; cases opened)
      (auto simp: Logger_set_file_def strcpy_def close_file_def file_ok_def Let_def)
  then show ?thesis using none path by (auto simp: Logger_set_file_def strcpy_def)
qed

theorem set_file_correct_witness:
  "\<exists>l'. Logger_set_file (Some ''/tmp/log'') None logger_static = Some l' \<and> g_fd l' = Stderr \<and>
     Logger_set_file (Some ''/tmp/log'') (Some 3) l' = Some l'"
  using set_file_correct [of logger_static None "''/tmp/log''" "Some 3"]
  by (auto simp: logger_static_def file_ok_def MAX_FILENAME_LENGTH_def)

end
