(* ===== verification/Logger_Object.thy ===== *)
theory Logger_Object
  imports Logger
begin

text \<open>
  The logger as an object: for any sequence of registrations, removals, level changes and messages
  it implements a specification with a level and eight slots, each empty or holding an owner and a
  tag.
\<close>

section \<open>The specification\<close>

record alogger =
  alevel :: int
  aslots :: "(64 word \<times> string) option list"
  astream :: stream

definition free_slot :: "(64 word \<times> string) option list \<Rightarrow> nat option" where
  "free_slot ss = find (\<lambda>i. ss ! i = None) [0..<length ss]"

definition slot_of :: "64 word \<Rightarrow> (64 word \<times> string) option list \<Rightarrow> nat option" where
  "slot_of ob ss = find (\<lambda>i. map_option fst (ss ! i) = Some ob) [0..<length ss]"

datatype log_op =
    Register "64 word" string | Unregister "64 word" | SetLevel int
  | Print "timespec option" int int int int string

datatype log_result = Code int | Printed "log_entry list"

definition spec_origin :: "int \<Rightarrow> int \<Rightarrow> int \<Rightarrow> (64 word \<times> string) option list \<Rightarrow> origin" where
  "spec_origin pid tid cat ss =
     (if 0 \<le> cat \<and> nat cat < length ss
      then (case ss ! nat cat of None \<Rightarrow> Thread_id pid tid | Some (ob, s) \<Rightarrow> Tagged s)
      else Thread_id pid tid)"

fun spec_log :: "log_op \<Rightarrow> alogger \<Rightarrow> log_result \<times> alogger" where
  "spec_log (Register ob s) a =
     (case free_slot (aslots a) of
        None \<Rightarrow> (Code (- 1), a)
      | Some i \<Rightarrow> (Code (int i), a\<lparr>aslots := (aslots a)[i := Some (ob, stored s)]\<rparr>))"
| "spec_log (Unregister ob) a =
     (case slot_of ob (aslots a) of
        None \<Rightarrow> (Code (- 1), a)
      | Some i \<Rightarrow> (Code (int i), a\<lparr>aslots := (aslots a)[i := None]\<rparr>))"
| "spec_log (SetLevel n) a = (Code (max 0 (min 6 n)), a\<lparr>alevel := max 0 (min 6 n)\<rparr>)"
| "spec_log (Print clock pid tid cat level msg) a =
     (Printed (if level \<le> alevel a
        then [\<lparr>stream_of = astream a, stamp = the (getCurrentTimeMillis clock),
               origin_of = spec_origin pid tid cat (aslots a), message = msg\<rparr>]
        else []), a)"

text \<open>The calls, and which of them are defined: a tag of exactly 64 characters is not.\<close>

fun log_call :: "log_op \<Rightarrow> Logger \<Rightarrow> (log_result \<times> Logger) option" where
  "log_call (Register ob s) l = map_option (\<lambda>(r, l'). (Code r, l')) (Logger_set_userTag ob (Some s) l)"
| "log_call (Unregister ob) l = map_option (\<lambda>(r, l'). (Code r, l')) (Logger_set_userTag ob None l)"
| "log_call (SetLevel n) l = Some (Code (Logger_get_level (Logger_set_level n l)), Logger_set_level n l)"
| "log_call (Print clock pid tid cat level msg) l =
     map_option (\<lambda>es. (Printed es, l)) (logPrint clock pid tid cat level msg l)"

fun log_allowed :: "log_op \<Rightarrow> bool" where
  "log_allowed (Register ob s) \<longleftrightarrow> length s \<noteq> MAX_TAG_LENGTH"
| "log_allowed (Unregister ob) \<longleftrightarrow> ob \<noteq> - 1"
| "log_allowed (SetLevel n) \<longleftrightarrow> True"
| "log_allowed (Print clock pid tid cat level msg) \<longleftrightarrow> getCurrentTimeMillis clock \<noteq> None"

section \<open>The logger implements it\<close>

definition slot_view :: "UserTag \<Rightarrow> (64 word \<times> string) option" where
  "slot_view t = (if active t then Some (object t, tag t) else None)"

definition log_view :: "Logger \<Rightarrow> alogger" where
  "log_view l = \<lparr>alevel = g_activeLevel l, aslots = map slot_view (g_userTag l), astream = g_fd l\<rparr>"

text \<open>The search loops of the code are a search for an index.\<close>

lemma first_slot_find: "first_slot P 0 ts = find (\<lambda>i. P (ts ! i)) [0..<length ts]"
proof (cases "first_slot P 0 ts")
  case None
  then have "\<forall>t\<in>set ts. \<not> P t" by (simp add: first_slot_None)
  then have "find (\<lambda>i. P (ts ! i)) [0..<length ts] = None" by (auto simp: find_None_iff)
  then show ?thesis using None by simp
next
  case (Some k)
  from first_slot_Some [OF Some] have k: "k < length ts" "P (ts ! k)" "\<forall>m < k. \<not> P (ts ! m)" by auto
  then have "find (\<lambda>i. P (ts ! i)) [0..<length ts] = Some k"
    by (auto simp: find_Some_iff)
  then show ?thesis using Some by simp
qed

lemma find_cong_index:
  "(\<And>i. i < length ts \<Longrightarrow> P i = Q i) \<Longrightarrow> find P [0..<length ts] = find Q [0..<length ts]"
  by (rule find_cong) auto

lemma tags_okD:
  assumes "tags_ok l"
  shows "length (g_userTag l) = MAX_USER_TAG" "\<And>t. t \<in> set (g_userTag l) \<Longrightarrow> \<not> active t \<Longrightarrow> t = no_tag"
    "g_activeUserTag l = int (length (filter active (g_userTag l)))"
  using assms by (simp_all add: tags_ok_def)

lemma free_slot_view: "free_slot (map slot_view ts) = first_slot (\<lambda>t. active t = False) 0 ts"
  unfolding free_slot_def first_slot_find length_map by (rule find_cong_index) (simp add: slot_view_def)

lemma slot_of_view:
  assumes "tags_ok l" and "ob \<noteq> - 1"
  shows "slot_of ob (map slot_view (g_userTag l)) = first_slot (\<lambda>t. object t = ob) 0 (g_userTag l)"
  unfolding slot_of_def first_slot_find length_map
proof (rule find_cong_index)
  fix i assume i: "i < length (g_userTag l)"
  show "(map_option fst (map slot_view (g_userTag l) ! i) = Some ob) = (object (g_userTag l ! i) = ob)"
    using i tags_okD(2) [OF assms(1), of "g_userTag l ! i"] assms(2)
    by (cases "active (g_userTag l ! i)") (auto simp: slot_view_def no_tag_def)
qed

lemma active_counted:
  assumes "tags_ok l" and "i < MAX_USER_TAG" and "active (g_userTag l ! i)"
  shows "g_activeUserTag l \<noteq> 0"
proof -
  have "g_userTag l ! i \<in> set (filter active (g_userTag l))" using assms tags_okD(1) [OF assms(1)] by simp
  then have "0 < length (filter active (g_userTag l))" by (rule length_pos_if_in_set)
  then show ?thesis using tags_okD(3) [OF assms(1)] by linarith
qed

lemma register_law:
  assumes ok: "tags_ok l" and len: "length s \<noteq> MAX_TAG_LENGTH"
  shows "\<exists>r l'. log_call (Register ob s) l = Some (r, l') \<and> tags_ok l' \<and>
    spec_log (Register ob s) (log_view l) = (r, log_view l')"
proof (cases "first_slot (\<lambda>t. active t = False) 0 (g_userTag l)")
  case None
  then have "Logger_set_userTag ob (Some s) l = Some (- 1, l)" by (simp add: Logger_set_userTag_def)
  then show ?thesis using None ok by (simp add: log_view_def free_slot_view)
next
  case (Some i)
  then have i: "i < MAX_USER_TAG" "\<not> active (g_userTag l ! i)"
    using tags_okD(1) [OF ok] first_slot_Some [OF Some] by auto
  then have "\<not> (\<forall>t\<in>set (g_userTag l). active t)" using tags_okD(1) [OF ok] by auto
  with register_tag [OF ok len, of ob] obtain j l' where
    l': "Logger_set_userTag ob (Some s) l = Some (int j, l')" "tags_ok l'"
      "l' = l\<lparr>g_userTag := (g_userTag l)[j := \<lparr>object = ob, tag = stored s, active = True\<rparr>],
        g_activeUserTag := g_activeUserTag l + 1\<rparr>" by blast
  have "j = i" using l'(1) Some by (auto simp: Logger_set_userTag_def bind_eq_Some_conv)
  then show ?thesis using l' Some
    by (simp add: log_view_def free_slot_view map_update slot_view_def)
qed

lemma unregister_law:
  assumes ok: "tags_ok l" and ob: "ob \<noteq> - 1"
  shows "\<exists>r l'. log_call (Unregister ob) l = Some (r, l') \<and> tags_ok l' \<and>
    spec_log (Unregister ob) (log_view l) = (r, log_view l')"
proof -
  from unregister_tag [OF assms] obtain r l' where
    l': "Logger_set_userTag ob None l = Some (r, l')" "tags_ok l'" by blast
  have slots: "aslots (log_view l) = map slot_view (g_userTag l)" by (simp add: log_view_def)
  show ?thesis
  proof (cases "first_slot (\<lambda>t. object t = ob) 0 (g_userTag l)")
    case None
    then have "Logger_set_userTag ob None l = Some (- 1, l)" by (simp add: Logger_set_userTag_def)
    moreover have "slot_of ob (aslots (log_view l)) = None"
      unfolding slots slot_of_view [OF assms] by (rule None)
    ultimately show ?thesis using ok by simp
  next
    case (Some i)
    then have "Logger_set_userTag ob None l = Some (int i,
        l\<lparr>g_userTag := (g_userTag l)[i := no_tag], g_activeUserTag := g_activeUserTag l - 1\<rparr>)"
      by (simp add: Logger_set_userTag_def)
    moreover have "slot_of ob (aslots (log_view l)) = Some i"
      unfolding slots slot_of_view [OF assms] by (rule Some)
    ultimately show ?thesis using l' by (simp add: log_view_def map_update slot_view_def no_tag_def)
  qed
qed

lemma print_law:
  assumes ok: "tags_ok l" and time: "getCurrentTimeMillis clock \<noteq> None"
  shows "\<exists>r. log_call (Print clock pid tid cat level msg) l = Some (r, l) \<and>
    spec_log (Print clock pid tid cat level msg) (log_view l) = (r, log_view l)"
proof -
  from time obtain t where t: "getCurrentTimeMillis clock = Some t" by auto
  note len = tags_okD(1) [OF ok]
  have valid: "0 \<le> cat \<and> nat cat < length (map slot_view (g_userTag l)) \<longleftrightarrow> cat \<ge> 0 \<and> cat < int MAX_USER_TAG"
    using len by auto
  have "spec_origin pid tid cat (map slot_view (g_userTag l)) =
      (if g_activeUserTag l \<noteq> 0 \<and> cat \<ge> 0 \<and> cat < int MAX_USER_TAG \<and> active (g_userTag l ! nat cat)
       then Tagged (tag (g_userTag l ! nat cat)) else Thread_id pid tid)"
  proof (cases "cat \<ge> 0 \<and> cat < int MAX_USER_TAG")
    case True
    then have n: "nat cat < MAX_USER_TAG" by (simp add: nat_less_iff)
    with True show ?thesis
      using active_counted [OF ok n] len by (simp add: spec_origin_def slot_view_def)
  next
    case False
    then show ?thesis unfolding spec_origin_def valid by auto
  qed
  then show ?thesis by (simp add: logPrint_def t log_view_def)
qed

interpretation log_object: specified_object tags_ok log_view log_allowed log_call spec_log
proof
  fix l x assume ok: "tags_ok l" and x: "log_allowed x"
  show "\<exists>r l'. log_call x l = Some (r, l') \<and> tags_ok l' \<and> spec_log x (log_view l) = (r, log_view l')"
  proof (cases x)
    case (Register ob s)
    with register_law [OF ok] x show ?thesis by simp
  next
    case (Unregister ob)
    with unregister_law [OF ok] x show ?thesis by simp
  next
    case (SetLevel n)
    then show ?thesis using ok
      by (auto simp: Logger_get_level_def Logger_set_level_def log_view_def tags_ok_def)
  next
    case (Print clock pid tid cat level msg)
    with print_law [OF ok] x ok show ?thesis by (metis log_allowed.simps(4))
  qed
qed

section \<open>Property\<close>

text \<open>
  C36 (refinement): for every sequence of tag registrations and removals, level changes and messages on
  an initialised logger in which no tag has exactly 64 characters, no tag is removed for owner -1, the mark of
  an unused slot, and the clock is read without overflow, no array is overrun, and each call returns, or writes, what the specification
  does: the lowest free slot is taken, the first slot of an owner is emptied, a message appears when
  its level is at most the one set, under the tag of its category's slot or else under its thread.
\<close>

theorem logger_refines:
  assumes "tags_ok l" and "list_all log_allowed xs"
  shows "\<exists>rs l'. run_object log_call xs l = Some (rs, l') \<and> tags_ok l' \<and>
    run_spec spec_log xs (log_view l) = (rs, log_view l')"
  using assms by (rule log_object.run_refines)

theorem logger_refines_witness:
  "\<exists>rs l'. run_object log_call [Register 7 ''cam'', Register 8 ''mic'', Unregister 7, Register 9 ''net'',
       SetLevel 9, Print None 1 2 0 6 ''up''] (Logger_init logger_static) = Some (rs, l') \<and>
     take 5 rs = [Code 0, Code 1, Code 0, Code 0, Code 6] \<and>
     rs ! 5 = Printed [\<lparr>stream_of = Stderr, stamp = 0, origin_of = Tagged ''net'', message = ''up''\<rparr>]"
proof -
  let ?xs = "[Register 7 ''cam'', Register 8 ''mic'', Unregister 7, Register 9 ''net'', SetLevel 9,
    Print None 1 2 0 6 ''up'']"
  have t: "getCurrentTimeMillis None = Some 0" by (rule log_clock.reading_failed)
  then have "list_all log_allowed ?xs" by (simp add: MAX_TAG_LENGTH_def)
  from logger_refines [OF init_tags_ok this] obtain rs l' where
    r: "run_object log_call ?xs (Logger_init logger_static) = Some (rs, l')"
      "run_spec spec_log ?xs (log_view (Logger_init logger_static)) = (rs, log_view l')" by blast
  have "log_view (Logger_init logger_static) = \<lparr>alevel = 2, aslots = replicate 8 None, astream = Stderr\<rparr>"
    by (simp add: log_view_def Logger_init_def logger_static_def slot_view_def no_tag_def MAX_USER_TAG_def)
  with r(2) t have "take 5 rs = [Code 0, Code 1, Code 0, Code 0, Code 6] \<and>
     rs ! 5 = Printed [\<lparr>stream_of = Stderr, stamp = 0, origin_of = Tagged ''net'', message = ''up''\<rparr>]"
    by (auto simp: free_slot_def slot_of_def numeral_eq_Suc stored_def MAX_TAG_LENGTH_def spec_origin_def)
  with r(1) show ?thesis by blast
qed

end
