(* ===== verification/Logger_Conc.thy ===== *)
theory Logger_Conc
  imports Logger_Object
begin

text \<open>
  The table of user tags shared by threads: \<open>Logger_set_userTag\<close> changes it field by field under the
  mutex, \<open>logPrint\<close> reads it without. Each access to the table is one step, the copy of a tag one
  step per character; messages are those the level lets pass.
\<close>

section \<open>Threads\<close>

text \<open>
  A thread is outside; at the search, the owner, the tag with \<open>k\<close> characters copied, or the count of
  a registration; at those of a removal; or in \<open>logPrint\<close> with category \<open>i\<close>, at the test of the
  count, at the test of \<open>active\<close>, at the output of the tag. There \<open>g\<close> is a ghost: the tag the
  category stood for when the call began.
\<close>

datatype lpc =
    LIdle
  | RegSearch "64 word" string | RegObject nat "64 word" string | RegTag nat string nat | RegCount nat string
  | DelSearch "64 word" | DelObject nat | DelTag nat | DelCount nat
  | PrintCount nat string | PrintActive nat string | PrintTag nat string

definition upd_slot :: "nat \<Rightarrow> (UserTag \<Rightarrow> UserTag) \<Rightarrow> Logger \<Rightarrow> Logger" where
  "upd_slot i f l = l\<lparr>g_userTag := (g_userTag l)[i := f (g_userTag l ! i)]\<rparr>"

definition add_count :: "int \<Rightarrow> Logger \<Rightarrow> Logger" where
  "add_count n l = l\<lparr>g_activeUserTag := g_activeUserTag l + n\<rparr>"

text \<open>One access by the thread that holds the mutex; at \<open>LIdle\<close> it has unlocked.\<close>

fun locked_step :: "lpc \<Rightarrow> Logger \<Rightarrow> lpc \<times> Logger" where
  "locked_step (RegSearch ob s) l =
     (case first_slot (\<lambda>t. active t = False) 0 (g_userTag l) of
        None \<Rightarrow> (LIdle, l) | Some i \<Rightarrow> (RegObject i ob s, upd_slot i (\<lambda>t. t\<lparr>active := True\<rparr>) l))"
| "locked_step (RegObject i ob s) l = (RegTag i s 0, upd_slot i (\<lambda>t. t\<lparr>object := ob\<rparr>) l)"
| "locked_step (RegTag i s k) l =
     (if k < length (stored s)
      then (RegTag i s (Suc k), upd_slot i (\<lambda>t. t\<lparr>tag := take (Suc k) (stored s)\<rparr>) l)
      else (RegCount i s, l))"
| "locked_step (RegCount i s) l = (LIdle, add_count 1 l)"
| "locked_step (DelSearch ob) l =
     (case first_slot (\<lambda>t. object t = ob) 0 (g_userTag l) of
        None \<Rightarrow> (LIdle, l) | Some i \<Rightarrow> (DelObject i, upd_slot i (\<lambda>t. t\<lparr>active := False\<rparr>) l))"
| "locked_step (DelObject i) l = (DelTag i, upd_slot i (\<lambda>t. t\<lparr>object := - 1\<rparr>) l)"
| "locked_step (DelTag i) l = (DelCount i, upd_slot i (\<lambda>t. t\<lparr>tag := []\<rparr>) l)"
| "locked_step (DelCount i) l = (LIdle, add_count (- 1) l)"
| "locked_step pc l = (pc, l)"

fun has_lock :: "lpc \<Rightarrow> bool" where
  "has_lock LIdle = False" | "has_lock (PrintCount i g) = False" | "has_lock (PrintActive i g) = False"
| "has_lock (PrintTag i g) = False" | "has_lock _ = True"

text \<open>One access by \<open>logPrint\<close>: the next counter and what is written in front of the message, if it is.\<close>

fun print_step :: "lpc \<Rightarrow> Logger \<Rightarrow> (lpc \<times> (string \<times> string option) list) option" where
  "print_step (PrintCount i g) l =
     Some (if g_activeUserTag l \<noteq> 0 \<and> i < MAX_USER_TAG then (PrintActive i g, []) else (LIdle, [(g, None)]))"
| "print_step (PrintActive i g) l =
     Some (if active (g_userTag l ! i) then (PrintTag i g, []) else (LIdle, [(g, None)]))"
| "print_step (PrintTag i g) l = Some (LIdle, [(g, Some (tag (g_userTag l ! i)))])"
| "print_step pc l = None"

text \<open>
  Ghosts: \<open>published\<close> is the tag a category stands for, from the end of its registration to the
  beginning of its removal; \<open>goal\<close> the table after the calls so far, made one at a time;
  \<open>printed\<close> pairs the tag meant and the one written, \<open>None\<close> for process and thread.
\<close>

record lsys =
  tbl :: Logger
  holder :: "nat option"
  lpcs :: "nat \<Rightarrow> lpc"
  published :: "nat \<Rightarrow> string option"
  goal :: Logger
  printed :: "(string \<times> string option) list"

fun publish :: "lpc \<Rightarrow> Logger \<Rightarrow> (nat \<Rightarrow> string option) \<Rightarrow> nat \<Rightarrow> string option" where
  "publish (RegCount i s) l m = m(i \<mapsto> stored s)"
| "publish (DelSearch ob) l m =
     (case first_slot (\<lambda>t. object t = ob) 0 (g_userTag l) of None \<Rightarrow> m | Some i \<Rightarrow> m(i := None))"
| "publish pc l m = m"

definition atomic_set :: "64 word \<Rightarrow> string option \<Rightarrow> Logger \<Rightarrow> Logger" where
  "atomic_set ob u l = snd (the (Logger_set_userTag ob u l))"

inductive lstep :: "bool \<Rightarrow> lsys \<Rightarrow> lsys \<Rightarrow> bool" for removals where
  lock_register: "holder s = None \<Longrightarrow> lpcs s j = LIdle \<Longrightarrow> length g \<noteq> MAX_TAG_LENGTH \<Longrightarrow>
    lstep removals s (s\<lparr>holder := Some j, lpcs := (lpcs s)(j := RegSearch ob g), goal := atomic_set ob (Some g) (tbl s)\<rparr>)"
| lock_remove: "removals \<Longrightarrow> holder s = None \<Longrightarrow> lpcs s j = LIdle \<Longrightarrow> ob \<noteq> - 1 \<Longrightarrow>
    lstep removals s (s\<lparr>holder := Some j, lpcs := (lpcs s)(j := DelSearch ob), goal := atomic_set ob None (tbl s)\<rparr>)"
| locked: "holder s = Some j \<Longrightarrow> locked_step (lpcs s j) (tbl s) = (pc, l) \<Longrightarrow>
    lstep removals s (s\<lparr>tbl := l, lpcs := (lpcs s)(j := pc), holder := (if pc = LIdle then None else Some j),
      published := publish (lpcs s j) (tbl s) (published s)\<rparr>)"
| print_call: "lpcs s j = LIdle \<Longrightarrow> published s i = Some g \<Longrightarrow>
    lstep removals s (s\<lparr>lpcs := (lpcs s)(j := PrintCount i g)\<rparr>)"
| printing: "print_step (lpcs s j) (tbl s) = Some (pc, out) \<Longrightarrow>
    lstep removals s (s\<lparr>lpcs := (lpcs s)(j := pc), printed := printed s @ out\<rparr>)"

definition linit :: "lsys \<Rightarrow> bool" where
  "linit s \<longleftrightarrow> s = \<lparr>tbl = Logger_init logger_static, holder = None, lpcs = (\<lambda>_. LIdle), published = Map.empty,
     goal = Logger_init logger_static, printed = []\<rparr>"

section \<open>The calls are atomic\<close>

text \<open>What the rest of a call makes of the table.\<close>

fun finish :: "lpc \<Rightarrow> Logger \<Rightarrow> Logger" where
  "finish (RegSearch ob s) l = atomic_set ob (Some s) l"
| "finish (RegObject i ob s) l = add_count 1 (upd_slot i (\<lambda>t. t\<lparr>object := ob, tag := stored s\<rparr>) l)"
| "finish (RegTag i s k) l = add_count 1 (upd_slot i (\<lambda>t. t\<lparr>tag := stored s\<rparr>) l)"
| "finish (RegCount i s) l = add_count 1 l"
| "finish (DelSearch ob) l = atomic_set ob None l"
| "finish (DelObject i) l = add_count (- 1) (upd_slot i (\<lambda>t. t\<lparr>object := - 1, tag := []\<rparr>) l)"
| "finish (DelTag i) l = add_count (- 1) (upd_slot i (\<lambda>t. t\<lparr>tag := []\<rparr>) l)"
| "finish (DelCount i) l = add_count (- 1) l"
| "finish pc l = l"

fun halfway :: "lpc \<Rightarrow> Logger \<Rightarrow> bool" where
  "halfway (RegSearch ob s) l \<longleftrightarrow> tags_ok l \<and> length s \<noteq> MAX_TAG_LENGTH"
| "halfway (DelSearch ob) l \<longleftrightarrow> tags_ok l \<and> ob \<noteq> - 1"
| "halfway (RegObject i ob s) l \<longleftrightarrow> i < length (g_userTag l) \<and> tag (g_userTag l ! i) = []"
| "halfway (RegTag i s k) l \<longleftrightarrow> i < length (g_userTag l) \<and> k \<le> length (stored s) \<and>
     (k < length (stored s) \<or> tag (g_userTag l ! i) = stored s)"
| "halfway (RegCount i s) l \<longleftrightarrow> i < length (g_userTag l) \<and> tag (g_userTag l ! i) = stored s"
| "halfway (DelObject i) l \<longleftrightarrow> i < length (g_userTag l)"
| "halfway (DelTag i) l \<longleftrightarrow> i < length (g_userTag l)"
| "halfway _ l \<longleftrightarrow> True"

lemma upd_slot_simps [simp]:
  "g_userTag (upd_slot i f l) = (g_userTag l)[i := f (g_userTag l ! i)]"
  "g_activeUserTag (upd_slot i f l) = g_activeUserTag l"
  "g_userTag (add_count n l) = g_userTag l"
  "g_activeUserTag (add_count n l) = g_activeUserTag l + n"
  by (simp_all add: upd_slot_def add_count_def)

lemma upd_slot_twice [simp]:
  "i < length (g_userTag l) \<Longrightarrow> upd_slot i f (upd_slot i h l) = upd_slot i (\<lambda>t. f (h t)) l"
  by (simp add: upd_slot_def)

lemma upd_slot_same: "i < length (g_userTag l) \<Longrightarrow> f (g_userTag l ! i) = g_userTag l ! i \<Longrightarrow> upd_slot i f l = l"
  by (simp add: upd_slot_def)

lemma register_at:
  assumes ok: "tags_ok l" and len: "length s \<noteq> MAX_TAG_LENGTH"
    and i: "first_slot (\<lambda>t. active t = False) 0 (g_userTag l) = Some i"
  shows "atomic_set ob (Some s) l = add_count 1 (upd_slot i (\<lambda>t. \<lparr>object = ob, tag = stored s, active = True\<rparr>) l)"
    and "i < length (g_userTag l)" "g_userTag l ! i = no_tag"
proof -
  have k: "i < length (g_userTag l)" "\<not> active (g_userTag l ! i)" using first_slot_Some [OF i] by auto
  then show "i < length (g_userTag l)" "g_userTag l ! i = no_tag" using tags_okD(2) [OF ok] by auto
  from k have "\<not> (\<forall>t\<in>set (g_userTag l). active t)" by auto
  with register_tag [OF ok len, of ob] obtain j l' where
    l': "Logger_set_userTag ob (Some s) l = Some (int j, l')"
      "l' = l\<lparr>g_userTag := (g_userTag l)[j := \<lparr>object = ob, tag = stored s, active = True\<rparr>],
        g_activeUserTag := g_activeUserTag l + 1\<rparr>" by blast
  have "j = i" using l'(1) i by (auto simp: Logger_set_userTag_def bind_eq_Some_conv)
  with l' show "atomic_set ob (Some s) l =
      add_count 1 (upd_slot i (\<lambda>t. \<lparr>object = ob, tag = stored s, active = True\<rparr>) l)"
    by (simp add: atomic_set_def add_count_def upd_slot_def)
qed

lemma register_full:
  "first_slot (\<lambda>t. active t = False) 0 (g_userTag l) = None \<Longrightarrow> atomic_set ob (Some s) l = l"
  by (simp add: atomic_set_def Logger_set_userTag_def)

lemma remove_at:
  "first_slot (\<lambda>t. object t = ob) 0 (g_userTag l) = Some i \<Longrightarrow>
   atomic_set ob None l = add_count (- 1) (upd_slot i (\<lambda>t. no_tag) l)"
  by (simp add: atomic_set_def Logger_set_userTag_def add_count_def upd_slot_def)

lemma remove_absent:
  "first_slot (\<lambda>t. object t = ob) 0 (g_userTag l) = None \<Longrightarrow> atomic_set ob None l = l"
  by (simp add: atomic_set_def Logger_set_userTag_def)

lemma locked_finish:
  assumes half: "halfway pc l" and step: "locked_step pc l = (pc', l')"
  shows "finish pc' l' = finish pc l \<and> halfway pc' l'"
proof (cases pc)
  case (RegSearch ob s)
  show ?thesis
  proof (cases "first_slot (\<lambda>t. active t = False) 0 (g_userTag l)")
    case None
    with RegSearch step register_full [OF None] show ?thesis by auto
  next
    case (Some i)
    with RegSearch half register_at [OF _ _ Some] have
      "atomic_set ob (Some s) l = add_count 1 (upd_slot i (\<lambda>t. \<lparr>object = ob, tag = stored s, active = True\<rparr>) l)"
      "i < length (g_userTag l)" "g_userTag l ! i = no_tag" by auto
    with RegSearch Some step show ?thesis by (auto simp: no_tag_def upd_slot_def)
  qed
next
  case (RegTag i s k)
  show ?thesis
  proof (cases "k < length (stored s)")
    case True
    with RegTag step half show ?thesis by (auto simp: less_Suc_eq_le)
  next
    case False
    with RegTag half have "i < length (g_userTag l)" "tag (g_userTag l ! i) = stored s" by auto
    with upd_slot_same [of i l "\<lambda>t. t\<lparr>tag := stored s\<rparr>"] have "upd_slot i (\<lambda>t. t\<lparr>tag := stored s\<rparr>) l = l"
      by (cases "g_userTag l ! i") simp
    with False RegTag step half show ?thesis by auto
  qed
next
  case (DelSearch ob)
  show ?thesis
  proof (cases "first_slot (\<lambda>t. object t = ob) 0 (g_userTag l)")
    case None
    with DelSearch step remove_absent [OF None] show ?thesis by auto
  next
    case (Some i)
    then have "i < length (g_userTag l)" using first_slot_Some by fastforce
    with DelSearch Some step remove_at [OF Some] show ?thesis
      by (cases "g_userTag l ! i") (auto simp: no_tag_def upd_slot_def)
  qed
qed (use assms in \<open>auto simp: upd_slot_def\<close>)

lemma atomic_set_ok:
  assumes "tags_ok l"
  shows "length s \<noteq> MAX_TAG_LENGTH \<Longrightarrow> \<exists>r. Logger_set_userTag ob (Some s) l = Some (r, atomic_set ob (Some s) l) \<and>
      tags_ok (atomic_set ob (Some s) l)"
    and "ob \<noteq> - 1 \<Longrightarrow> \<exists>r. Logger_set_userTag ob None l = Some (r, atomic_set ob None l) \<and>
      tags_ok (atomic_set ob None l)"
  using register_law [OF assms, of s ob] unregister_law [OF assms, of ob] by (auto simp: atomic_set_def)

definition lock_inv :: "lsys \<Rightarrow> bool" where
  "lock_inv s \<longleftrightarrow> tags_ok (goal s) \<and> (\<forall>j. has_lock (lpcs s j) \<longleftrightarrow> holder s = Some j) \<and>
     (holder s = None \<longrightarrow> tbl s = goal s) \<and>
     (\<forall>j. holder s = Some j \<longrightarrow> halfway (lpcs s j) (tbl s) \<and> finish (lpcs s j) (tbl s) = goal s)"

lemma locked_lock: "locked_step pc l = (pc', l') \<Longrightarrow> has_lock pc \<Longrightarrow> has_lock pc' \<longleftrightarrow> pc' \<noteq> LIdle"
  by (cases pc) (auto split: option.splits if_splits)

lemma print_lock: "print_step pc l = Some (pc', out) \<Longrightarrow> \<not> has_lock pc \<and> \<not> has_lock pc'"
  by (cases pc) (auto split: if_splits)

lemma lock_inv_step:
  assumes inv: "lock_inv s" and step: "lstep removals s t"
  shows "lock_inv t"
  using step
proof cases
  case (lock_register j g ob)
  then have "tags_ok (tbl s)" "tbl s = goal s" using inv by (auto simp: lock_inv_def)
  with lock_register atomic_set_ok(1) [of "tbl s" g ob] inv show ?thesis by (auto simp: lock_inv_def)
next
  case (lock_remove j ob)
  then have "tags_ok (tbl s)" "tbl s = goal s" using inv by (auto simp: lock_inv_def)
  with lock_remove atomic_set_ok(2) [of "tbl s" ob] inv show ?thesis by (auto simp: lock_inv_def)
next
  case (locked j pc l)
  then have h: "halfway (lpcs s j) (tbl s)" "finish (lpcs s j) (tbl s) = goal s" "has_lock (lpcs s j)"
    using inv by (auto simp: lock_inv_def)
  note f = locked_finish [OF h(1) locked(3)] and k = locked_lock [OF locked(3) h(3)]
  have "l = goal s" if "pc = LIdle" using f h(2) that by simp
  moreover have "\<not> has_lock (lpcs s i)" if "i \<noteq> j" for i using inv locked(2) that by (auto simp: lock_inv_def)
  ultimately show ?thesis using locked f h(2) k inv by (auto simp: lock_inv_def)
next
  case (print_call j i g)
  then have "\<not> has_lock (lpcs s j)" by simp
  then have "holder s \<noteq> Some j" using inv by (simp add: lock_inv_def)
  with print_call inv show ?thesis by (auto simp: lock_inv_def)
next
  case (printing j pc out)
  with print_lock [OF printing(2)] inv show ?thesis by (auto simp: lock_inv_def)
qed

section \<open>Without removals\<close>

text \<open>What a thread's counter says of the slot it works on or prints.\<close>

fun slot_inv :: "(nat \<Rightarrow> string option) \<Rightarrow> Logger \<Rightarrow> lpc \<Rightarrow> bool" where
  "slot_inv m l (RegObject i ob s) \<longleftrightarrow> m i = None \<and> i < MAX_USER_TAG \<and> active (g_userTag l ! i)"
| "slot_inv m l (RegTag i s k) \<longleftrightarrow> m i = None \<and> i < MAX_USER_TAG \<and> active (g_userTag l ! i)"
| "slot_inv m l (RegCount i s) \<longleftrightarrow> m i = None \<and> i < MAX_USER_TAG \<and> active (g_userTag l ! i)"
| "slot_inv m l (PrintCount i g) \<longleftrightarrow> m i = Some g"
| "slot_inv m l (PrintActive i g) \<longleftrightarrow> m i = Some g"
| "slot_inv m l (PrintTag i g) \<longleftrightarrow> m i = Some g"
| "slot_inv m l LIdle \<longleftrightarrow> True"
| "slot_inv m l (RegSearch ob s) \<longleftrightarrow> True"
| "slot_inv m l _ \<longleftrightarrow> False"

definition shown :: "(nat \<Rightarrow> string option) \<Rightarrow> Logger \<Rightarrow> bool" where
  "shown m l \<longleftrightarrow> length (g_userTag l) = MAX_USER_TAG \<and> 0 \<le> g_activeUserTag l \<and>
     (\<forall>i g. m i = Some g \<longrightarrow> i < MAX_USER_TAG \<and> active (g_userTag l ! i) \<and> tag (g_userTag l ! i) = g \<and>
       0 < g_activeUserTag l)"

definition print_inv :: "lsys \<Rightarrow> bool" where
  "print_inv s \<longleftrightarrow> shown (published s) (tbl s) \<and> (\<forall>j. slot_inv (published s) (tbl s) (lpcs s j)) \<and>
     (\<forall>(g, r)\<in>set (printed s). r = Some g)"

text \<open>A thread without the mutex does not see the steps of the one that has it.\<close>

lemma slot_inv_other:
  assumes "slot_inv m l pc" and "\<not> has_lock pc" and "\<And>i g. m i = Some g \<Longrightarrow> m' i = Some g"
  shows "slot_inv m' l' pc"
  using assms by (cases pc) auto

lemma locked_shown:
  assumes sh: "shown m l" and sl: "slot_inv m l pc" and half: "halfway pc l" and lock: "has_lock pc"
    and step: "locked_step pc l = (pc', l')"
  shows "shown (publish pc l m) l' \<and> slot_inv (publish pc l m) l' pc' \<and>
    (\<forall>i g. m i = Some g \<longrightarrow> publish pc l m i = Some g)"
proof -
  have len: "length (g_userTag l) = MAX_USER_TAG" using sh by (simp add: shown_def)
  have slot: "shown m (upd_slot i f l)" if "m i = None" for i f
  proof -
    have "(g_userTag l)[i := f (g_userTag l ! i)] ! k = g_userTag l ! k" if "m k = Some g" for k g
      using that \<open>m i = None\<close> by (cases "k = i") auto
    with sh show ?thesis by (auto simp: shown_def)
  qed
  show ?thesis
  proof (cases pc)
    case (RegSearch ob s)
    show ?thesis
    proof (cases "first_slot (\<lambda>t. active t = False) 0 (g_userTag l)")
      case None
      with RegSearch step sh show ?thesis by auto
    next
      case (Some i)
      then have i: "i < MAX_USER_TAG" "\<not> active (g_userTag l ! i)" using first_slot_Some [OF Some] len by auto
      then have "m i = None" using sh by (cases "m i") (auto simp: shown_def)
      with i len slot RegSearch Some step show ?thesis by auto
    qed
  next
    case (RegObject i ob s)
    with sl slot len step show ?thesis by auto
  next
    case (RegTag i s k)
    with sl slot len sh step show ?thesis by (auto split: if_splits)
  next
    case (RegCount i s)
    with sl half sh step show ?thesis by (auto simp: shown_def)
  qed (use sl lock in auto)
qed

lemma print_shown:
  assumes sh: "shown m l" and sl: "slot_inv m l pc" and step: "print_step pc l = Some (pc', out)"
  shows "slot_inv m l pc' \<and> (\<forall>(g, r)\<in>set out. r = Some g)"
  using sl step sh by (cases pc) (auto simp: shown_def split: if_splits)

lemma print_inv_step:
  assumes inv: "lock_inv s" "print_inv s" and step: "lstep False s t"
  shows "print_inv t"
  using step
proof cases
  case (locked j pc l)
  have h: "halfway (lpcs s j) (tbl s)" "has_lock (lpcs s j)" using inv(1) locked(2) by (auto simp: lock_inv_def)
  have other: "\<not> has_lock (lpcs s i)" if "i \<noteq> j" for i using inv(1) locked(2) that by (auto simp: lock_inv_def)
  have p: "shown (published s) (tbl s)" "\<And>i. slot_inv (published s) (tbl s) (lpcs s i)"
    using inv(2) by (auto simp: print_inv_def)
  note k = locked_shown [OF p(1) p(2) h locked(3)]
  have "slot_inv (published t) (tbl t) (lpcs t i)" for i
    using k locked(1) slot_inv_other [OF p(2) other, of i "published t" "tbl t"] by (cases "i = j") auto
  then show ?thesis using k locked(1) inv(2) by (auto simp: print_inv_def)
next
  case (printing j pc out)
  have p: "shown (published s) (tbl s)" "slot_inv (published s) (tbl s) (lpcs s j)"
    using inv(2) by (auto simp: print_inv_def)
  with print_shown [OF p printing(2)] printing inv(2) show ?thesis by (auto simp: print_inv_def)
qed (use inv in \<open>auto simp: print_inv_def\<close>)

definition table_inv :: "bool \<Rightarrow> lsys \<Rightarrow> bool" where
  "table_inv removals s \<longleftrightarrow> lock_inv s \<and> (\<not> removals \<longrightarrow> print_inv s)"

definition ltable_init :: "Logger \<Rightarrow> bool" where "ltable_init l \<longleftrightarrow> l = Logger_init logger_static"

inductive ltable_step :: "Logger \<Rightarrow> Logger \<Rightarrow> bool" where
  "Logger_set_userTag ob u l = Some (r, l') \<Longrightarrow> ltable_step l l'"

interpretation table: simulation linit "lstep removals" "table_inv removals" ltable_init ltable_step goal
  for removals
proof
  show "table_inv removals s" if "linit s" for s
    using that init_tags_ok
    by (simp add: linit_def table_inv_def lock_inv_def print_inv_def shown_def Logger_init_def logger_static_def)
  show "table_inv removals t" if "table_inv removals s" "lstep removals s t" for s t
    using that lock_inv_step print_inv_step by (cases removals) (auto simp: table_inv_def)
  show "ltable_init (goal s)" if "linit s" for s using that by (simp add: linit_def ltable_init_def)
  show "goal t = goal s \<or> ltable_step (goal s) (goal t)" if inv: "table_inv removals s" and "lstep removals s t" for s t
    using that(2)
  proof cases
    case (lock_register j g ob)
    then have "tags_ok (tbl s)" "tbl s = goal s" using inv by (auto simp: table_inv_def lock_inv_def)
    with atomic_set_ok(1) [of "tbl s" g ob] lock_register show ?thesis by (auto intro: ltable_step.intros)
  next
    case (lock_remove j ob)
    then have "tags_ok (tbl s)" "tbl s = goal s" using inv by (auto simp: table_inv_def lock_inv_def)
    with atomic_set_ok(2) [of "tbl s" ob] lock_remove show ?thesis by (auto intro: ltable_step.intros)
  qed simp_all
qed

section \<open>Property\<close>


text \<open>Runs are executed from a list of actions.\<close>

datatype laction = Lock nat "64 word" "string option" | Access nat | Call nat nat

fun lact :: "laction \<Rightarrow> lsys \<Rightarrow> lsys option" where
  "lact (Lock j ob u) s =
     (if holder s = None \<and> lpcs s j = LIdle then
        (case u of
           Some g \<Rightarrow> if length g \<noteq> MAX_TAG_LENGTH
             then Some (s\<lparr>holder := Some j, lpcs := (lpcs s)(j := RegSearch ob g), goal := atomic_set ob (Some g) (tbl s)\<rparr>)
             else None
         | None \<Rightarrow> if ob \<noteq> - 1
             then Some (s\<lparr>holder := Some j, lpcs := (lpcs s)(j := DelSearch ob), goal := atomic_set ob None (tbl s)\<rparr>)
             else None)
      else None)"
| "lact (Access j) s =
     (if holder s = Some j then
        let (pc, l) = locked_step (lpcs s j) (tbl s)
        in Some (s\<lparr>tbl := l, lpcs := (lpcs s)(j := pc), holder := (if pc = LIdle then None else Some j),
             published := publish (lpcs s j) (tbl s) (published s)\<rparr>)
      else map_option (\<lambda>(pc, out). s\<lparr>lpcs := (lpcs s)(j := pc), printed := printed s @ out\<rparr>)
        (print_step (lpcs s j) (tbl s)))"
| "lact (Call j i) s =
     (if lpcs s j = LIdle then map_option (\<lambda>g. s\<lparr>lpcs := (lpcs s)(j := PrintCount i g)\<rparr>) (published s i) else None)"

fun removing :: "laction \<Rightarrow> bool" where
  "removing (Lock j ob u) \<longleftrightarrow> u = None" | "removing _ \<longleftrightarrow> False"

lemma lact_step:
  assumes "lact a s = Some t" and "removing a \<longrightarrow> removals"
  shows "lstep removals s t"
proof (cases a)
  case (Lock j ob u)
  with assms show ?thesis by (auto split: if_splits option.splits intro: lock_register lock_remove)
next
  case (Access j)
  show ?thesis
  proof (cases "holder s = Some j")
    case True
    obtain pc l where "locked_step (lpcs s j) (tbl s) = (pc, l)" by fastforce
    from locked [OF True this] this Access True assms(1) show ?thesis by simp
  next
    case False
    with Access assms(1) show ?thesis by (auto intro: printing)
  qed
next
  case (Call j i)
  with assms(1) show ?thesis by (auto split: if_splits intro: print_call)
qed

definition lstart :: lsys where
  "lstart = \<lparr>tbl = Logger_init logger_static, holder = None, lpcs = (\<lambda>_. LIdle), published = Map.empty,
     goal = Logger_init logger_static, printed = []\<rparr>"

lemma lact_reach:
  assumes "perform lact as lstart = Some s" and "list_all (\<lambda>a. removing a \<longrightarrow> removals) as"
  shows "reach linit (lstep removals) s"
proof (rule perform_reach [OF _ assms(1)])
  show "reach linit (lstep removals) lstart" by (rule reach_init) (simp add: linit_def lstart_def)
  show "lstep removals u v" if "a \<in> set as" "lact a u = Some v" for a u v
    using lact_step [OF that(2)] assms(2) that(1) by (auto simp: list_all_iff)
qed

lemma start_table:
  "Logger_init logger_static = \<lparr>g_activeLevel = 2, g_fd = Stderr, g_fileName = [],
     g_userTag = [no_tag, no_tag, no_tag, no_tag, no_tag, no_tag, no_tag, no_tag],
     g_activeUserTag = 0, g_init = 1, closed = []\<rparr>"
  by (simp add: Logger_init_def logger_static_def MAX_USER_TAG_def numeral_eq_Suc)

lemmas lact_eval = lstart_def start_table no_tag_def upd_slot_def add_count_def stored_def Let_def
  MAX_USER_TAG_def MAX_TAG_LENGTH_def

definition quiet_run :: "laction list" where
  "quiet_run = [Lock 0 7 (Some ''ab''), Access 0, Access 0, Access 0, Access 0, Access 0, Access 0,
     Call 2 0, Access 2, Access 2, Access 2]"

lemma quiet_value:
  "\<exists>s. perform lact quiet_run lstart = Some s \<and> holder s = None \<and> printed s = [(''ab'', Some ''ab'')]"
  by (simp add: quiet_run_def lact_eval)


text \<open>
  With removals it is not so: a thread that has tested its slot can find it taken over by another
  owner, and writes the other's tag; and between the two steps of a registration that set the flag
  and copy the tag, it writes a part of the tag.
\<close>

definition one_tag :: "UserTag \<Rightarrow> int \<Rightarrow> Logger" where
  "one_tag t n = \<lparr>g_activeLevel = 2, g_fd = Stderr, g_fileName = [],
     g_userTag = [t, no_tag, no_tag, no_tag, no_tag, no_tag, no_tag, no_tag],
     g_activeUserTag = n, g_init = 1, closed = []\<rparr>"

definition race_begin :: "laction list" where
  "race_begin = [Lock 0 7 (Some ''ab''), Access 0, Access 0, Access 0, Access 0, Access 0, Access 0,
     Call 2 0, Access 2, Access 2]"

definition race_middle :: "laction list" where
  "race_middle = [Lock 0 7 None, Access 0, Access 0, Access 0, Access 0]"

definition race_last :: "laction list" where
  "race_last = [Lock 0 8 (Some ''xy''), Access 0, Access 0, Access 0, Access 2, Access 0, Access 0, Access 0]"

lemma race_pieces1:
  "\<exists>s. perform lact race_begin lstart = Some s \<and> holder s = None \<and> lpcs s 0 = LIdle \<and>
     lpcs s 2 = PrintTag 0 ''ab'' \<and> tbl s = one_tag \<lparr>object = 7, tag = ''ab'', active = True\<rparr> 1 \<and> printed s = []"
  by (simp add: race_begin_def one_tag_def lact_eval)

lemma race_pieces2:
  assumes "holder s = None" "lpcs s 0 = LIdle" "lpcs s 2 = PrintTag 0 ''ab''"
    "tbl s = one_tag \<lparr>object = 7, tag = ''ab'', active = True\<rparr> 1" "printed s = []"
  shows "\<exists>t. perform lact race_middle s = Some t \<and> holder t = None \<and> lpcs t 0 = LIdle \<and>
     lpcs t 2 = PrintTag 0 ''ab'' \<and> tbl t = one_tag no_tag 0 \<and> printed t = []"
  by (simp add: assms race_middle_def one_tag_def lact_eval)

lemma race_pieces3:
  assumes "holder s = None" "lpcs s 0 = LIdle" "lpcs s 2 = PrintTag 0 ''ab''" "tbl s = one_tag no_tag 0" "printed s = []"
  shows "\<exists>t. perform lact race_last s = Some t \<and> holder t = None \<and> printed t = [(''ab'', Some ''x'')]"
  by (simp add: assms race_last_def one_tag_def lact_eval)

lemma race_value:
  "\<exists>s. perform lact (race_begin @ race_middle @ race_last) lstart = Some s \<and> holder s = None \<and>
     printed s = [(''ab'', Some ''x'')]"
proof -
  obtain s where s: "perform lact race_begin lstart = Some s" "holder s = None" "lpcs s 0 = LIdle"
    "lpcs s 2 = PrintTag 0 ''ab''" "tbl s = one_tag \<lparr>object = 7, tag = ''ab'', active = True\<rparr> 1" "printed s = []"
    using race_pieces1 by blast
  from race_pieces2 [OF s(2-6)] obtain t where t: "perform lact race_middle s = Some t" "holder t = None"
    "lpcs t 0 = LIdle" "lpcs t 2 = PrintTag 0 ''ab''" "tbl t = one_tag no_tag 0" "printed t = []" by blast
  from race_pieces3 [OF t(2-6)] show ?thesis
    by (simp add: perform_append s(1) t(1) del: lact.simps)
qed

theorem removal_races:
  "\<exists>s. reach linit (lstep True) s \<and> holder s = None \<and> printed s = [(''ab'', Some ''x'')]"
proof -
  obtain s where s: "perform lact (race_begin @ race_middle @ race_last) lstart = Some s" "holder s = None" "printed s = [(''ab'', Some ''x'')]"
    using race_value by blast
  have "list_all (\<lambda>a. removing a \<longrightarrow> True) (race_begin @ race_middle @ race_last)" by (simp add: list_all_iff)
  note r = lact_reach [OF s(1) this]
  show ?thesis by (rule exI [of _ s]) (intro conjI r s(2,3))
qed

end
