(* ===== verification/Logger_File.thy ===== *)
theory Logger_File
  imports Logger
begin

text \<open>
  The log file switched by \<open>Logger_set_file\<close> while other threads print: neither function takes the
  mutex. Each load and store of \<open>g_fd\<close>, each access to \<open>g_fileName\<close> and each call on a stream is one
  step, so a stream may be closed between the load of \<open>g_fd\<close> and the call that uses it; a call on a
  stream that is closed is undefined: \<open>None\<close>.
\<close>

section \<open>Threads\<close>

record files =
  fd :: stream
  fname :: string
  open_streams :: "stream set"

text \<open>
  A thread is outside; in \<open>Logger_set_file\<close>, at its first test, at the copy of the name, at the test of
  the current stream, at the load of \<open>g_fd\<close> for \<open>fclose\<close>, at \<open>fclose\<close> with the stream it loaded, at
  \<open>g_fd = stderr\<close>, at the clearing of the name, at \<open>fopen\<close>, at the last assignment; or in \<open>logPrint\<close>, at
  one of its four calls on a stream, for the time, the origin, the text and the flush: at the load of
  \<open>g_fd\<close>, or at the call with the stream it loaded. The optional string is the path, \<open>None\<close> a null
  pointer.
\<close>

datatype part = Time | Origin | Text | Flush

datatype fpc =
    FIdle
  | FCheck "string option" | FName string | FTest string | FClose "string option" | FShut "string option" stream
  | FStd "string option" | FClear | FOpen string | FSet nat
  | PLoad part | PUse part stream

definition fclose :: "stream \<Rightarrow> files \<Rightarrow> files option" where
  "fclose st l = (if st \<in> open_streams l then Some (l\<lparr>open_streams := open_streams l - {st}\<rparr>) else None)"

text \<open>\<open>opened\<close> is the stream \<open>fopen\<close> returns if it is called, \<open>None\<close> for a null pointer.\<close>

fun set_step :: "nat option \<Rightarrow> fpc \<Rightarrow> files \<Rightarrow> (fpc \<times> files) option" where
  "set_step opened (FCheck None) l = Some (if fd l \<noteq> Stderr then (FClose None, l) else (FIdle, l))"
| "set_step opened (FCheck (Some p)) l = Some (if fname l = p then (FIdle, l) else (FName p, l))"
| "set_step opened (FName p) l = map_option (\<lambda>s. (FTest p, l\<lparr>fname := s\<rparr>)) (strcpy MAX_FILENAME_LENGTH p)"
| "set_step opened (FTest p) l = Some (if fd l \<noteq> Stderr then (FClose (Some p), l) else (FOpen p, l))"
| "set_step opened (FClose u) l = Some (FShut u (fd l), l)"
| "set_step opened (FShut u st) l = map_option (\<lambda>l'. (FStd u, l')) (fclose st l)"
| "set_step opened (FStd u) l =
     Some (case u of None \<Rightarrow> (FClear, l\<lparr>fd := Stderr\<rparr>) | Some p \<Rightarrow> (FOpen p, l\<lparr>fd := Stderr\<rparr>))"
| "set_step opened FClear l = Some (FIdle, l\<lparr>fname := []\<rparr>)"
| "set_step opened (FOpen p) l =
     Some (case opened of None \<Rightarrow> (FIdle, l)
           | Some f \<Rightarrow> (FSet f, l\<lparr>open_streams := insert (File f) (open_streams l)\<rparr>))"
| "set_step opened (FSet f) l = Some (FIdle, l\<lparr>fd := File f\<rparr>)"
| "set_step opened pc l = None"

fun write_next :: "part \<Rightarrow> fpc" where
  "write_next Time = PLoad Origin" | "write_next Origin = PLoad Text" | "write_next Text = PLoad Flush"
| "write_next Flush = FIdle"

definition printing :: "fpc \<Rightarrow> bool" where
  "printing pc \<longleftrightarrow> (\<exists>p. pc = PLoad p \<or> (\<exists>st. pc = PUse p st))"

definition setting :: "fpc \<Rightarrow> bool" where
  "setting pc \<longleftrightarrow> pc \<noteq> FIdle \<and> \<not> printing pc"

text \<open>A load of \<open>g_fd\<close>, or a call on the stream loaded; the result is what is written where.\<close>

fun write_step :: "fpc \<Rightarrow> files \<Rightarrow> (fpc \<times> (part \<times> stream) list) option" where
  "write_step (PLoad p) l = Some (PUse p (fd l), [])"
| "write_step (PUse p st) l = (if st \<in> open_streams l then Some (write_next p, [(p, st)]) else None)"
| "write_step pc l = None"

section \<open>One call of \<open>Logger_set_file\<close>\<close>

text \<open>Without other threads the steps are those of theory \<open>Logger\<close>; nine are enough for a call.\<close>

fun set_run :: "nat \<Rightarrow> nat option \<Rightarrow> fpc \<Rightarrow> files \<Rightarrow> files option" where
  "set_run n opened FIdle l = Some l"
| "set_run 0 opened pc l = None"
| "set_run (Suc n) opened pc l = Option.bind (set_step opened pc l) (\<lambda>(pc', l'). set_run n opened pc' l')"

definition same_file :: "files \<Rightarrow> Logger \<Rightarrow> bool" where
  "same_file l g \<longleftrightarrow> fd l = g_fd g \<and> fname l = g_fileName g"

lemma set_run_path:
  assumes l: "same_file l g" and ok: "fd l \<in> open_streams l"
  shows "rel_option same_file (set_run 9 opened (FCheck (Some p)) l) (Logger_set_file (Some p) opened g)"
proof (cases "fname l = p \<or> length p \<ge> MAX_FILENAME_LENGTH")
  case True
  with l show ?thesis by (auto simp: same_file_def Logger_set_file_def strcpy_def numeral_eq_Suc)
next
  case False
  with l ok show ?thesis
    by (cases "g_fd g"; cases opened)
      (simp_all add: same_file_def Logger_set_file_def strcpy_def fclose_def close_file_def Let_def numeral_eq_Suc)
qed

lemma set_run_null:
  assumes l: "same_file l g" and ok: "fd l \<in> open_streams l"
  shows "rel_option same_file (set_run 9 opened (FCheck None) l) (Logger_set_file None opened g)"
  using assms
  by (cases "g_fd g") (simp_all add: same_file_def Logger_set_file_def fclose_def close_file_def numeral_eq_Suc)

section \<open>The system\<close>

text \<open>\<open>parts\<close> is what was written: by which thread, which part of a line, on which stream.\<close>

record fsys =
  shared :: files
  fpcs :: "nat \<Rightarrow> fpc"
  parts :: "(nat \<times> part \<times> stream) list"

text \<open>A call begun by a thread, or its next step; \<open>opened\<close> is what \<open>fopen\<close> returns if it is called.\<close>

datatype fact = Set_file nat "string option" | Print nat | Go nat "nat option"

fun fdo :: "fact \<Rightarrow> fsys \<Rightarrow> fsys option" where
  "fdo (Set_file j u) s = (if fpcs s j = FIdle then Some (s\<lparr>fpcs := (fpcs s)(j := FCheck u)\<rparr>) else None)"
| "fdo (Print j) s = (if fpcs s j = FIdle then Some (s\<lparr>fpcs := (fpcs s)(j := PLoad Time)\<rparr>) else None)"
| "fdo (Go j opened) s =
     (if printing (fpcs s j) then
        map_option (\<lambda>(pc, out). s\<lparr>fpcs := (fpcs s)(j := pc), parts := parts s @ map (Pair j) out\<rparr>)
          (write_step (fpcs s j) (shared s))
      else if (case opened of None \<Rightarrow> True | Some f \<Rightarrow> File f \<notin> open_streams (shared s)) then
        map_option (\<lambda>(pc, l). s\<lparr>shared := l, fpcs := (fpcs s)(j := pc)\<rparr>) (set_step opened (fpcs s j) (shared s))
      else None)"

text \<open>With \<open>one\<close>, the callers see to it that one thread at a time is in \<open>Logger_set_file\<close>.\<close>

fun lone :: "fact \<Rightarrow> fsys \<Rightarrow> bool" where
  "lone (Set_file j u) s \<longleftrightarrow> (\<forall>k. \<not> setting (fpcs s k))"
| "lone _ s \<longleftrightarrow> True"

inductive fstep :: "bool \<Rightarrow> fsys \<Rightarrow> fsys \<Rightarrow> bool" for one where
  fstep: "fdo a s = Some t \<Longrightarrow> one \<longrightarrow> lone a s \<Longrightarrow> fstep one s t"

lemma fstep_cases:
  assumes "fstep one s t"
  obtains (call_set) j u where "t = s\<lparr>fpcs := (fpcs s)(j := FCheck u)\<rparr>" "fpcs s j = FIdle"
      "one \<longrightarrow> (\<forall>k. \<not> setting (fpcs s k))"
    | (setting) opened j pc l where "t = s\<lparr>shared := l, fpcs := (fpcs s)(j := pc)\<rparr>"
      "set_step opened (fpcs s j) (shared s) = Some (pc, l)"
    | (call_print) j where "t = s\<lparr>fpcs := (fpcs s)(j := PLoad Time)\<rparr>" "fpcs s j = FIdle"
    | (writing) j pc out where "t = s\<lparr>fpcs := (fpcs s)(j := pc), parts := parts s @ map (Pair j) out\<rparr>"
      "write_step (fpcs s j) (shared s) = Some (pc, out)"
  using assms
proof cases
  case (fstep a)
  show thesis
  proof (cases a)
    case (Set_file j u)
    with fstep show thesis by (intro call_set [of j u]) (auto split: if_splits)
  next
    case (Print j)
    with fstep show thesis by (intro call_print [of j]) (auto split: if_splits)
  next
    case (Go j r)
    show thesis
    proof (cases "printing (fpcs s j)")
      case True
      with fstep(1) Go obtain pc out where "write_step (fpcs s j) (shared s) = Some (pc, out)"
        "t = s\<lparr>fpcs := (fpcs s)(j := pc), parts := parts s @ map (Pair j) out\<rparr>"
        by (auto simp del: write_step.simps)
      then show thesis by (intro writing)
    next
      case False
      with fstep(1) Go obtain pc l where "set_step r (fpcs s j) (shared s) = Some (pc, l)"
        "t = s\<lparr>shared := l, fpcs := (fpcs s)(j := pc)\<rparr>" by (auto simp del: set_step.simps split: if_splits)
      then show thesis by (intro setting)
    qed
  qed
qed

definition fstart :: fsys where
  "fstart = \<lparr>shared = \<lparr>fd = Stderr, fname = [], open_streams = {Stderr}\<rparr>, fpcs = (\<lambda>_. FIdle), parts = []\<rparr>"

definition finit :: "fsys \<Rightarrow> bool" where "finit s \<longleftrightarrow> s = fstart"

section \<open>One setting thread\<close>

text \<open>The stream and the open files, by where the setting thread stands.\<close>

fun stream_ok :: "fpc \<Rightarrow> files \<Rightarrow> bool" where
  "stream_ok (FClose u) l \<longleftrightarrow> fd l \<noteq> Stderr \<and> open_streams l = {Stderr, fd l}"
| "stream_ok (FShut u st) l \<longleftrightarrow> fd l \<noteq> Stderr \<and> open_streams l = {Stderr, fd l} \<and> st = fd l"
| "stream_ok (FStd u) l \<longleftrightarrow> fd l \<noteq> Stderr \<and> open_streams l = {Stderr}"
| "stream_ok FClear l \<longleftrightarrow> fd l = Stderr \<and> open_streams l = {Stderr}"
| "stream_ok (FOpen p) l \<longleftrightarrow> fd l = Stderr \<and> open_streams l = {Stderr}"
| "stream_ok (FSet f) l \<longleftrightarrow> fd l = Stderr \<and> open_streams l = {Stderr, File f}"
| "stream_ok _ l \<longleftrightarrow> open_streams l = {Stderr, fd l}"

definition file_inv :: "fsys \<Rightarrow> bool" where
  "file_inv s \<longleftrightarrow> (\<forall>j k. setting (fpcs s j) \<longrightarrow> setting (fpcs s k) \<longrightarrow> j = k) \<and>
     (\<forall>j. setting (fpcs s j) \<longrightarrow> stream_ok (fpcs s j) (shared s)) \<and>
     ((\<forall>j. \<not> setting (fpcs s j)) \<longrightarrow> stream_ok FIdle (shared s))"

lemma setting_simps [simp]:
  "\<not> setting FIdle" "\<not> setting (PLoad p)" "\<not> setting (PUse p st)"
  "setting (FCheck u)" "setting (FName n)" "setting (FTest n)" "setting (FClose u)" "setting (FShut u st)"
  "setting (FStd u)" "setting FClear" "setting (FOpen n)" "setting (FSet f)"
  by (simp_all add: setting_def printing_def)

lemma write_step_not_setting:
  "write_step pc l = Some (pc', out) \<Longrightarrow> \<not> setting pc \<and> \<not> setting pc'"
proof (cases pc)
  case (PUse p st)
  then show "write_step pc l = Some (pc', out) \<Longrightarrow> ?thesis" by (cases p) (auto split: if_splits)
qed auto

text \<open>The stream moves with the three calls that open, close and assign it; the rest leaves it alone.\<close>

lemma close_ok:
  assumes "set_step opened (FShut u st) l = Some (pc', l')" and "stream_ok (FShut u st) l"
  shows "pc' = FStd u \<and> stream_ok (FStd u) l'"
proof -
  have l': "pc' = FStd u" "fd l' = fd l" "open_streams l' = open_streams l - {st}"
    using assms(1) by (auto simp: fclose_def split: if_splits)
  have o1: "fd l \<noteq> Stderr" "open_streams l = {Stderr, fd l}" "st = fd l" using assms(2) by simp_all
  have "open_streams l' = {Stderr}" unfolding l'(3) o1(2,3) using o1(1) by blast
  with l'(1,2) o1(1) show ?thesis by simp
qed

lemma open_ok:
  assumes "set_step opened (FOpen p) l = Some (pc', l')" and "stream_ok (FOpen p) l"
  shows "(pc' = FIdle \<or> (\<exists>f. pc' = FSet f)) \<and> stream_ok pc' l'"
proof (cases opened)
  case None
  with assms show ?thesis by simp
next
  case (Some f)
  have l': "pc' = FSet f" "fd l' = fd l" "open_streams l' = insert (File f) (open_streams l)"
    using assms(1) Some by auto
  have o1: "fd l = Stderr" "open_streams l = {Stderr}" using assms(2) by simp_all
  have "open_streams l' = {Stderr, File f}" unfolding l'(3) o1(2) by blast
  with l'(1,2) o1(1) show ?thesis by simp
qed

lemma set_step_ok:
  assumes "set_step opened pc l = Some (pc', l')" and "stream_ok pc l"
  shows "setting pc" "\<not> setting pc' \<Longrightarrow> stream_ok FIdle l'" "setting pc' \<Longrightarrow> stream_ok pc' l'"
proof -
  have "setting pc \<and> (pc' = FIdle \<or> setting pc') \<and> stream_ok pc' l'"
  proof (cases pc)
    case (FCheck u)
    with assms have "l' = l \<and> (pc' = FIdle \<or> (\<exists>p. pc' = FName p) \<or> pc' = FClose None \<and> fd l \<noteq> Stderr)"
      by (cases u) (auto split: if_splits)
    with FCheck assms(2) show ?thesis by auto
  next
    case (FName p)
    with assms(1) have "pc' = FTest p \<and> fd l' = fd l \<and> open_streams l' = open_streams l"
      by (auto simp: strcpy_def split: if_splits)
    with FName assms(2) show ?thesis by simp
  next
    case (FTest p)
    with assms(1) have "pc' = (if fd l \<noteq> Stderr then FClose (Some p) else FOpen p) \<and> l' = l"
      by (auto split: if_splits)
    with FTest assms(2) show ?thesis by simp
  next
    case (FClose u)
    with assms show ?thesis by auto
  next
    case (FShut u st)
    with assms close_ok show ?thesis by (metis setting_simps(8,9))
  next
    case (FStd u)
    with assms(1) have "pc' = (case u of None \<Rightarrow> FClear | Some p \<Rightarrow> FOpen p) \<and> fd l' = Stderr \<and>
        open_streams l' = open_streams l"
      by (cases u) auto
    with FStd assms(2) show ?thesis by (cases u) simp_all
  next
    case FClear
    with assms(1) have "pc' = FIdle \<and> fd l' = fd l \<and> open_streams l' = open_streams l" by auto
    with FClear assms(2) show ?thesis by simp
  next
    case (FOpen p)
    with assms open_ok show ?thesis by (metis setting_simps(11,12))
  next
    case (FSet f)
    with assms(1) have "pc' = FIdle \<and> fd l' = File f \<and> open_streams l' = open_streams l" by auto
    with FSet assms(2) show ?thesis by simp
  qed (use assms(1) in simp_all)
  then show "setting pc" "\<not> setting pc' \<Longrightarrow> stream_ok FIdle l'" "setting pc' \<Longrightarrow> stream_ok pc' l'" by auto
qed

lemma set_step_setting: "set_step opened pc l = Some (pc', l') \<Longrightarrow> setting pc"
  by (cases pc) simp_all

lemma file_inv_step:
  assumes inv: "file_inv s" and step: "fstep True s t"
  shows "file_inv t"
proof -
  have one: "\<And>j k. setting (fpcs s j) \<Longrightarrow> setting (fpcs s k) \<Longrightarrow> j = k"
    and busy: "\<And>j. setting (fpcs s j) \<Longrightarrow> stream_ok (fpcs s j) (shared s)"
    and quiet: "(\<And>j. \<not> setting (fpcs s j)) \<Longrightarrow> stream_ok FIdle (shared s)"
    using inv unfolding file_inv_def by blast+
  from step show ?thesis
  proof (cases rule: fstep_cases)
    case (call_set j u)
    then show ?thesis using quiet by (auto simp: file_inv_def)
  next
    case (setting opened j pc l)
    note ok = set_step_ok [OF setting(2) busy [OF set_step_setting [OF setting(2)]]]
    have "\<not> setting (fpcs s k)" if "k \<noteq> j" for k using one ok(1) that by blast
    with setting(1) ok(2,3) show ?thesis by (auto simp: file_inv_def)
  next
    case (call_print j)
    have "setting (fpcs t k) \<longleftrightarrow> setting (fpcs s k)" for k using call_print by simp
    moreover have "fpcs t k = fpcs s k" if "setting (fpcs s k)" for k using call_print that by auto
    ultimately show ?thesis using inv call_print(1) unfolding file_inv_def by auto
  next
    case (writing j pc out)
    from write_step_not_setting [OF writing(2)]
    have "setting (fpcs t k) \<longleftrightarrow> setting (fpcs s k)" "setting (fpcs s k) \<Longrightarrow> fpcs t k = fpcs s k" for k
      using writing(1) by auto
    then show ?thesis using inv writing(1) unfolding file_inv_def by auto
  qed
qed

interpretation one_setter: invariant_system finit "fstep True" file_inv
proof
  show "file_inv s" if "finit s" for s
    using that by (simp add: finit_def fstart_def file_inv_def)
qed (rule file_inv_step)

text \<open>A stream that is open is closed by no step but \<open>fclose\<close>.\<close>

lemma closing_step:
  assumes step: "fstep one s t" and st: "st \<in> open_streams (shared s)" "st \<notin> open_streams (shared t)"
  shows "\<exists>k u. fpcs s k = FShut u st \<and> fpcs t k = FStd u"
  using step
proof (cases rule: fstep_cases)
  case (setting opened j pc l)
  have "\<exists>u. fpcs s j = FShut u st \<and> pc = FStd u"
  proof (cases "fpcs s j")
    case (FShut u st')
    with setting st show ?thesis by (auto simp: fclose_def split: if_splits)
  next
    case (FCheck u)
    with setting st show ?thesis by (cases u) (auto split: if_splits)
  next
    case (FStd u)
    with setting st show ?thesis by (cases u) auto
  next
    case (FOpen p)
    with setting st show ?thesis by (cases opened) auto
  qed (use setting st in \<open>auto simp: strcpy_def split: if_splits\<close>)
  with setting(1) show ?thesis by auto
qed (use st in simp_all)

lemma loaded_closed_iff:
  assumes inv: "file_inv s"
  shows "fd (shared s) \<notin> open_streams (shared s) \<longleftrightarrow> (\<exists>k u. fpcs s k = FStd u)"
proof
  assume closed: "fd (shared s) \<notin> open_streams (shared s)"
  have "\<exists>k. setting (fpcs s k)"
  proof (rule ccontr)
    assume "\<nexists>k. setting (fpcs s k)"
    with inv closed show False by (simp add: file_inv_def)
  qed
  then obtain k where "stream_ok (fpcs s k) (shared s)" "setting (fpcs s k)" using inv unfolding file_inv_def by blast
  with closed have "\<exists>u. fpcs s k = FStd u" by (cases "fpcs s k") simp_all
  then show "\<exists>k u. fpcs s k = FStd u" by blast
next
  assume "\<exists>k u. fpcs s k = FStd u"
  then obtain k u where k: "fpcs s k = FStd u" by blast
  then have "setting (fpcs s k)" by simp
  then have "stream_ok (fpcs s k) (shared s)" using inv unfolding file_inv_def by blast
  with k show "fd (shared s) \<notin> open_streams (shared s)" by simp
qed

text \<open>
  C39 (safety): one thread at a time switches the log file, and any number of threads print meanwhile.
  \<open>Logger_set_file\<close> itself never closes a stream twice and, when no call is under way, no file is open
  but the current one. The stream a print loads from \<open>g_fd\<close> is closed exactly while the setting thread
  stands between \<open>fclose\<close> and \<open>g_fd = stderr\<close>; one that was open when it was loaded is closed later only
  by the \<open>fclose\<close> of a switch, and never if it is \<open>stderr\<close>. So a print that no switch overlaps is made
  on an open stream.
\<close>

theorem file_switch_window:
  assumes "reach finit (fstep True) s"
  shows "(fd (shared s) \<notin> open_streams (shared s) \<longleftrightarrow> (\<exists>k u. fpcs s k = FStd u)) \<and>
    (\<forall>t st. fstep True s t \<longrightarrow> st \<in> open_streams (shared s) \<longrightarrow> st \<notin> open_streams (shared t) \<longrightarrow>
       st \<noteq> Stderr \<and> (\<exists>k u. fpcs s k = FShut u st \<and> fpcs t k = FStd u)) \<and>
    (\<forall>k u st. fpcs s k = FShut u st \<longrightarrow> set_step opened (fpcs s k) (shared s) \<noteq> None) \<and>
    ((\<forall>k. \<not> setting (fpcs s k)) \<longrightarrow> open_streams (shared s) = {Stderr, fd (shared s)})"
proof -
  have inv: "file_inv s" by (rule one_setter.reach_inv [OF assms])
  have shut: "st = fd (shared s) \<and> st \<noteq> Stderr \<and> st \<in> open_streams (shared s)" if "fpcs s k = FShut u st" for k u st
  proof -
    have "setting (fpcs s k)" using that by simp
    then have "stream_ok (fpcs s k) (shared s)" using inv unfolding file_inv_def by blast
    with that show ?thesis by simp
  qed
  then have "set_step opened (fpcs s k) (shared s) \<noteq> None" if "fpcs s k = FShut u st" for k u st
    using that by (simp add: fclose_def)
  moreover have "open_streams (shared s) = {Stderr, fd (shared s)}" if "\<forall>k. \<not> setting (fpcs s k)"
    using inv that by (simp add: file_inv_def)
  moreover have "st \<noteq> Stderr \<and> (\<exists>k u. fpcs s k = FShut u st \<and> fpcs t k = FStd u)"
    if "fstep True s t" "st \<in> open_streams (shared s)" "st \<notin> open_streams (shared t)" for t st
    using closing_step [OF that] shut by blast
  ultimately show ?thesis using loaded_closed_iff [OF inv] by blast
qed

section \<open>What goes wrong\<close>

text \<open>
  Thread 2 opens a file. Then it switches to another one, and thread 3 loads the closed stream before
  \<open>g_fd = stderr\<close>; or thread 3 has loaded the stream before the switch and uses it after the whole
  switch; or it writes half of its line before and half after; or threads 2 and 3 both close the file.
\<close>

definition first_file :: "fact list" where
  "first_file = Set_file 2 (Some ''a'') # replicate 4 (Go 2 (Some 7)) @ [Go 2 None]"

definition in_window :: "fact list" where
  "in_window = Print 3 # Set_file 2 (Some ''b'') # replicate 5 (Go 2 None) @ [Go 3 None]"

definition late_use :: "fact list" where
  "late_use = [Print 3, Go 3 None] @ Set_file 2 None # replicate 5 (Go 2 None)"

definition torn_line :: "fact list" where
  "torn_line = (Print 3 # replicate 4 (Go 3 None)) @ Set_file 2 None # replicate 5 (Go 2 None) @ replicate 4 (Go 3 None)"

definition two_setters :: "fact list" where
  "two_setters = [Set_file 2 None, Set_file 3 None, Go 2 None, Go 3 None, Go 2 None, Go 3 None, Go 2 None]"

definition opened_state :: fsys where
  "opened_state = \<lparr>shared = \<lparr>fd = File 7, fname = ''a'', open_streams = {File 7, Stderr}\<rparr>, fpcs = (\<lambda>_. FIdle),
     parts = []\<rparr>"

lemmas file_eval = fstart_def opened_state_def printing_def strcpy_def MAX_FILENAME_LENGTH_def fclose_def
  numeral_eq_Suc

lemma first_value: "perform fdo first_file fstart = Some opened_state"
  by (simp add: first_file_def file_eval fun_eq_iff)

lemma window_value:
  "\<exists>s. perform fdo in_window opened_state = Some s \<and> fpcs s 2 = FStd (Some ''b'') \<and> fpcs s 3 = PUse Time (File 7) \<and>
     write_step (PUse Time (File 7)) (shared s) = None"
  by (simp add: in_window_def file_eval)

lemma late_value:
  "\<exists>s. perform fdo late_use opened_state = Some s \<and> fpcs s 2 = FIdle \<and> fd (shared s) = Stderr \<and>
     fpcs s 3 = PUse Time (File 7) \<and> write_step (PUse Time (File 7)) (shared s) = None"
  by (simp add: late_use_def file_eval)

lemma torn_value:
  "\<exists>s. perform fdo torn_line opened_state = Some s \<and>
     parts s = [(3, Time, File 7), (3, Origin, File 7), (3, Text, Stderr), (3, Flush, Stderr)]"
  by (simp add: torn_line_def file_eval)

lemma two_value:
  "\<exists>s. perform fdo two_setters opened_state = Some s \<and> fpcs s 3 = FShut None (File 7) \<and>
     set_step None (FShut None (File 7)) (shared s) = None"
  by (simp add: two_setters_def file_eval)

fun is_set :: "fact \<Rightarrow> bool" where
  "is_set (Set_file j u) = True" | "is_set _ = False"

lemma perform_files:
  assumes "reach finit (fstep one) s" and "perform fdo as s = Some t" and "one \<longrightarrow> list_all (\<lambda>a. \<not> is_set a) as"
  shows "reach finit (fstep one) t"
proof (rule perform_reach [OF assms(1,2)])
  fix a u v assume a: "a \<in> set as" "fdo a u = Some v"
  with assms(3) have "one \<longrightarrow> lone a u" by (cases a) (auto simp: list_all_iff)
  with a(2) show "fstep one u v" by (rule fstep)
qed

text \<open>A call of \<open>Logger_set_file\<close> begun while no other is under way, and the steps after it.\<close>

lemma perform_call:
  assumes "reach finit (fstep True) s" and "\<forall>k. \<not> setting (fpcs s k)"
    and "perform fdo (Set_file j u # as) s = Some t" and "list_all (\<lambda>a. \<not> is_set a) as"
  shows "reach finit (fstep True) t"
proof -
  from assms(3) obtain v where v: "fdo (Set_file j u) s = Some v" "perform fdo as v = Some t"
    by (auto simp: bind_eq_Some_conv simp del: fdo.simps)
  have "fstep True s v" by (rule fstep [OF v(1)]) (use assms(2) in simp)
  with assms(1) have "reach finit (fstep True) v" by (rule reach_step)
  from perform_files [OF this v(2)] assms(4) show ?thesis by simp
qed

lemma opened_reached: "reach finit (fstep True) opened_state" "reach finit (fstep False) opened_state"
proof -
  have start: "reach finit (fstep one) fstart" for one by (rule reach_init) (simp add: finit_def)
  show "reach finit (fstep True) opened_state"
    by (rule perform_call [OF start _ first_value [unfolded first_file_def]]) (simp_all add: fstart_def list_all_iff)
  show "reach finit (fstep False) opened_state" by (rule perform_files [OF start first_value]) simp
qed

text \<open>A switch begun after a few steps of printing threads.\<close>

lemma switch_reached:
  assumes "perform fdo (as @ Set_file j u # bs) opened_state = Some s"
    and "list_all (\<lambda>a. \<not> is_set a) (as @ bs)"
    and "\<And>t. perform fdo as opened_state = Some t \<Longrightarrow> \<forall>k. \<not> setting (fpcs t k)"
  shows "reach finit (fstep True) s"
proof -
  from assms(1) obtain t where t: "perform fdo as opened_state = Some t" "perform fdo (Set_file j u # bs) t = Some s"
    by (auto simp: perform_append bind_eq_Some_conv simp del: fdo.simps)
  have "reach finit (fstep True) t" by (rule perform_files [OF opened_reached(1) t(1)]) (use assms(2) in simp)
  from perform_call [OF this assms(3) [OF t(1)] t(2)] assms(2) show ?thesis by simp
qed

text \<open>
  Though one thread at a time switches, a print uses a closed stream, which it loaded before
  \<open>g_fd = stderr\<close> or, when the switch is over, before the switch; and a line is begun in the file and
  ends on \<open>stderr\<close>. With two threads in \<open>Logger_set_file\<close> the same stream is closed twice.
\<close>

lemma file_races:
  "\<exists>s. reach finit (fstep True) s \<and> fpcs s 2 = FStd (Some ''b'') \<and> fpcs s 3 = PUse Time (File 7) \<and>
     write_step (PUse Time (File 7)) (shared s) = None"
  "\<exists>s. reach finit (fstep True) s \<and> fpcs s 2 = FIdle \<and> fd (shared s) = Stderr \<and>
     fpcs s 3 = PUse Time (File 7) \<and> write_step (PUse Time (File 7)) (shared s) = None"
  "\<exists>s. reach finit (fstep True) s \<and>
     parts s = [(3, Time, File 7), (3, Origin, File 7), (3, Text, Stderr), (3, Flush, Stderr)]"
  "\<exists>s. reach finit (fstep False) s \<and> fpcs s 3 = FShut None (File 7) \<and>
     set_step None (FShut None (File 7)) (shared s) = None"
proof -
  have w: "reach finit (fstep True) s" if "perform fdo in_window opened_state = Some s" for s
    by (rule switch_reached [of "[Print 3]" 2 "Some ''b''" "replicate 5 (Go 2 None) @ [Go 3 None]"])
      (use that in \<open>auto simp: in_window_def list_all_iff opened_state_def\<close>)
  have l: "reach finit (fstep True) s" if "perform fdo late_use opened_state = Some s" for s
    by (rule switch_reached [of "[Print 3, Go 3 None]" 2 None "replicate 5 (Go 2 None)"])
      (use that in \<open>auto simp: late_use_def list_all_iff opened_state_def printing_def\<close>)
  have t: "reach finit (fstep True) s" if "perform fdo torn_line opened_state = Some s" for s
    by (rule switch_reached [of "Print 3 # replicate 4 (Go 3 None)" 2 None
          "replicate 5 (Go 2 None) @ replicate 4 (Go 3 None)"])
      (use that in \<open>auto simp: torn_line_def list_all_iff opened_state_def printing_def numeral_eq_Suc\<close>)
  have d: "reach finit (fstep False) s" if "perform fdo two_setters opened_state = Some s" for s
    by (rule perform_files [OF opened_reached(2) that]) simp
  show "\<exists>s. reach finit (fstep True) s \<and> fpcs s 2 = FStd (Some ''b'') \<and> fpcs s 3 = PUse Time (File 7) \<and>
     write_step (PUse Time (File 7)) (shared s) = None" using window_value w by blast
  show "\<exists>s. reach finit (fstep True) s \<and> fpcs s 2 = FIdle \<and> fd (shared s) = Stderr \<and>
     fpcs s 3 = PUse Time (File 7) \<and> write_step (PUse Time (File 7)) (shared s) = None" using late_value l by blast
  show "\<exists>s. reach finit (fstep True) s \<and>
     parts s = [(3, Time, File 7), (3, Origin, File 7), (3, Text, Stderr), (3, Flush, Stderr)]"
    using torn_value t by blast
  show "\<exists>s. reach finit (fstep False) s \<and> fpcs s 3 = FShut None (File 7) \<and>
     set_step None (FShut None (File 7)) (shared s) = None" using two_value d by blast
qed

theorem file_switch_window_witness:
  "\<exists>s. reach finit (fstep True) s \<and> fpcs s 2 = FStd (Some ''b'') \<and> fd (shared s) \<notin> open_streams (shared s)"
proof -
  from file_races(1) obtain s where s: "reach finit (fstep True) s" "fpcs s 2 = FStd (Some ''b'')" by blast
  from file_switch_window [OF s(1), of None] s(2) have "fd (shared s) \<notin> open_streams (shared s)" by blast
  with s show ?thesis by blast
qed

end
