(* ===== verification/Logger_Macros.thy ===== *)
theory Logger_Macros
  imports Logger
begin

text \<open>
  The logging macros of \<open>Logger.h\<close> and the text \<open>logPrint\<close> writes: the conversions \<open>%d\<close> and
  \<open>%s\<close> of the formats, the head each macro puts in front of a message, its level and category,
  and the line that reaches the stream.
\<close>

section \<open>Formats\<close>

definition digit :: "nat \<Rightarrow> char" where
  "digit n = ''0123456789'' ! n"

fun digits :: "nat \<Rightarrow> string" where
  "digits n = (if n < 10 then [digit n] else digits (n div 10) @ [digit (n mod 10)])"

declare digits.simps [simp del]

definition decimal :: "int \<Rightarrow> string" where
  "decimal n = (if n < 0 then CHR ''-'' # digits (nat (- n)) else digits (nat n))"

text \<open>
  The variable arguments of a call. A conversion without an argument, with one of the wrong type,
  or other than \<open>%d\<close>, \<open>%s\<close> and \<open>%%\<close> gives \<open>None\<close>; arguments left over are ignored.
\<close>

datatype arg = D int | S string

fun vformat :: "string \<Rightarrow> arg list \<Rightarrow> string option" where
  "vformat [] as = Some []"
| "vformat [c] as = (if c = CHR ''%'' then None else Some [c])"
| "vformat (c # d # cs) as =
     (if c \<noteq> CHR ''%'' then map_option ((#) c) (vformat (d # cs) as)
      else if d = CHR ''%'' then map_option ((#) d) (vformat cs as)
      else (case as of
          D n # as' \<Rightarrow> (if d = CHR ''d'' then map_option ((@) (decimal n)) (vformat cs as') else None)
        | S s # as' \<Rightarrow> (if d = CHR ''s'' then map_option ((@) s) (vformat cs as') else None)
        | [] \<Rightarrow> None))"

section \<open>Macros\<close>

datatype severity = FATAL | ERROR | WARNING | INFO | DEBUG | TRACE1 | TRACE2 | TRACE3 | TRACE4

definition LOG_LEVEL_FATAL :: int where "LOG_LEVEL_FATAL = 0"
definition LOG_LEVEL_WARNING :: int where "LOG_LEVEL_WARNING = 1"
definition LOG_LEVEL_INFO :: int where "LOG_LEVEL_INFO = 2"
definition LOG_LEVEL_DEBUG :: int where "LOG_LEVEL_DEBUG = 3"
definition LOG_LEVEL_TRACE1 :: int where "LOG_LEVEL_TRACE1 = 4"
definition LOG_LEVEL_TRACE2 :: int where "LOG_LEVEL_TRACE2 = 5"
definition LOG_LEVEL_TRACE3 :: int where "LOG_LEVEL_TRACE3 = 6"
definition NO_CATEGERY :: int where "NO_CATEGERY = - 1"

lemmas log_levels = LOG_LEVEL_FATAL_def LOG_LEVEL_WARNING_def LOG_LEVEL_INFO_def LOG_LEVEL_DEBUG_def
  LOG_LEVEL_TRACE1_def LOG_LEVEL_TRACE2_def LOG_LEVEL_TRACE3_def

text \<open>\<open>INT_ERROR\<close> passes the level of fatal messages, which is that of errors; \<open>INT_TRACE4\<close> that of \<open>INT_TRACE3\<close>.\<close>

fun log_level :: "severity \<Rightarrow> int" where
  "log_level FATAL = LOG_LEVEL_FATAL"
| "log_level ERROR = LOG_LEVEL_FATAL"
| "log_level WARNING = LOG_LEVEL_WARNING"
| "log_level INFO = LOG_LEVEL_INFO"
| "log_level DEBUG = LOG_LEVEL_DEBUG"
| "log_level TRACE1 = LOG_LEVEL_TRACE1"
| "log_level TRACE2 = LOG_LEVEL_TRACE2"
| "log_level TRACE3 = LOG_LEVEL_TRACE3"
| "log_level TRACE4 = LOG_LEVEL_TRACE3"

fun log_head :: "severity \<Rightarrow> string" where
  "log_head FATAL = ''FATAL: ''"
| "log_head ERROR = ''ERROR: ''"
| "log_head WARNING = '' WARN: ''"
| "log_head INFO = '' INFO: ''"
| "log_head DEBUG = ''DEBUG: ''"
| "log_head TRACE1 = ''TRACE1: ''"
| "log_head TRACE2 = ''TRACE2: ''"
| "log_head TRACE3 = ''TRACE3: ''"
| "log_head TRACE4 = ''TRACE4: ''"

text \<open>Where a macro is expanded: \<open>TAG\<close>, \<open>__func__\<close>, \<open>__FILE__\<close> and \<open>__LINE__\<close>.\<close>

record site =
  TAG :: string
  func :: string
  file_name :: string
  line :: int

definition site_name :: "severity \<Rightarrow> site \<Rightarrow> string" where
  "site_name sev at = (if sev = TRACE4 then file_name at else func at)"

text \<open>What a call of \<open>logPrint\<close> is given besides the message: the clock and the two identifiers.\<close>

record env =
  clock_of :: "timespec option"
  pid_of :: int
  tid_of :: int

definition logPrintf :: "env \<Rightarrow> int \<Rightarrow> int \<Rightarrow> string \<Rightarrow> arg list \<Rightarrow> Logger \<Rightarrow> log_entry list option" where
  "logPrintf e categery level fmt as l =
     (if level \<le> g_activeLevel l
      then Option.bind (vformat fmt as)
        (\<lambda>msg. logPrint (clock_of e) (pid_of e) (tid_of e) categery level msg l)
      else Some [])"

definition INT_log :: "severity \<Rightarrow> env \<Rightarrow> site \<Rightarrow> int \<Rightarrow> string \<Rightarrow> arg list \<Rightarrow> Logger \<Rightarrow> log_entry list option" where
  "INT_log sev e at cat fmt as =
     logPrintf e cat (log_level sev) (log_head sev @ ''%s,%s:%d '' @ fmt @ [CHR 0x0A])
       (S (TAG at) # S (site_name sev at) # D (line at) # as)"

definition CAT_log :: "severity \<Rightarrow> env \<Rightarrow> site \<Rightarrow> int \<Rightarrow> string \<Rightarrow> arg list \<Rightarrow> Logger \<Rightarrow> log_entry list option" where
  "CAT_log sev e at cat fmt as = INT_log sev e at cat fmt (as @ [S []])"

definition plain_log :: "severity \<Rightarrow> env \<Rightarrow> site \<Rightarrow> string \<Rightarrow> arg list \<Rightarrow> Logger \<Rightarrow> log_entry list option" where
  "plain_log sev e at fmt as = INT_log sev e at NO_CATEGERY fmt (as @ [S []])"

text \<open>
  The line an entry becomes on its stream. The number of the thread, printed with \<open>%lu\<close>, is a natural one.
\<close>

definition render :: "log_entry \<Rightarrow> string" where
  "render x = decimal (stamp x) @ '': '' @
     (case origin_of x of Tagged s \<Rightarrow> s @ '' ''
      | Thread_id pid tid \<Rightarrow> decimal pid @ '':'' @ decimal tid @ '' '') @ message x"

section \<open>Formatting\<close>

text \<open>Decimal numerals can be read back.\<close>

definition digit_value :: "char \<Rightarrow> nat" where
  "digit_value c = the (find (\<lambda>n. digit n = c) [0..<10])"

definition numeral_value :: "string \<Rightarrow> nat" where
  "numeral_value = foldl (\<lambda>n c. 10 * n + digit_value c) 0"

lemma digit_value: "n < 10 \<Longrightarrow> digit_value (digit n) = n"
  by (auto simp: digit_value_def digit_def less_Suc_eq numeral_eq_Suc)

lemma digits_value: "numeral_value (digits n) = n"
proof (induction n rule: digits.induct)
  case (1 n)
  show ?case
  proof (cases "n < 10")
    case True
    then show ?thesis by (subst digits.simps) (simp add: numeral_value_def digit_value)
  next
    case False
    then have "numeral_value (digits n) = 10 * (n div 10) + n mod 10"
      using 1 by (subst digits.simps) (simp add: numeral_value_def digit_value)
    then show ?thesis by simp
  qed
qed

lemma vformat_literal:
  "CHR ''%'' \<notin> set s \<Longrightarrow> vformat (s @ f) as = map_option ((@) s) (vformat f as)"
proof (induction s)
  case Nil
  show ?case by (simp add: option.map_ident)
next
  case (Cons c s)
  then show ?case by (cases "s @ f") (auto simp: option.map_comp comp_def)
qed

lemma vformat_snoc:
  "vformat f as = Some b \<Longrightarrow> c \<noteq> CHR ''%'' \<Longrightarrow> vformat (f @ [c]) as = Some (b @ [c])"
  by (induction f as arbitrary: b rule: vformat.induct)
    (auto split: if_splits list.splits arg.splits)

lemma vformat_more: "vformat f as = Some b \<Longrightarrow> vformat f (as @ xs) = Some b"
  by (induction f as arbitrary: b rule: vformat.induct)
    (auto split: if_splits list.splits arg.splits)

lemma vformat_string: "vformat (CHR ''%'' # CHR ''s'' # f) (S s # as) = map_option ((@) s) (vformat f as)"
  by simp

lemma head_literal: "CHR ''%'' \<notin> set (log_head sev)"
  by (cases sev) simp_all

lemma vformat_macro:
  assumes "vformat fmt as = Some body"
  shows "vformat (log_head sev @ ''%s,%s:%d '' @ fmt @ [CHR 0x0A]) (S t # S fn # D n # as) =
    Some (log_head sev @ t @ '','' @ fn @ '':'' @ decimal n @ '' '' @ body @ [CHR 0x0A])"
proof -
  have "vformat (fmt @ [CHR 0x0A]) as = Some (body @ [CHR 0x0A])"
    using assms by (rule vformat_snoc) simp
  then have "vformat ('' '' @ fmt @ [CHR 0x0A]) as = Some ('' '' @ body @ [CHR 0x0A])"
    using vformat_literal [of "'' ''"] by simp
  then have "vformat (CHR '':'' # CHR ''%'' # CHR ''d'' # '' '' @ fmt @ [CHR 0x0A]) (D n # as) =
      Some ('':'' @ decimal n @ '' '' @ body @ [CHR 0x0A])" by simp
  then show ?thesis by (simp add: vformat_literal [OF head_literal])
qed

lemma severity_levels: "0 \<le> log_level sev" "log_level sev \<le> 6"
  by (cases sev; simp add: log_levels)+

lemma no_category [simp]: "\<not> NO_CATEGERY \<ge> 0"
  by (simp add: NO_CATEGERY_def)

lemma plain_written:
  assumes "vformat fmt (as @ [S []]) = Some body" and "getCurrentTimeMillis (clock_of e) = Some time"
  shows "plain_log sev e at fmt as l =
    Some (if log_level sev \<le> g_activeLevel l then
      [\<lparr>stream_of = g_fd l, stamp = time, origin_of = Thread_id (pid_of e) (tid_of e),
        message = log_head sev @ TAG at @ '','' @ site_name sev at @ '':'' @ decimal (line at) @ '' '' @
          body @ [CHR 0x0A]\<rparr>] else [])"
  using vformat_macro [OF assms(1)] assms(2)
  by (simp add: plain_log_def INT_log_def logPrintf_def logPrint_def)

section \<open>Properties\<close>

text \<open>
  C38 (functional): after \<open>Logger_set_level n\<close> a macro of a severity whose format and arguments
  agree writes nothing when its level, 0 for fatal and error up to 6 for the two last traces, is
  above \<open>n\<close> clamped to 0..6, and otherwise one entry on the current stream under the process and
  thread: its head, the tag, function and line, the formatted text and a newline; the empty
  argument the macro adds is never seen. The line written starts with the microsecond stamp.
\<close>

theorem macro_writes:
  assumes "vformat fmt as = Some body" and "normalized t" and "0 \<le> tv_sec t" and "total_ns t \<le> INT64_MAX"
  shows "plain_log sev \<lparr>clock_of = Some t, pid_of = p, tid_of = i\<rparr> at fmt as (Logger_set_level n l) =
      CAT_log sev \<lparr>clock_of = Some t, pid_of = p, tid_of = i\<rparr> at (- 1) fmt as (Logger_set_level n l) \<and>
    map_option (map render)
      (plain_log sev \<lparr>clock_of = Some t, pid_of = p, tid_of = i\<rparr> at fmt as (Logger_set_level n l)) =
    Some (if log_level sev \<le> max 0 (min 6 n)
      then [decimal (total_ns t div 1000) @ '': '' @ decimal p @ '':'' @ decimal i @ '' '' @
        log_head sev @ TAG at @ '','' @ site_name sev at @ '':'' @ decimal (line at) @ '' '' @ body @ [CHR 0x0A]]
      else [])"
proof -
  let ?e = "\<lparr>clock_of = Some t, pid_of = p, tid_of = i\<rparr>"
  have time: "getCurrentTimeMillis (clock_of ?e) = Some (total_ns t div 1000)"
    using log_clock.reading_exact [OF assms(2,3)] assms(4) by simp
  have level: "g_activeLevel (Logger_set_level n l) = max 0 (min 6 n)"
    by (simp add: Logger_set_level_def)
  from plain_written [OF vformat_more [OF assms(1)] time] show ?thesis
    by (simp add: render_def level plain_log_def CAT_log_def NO_CATEGERY_def)
qed

theorem macro_writes_witness:
  "map_option (map render) (plain_log WARNING \<lparr>clock_of = Some (Timespec 1 5000), pid_of = 7, tid_of = 9\<rparr>
      \<lparr>TAG = ''main'', func = ''f'', file_name = ''main.cpp'', line = 51\<rparr> ''n %d %s'' [D 1, S ''ok'']
      (Logger_set_level 3 logger_static)) =
   Some [''1000005: 7:9  WARN: main,f:51 n 1 ok'' @ [CHR 0x0A]]"
proof -
  have d: "decimal 1 = ''1''" "decimal 7 = ''7''" "decimal 9 = ''9''" "decimal 51 = ''51''"
    "decimal 1000005 = ''1000005''"
    by (simp_all add: decimal_def digits.simps digit_def)
  then have f: "vformat ''n %d %s'' [D 1, S ''ok''] = Some ''n 1 ok''" by simp
  have t: "normalized (Timespec 1 5000)" "0 \<le> tv_sec (Timespec 1 5000)"
    "total_ns (Timespec 1 5000) \<le> INT64_MAX"
    by (simp_all add: normalized_def total_ns_def INT64_MAX_def)
  from macro_writes [OF f t, of WARNING 7 9
      "\<lparr>TAG = ''main'', func = ''f'', file_name = ''main.cpp'', line = 51\<rparr>" 3 logger_static,
      THEN conjunct2] d
  show ?thesis by (simp del: map_option_eq_Some add: total_ns_def log_levels site_name_def)
qed

end
