(* ===== verification/MainCpp.thy ===== *)
theory MainCpp
  imports Thread Condition Logger_Macros
begin

text \<open>
  \<open>main.cpp\<close>: the prints and the map at the start of \<open>main\<close>, and the thread class it starts,
  whose loop counts its calls. The rest of \<open>main\<close> calls members the library does not have.
\<close>

section \<open>The prints\<close>

definition at_line :: "string \<Rightarrow> int \<Rightarrow> site" where
  "at_line f n = \<lparr>TAG = ''main'', func = f, file_name = ''main.cpp'', line = n\<rparr>"

text \<open>\<open>es n\<close> is what the call at line \<open>n\<close> reads of the clock and the two identifiers.\<close>

definition test_prints :: "(int \<Rightarrow> env) \<Rightarrow> Logger \<Rightarrow> (log_entry list \<times> Logger) option" where
  "test_prints es l0 =
     (let l = Logger_set_level 6 l0
      in map_option (\<lambda>xs. (concat xs, l))
        (those (map (\<lambda>(sev, n). plain_log sev (es n) (at_line ''main'' n) ''print test %d'' [D 1] l)
          [(FATAL, 49), (ERROR, 50), (WARNING, 51), (INFO, 52), (DEBUG, 53), (TRACE1, 54),
           (TRACE2, 55), (TRACE3, 56)])))"

section \<open>The map\<close>

record Key = key :: string
record Value = number :: int

text \<open>\<open>unordered_map::insert\<close> keeps the element a key has; a map is the list of its elements.\<close>

definition um_insert :: "'k \<times> 'v \<Rightarrow> ('k \<times> 'v) list \<Rightarrow> ('k \<times> 'v) list" where
  "um_insert x h = (if fst x \<in> fst ` set h then h else h @ [x])"

text \<open>
  The two objects are at the addresses \<open>ka\<close> and \<open>va\<close>; the map holds the addresses as signed
  64-bit integers, which the loop converts back.
\<close>

definition print_map :: "(int \<Rightarrow> env) \<Rightarrow> 64 word \<Rightarrow> 64 word \<Rightarrow> Logger \<Rightarrow> log_entry list option" where
  "print_map es ka va l =
     (let keys = [ka \<mapsto> \<lparr>key = ''key???''\<rparr>];
          vals = [va \<mapsto> \<lparr>number = 122021\<rparr>];
          hashMap = um_insert (sint ka, sint va) []
      in map_option concat (those (map (\<lambda>(k, v).
           Option.bind (keys (word_of_int k)) (\<lambda>kk.
           Option.bind (vals (word_of_int v)) (\<lambda>vv.
             plain_log FATAL (es 67) (at_line ''main'' 67) ''key:%s,value:%d'' [S (key kk), D (number vv)] l)))
           hashMap)))"

section \<open>The thread\<close>

text \<open>\<open>held\<close> says whether the thread's own mutex is locked.\<close>

record MyThread =
  cnt :: int
  held :: bool

definition MyThread_readyToRun :: "MyThread \<Rightarrow> MyThread" where
  "MyThread_readyToRun t = t\<lparr>cnt := 0\<rparr>"

definition MyThread_threadLoop ::
  "(int \<Rightarrow> env) \<Rightarrow> Logger \<Rightarrow> MyThread \<Rightarrow> (bool \<times> MyThread \<times> log_entry list) option" where
  "MyThread_threadLoop es l t =
     Option.bind (i32_add (cnt t) 1) (\<lambda>c.
       let t1 = t\<lparr>cnt := c\<rparr>
       in Option.bind (plain_log FATAL (es 31) (at_line ''threadLoop'' 31) ''thread loop cnt: %d +'' [D (cnt t1)] l)
         (\<lambda>out1.
           let (out2, t2) = Autolock (\<lambda>t. (Mutex_lock 0, t\<lparr>held := True\<rparr>)) (\<lambda>t. (0, t\<lparr>held := False\<rparr>))
                 (\<lambda>t. (plain_log FATAL (es 34) (at_line ''threadLoop'' 34) ''thread loop cnt: %d'' [D (cnt t)] l, t)) t1
           in map_option (\<lambda>o2. (True, t2, out1 @ o2)) out2))"

text \<open>\<open>n\<close> calls of \<open>threadLoop\<close>; \<open>es k\<close> belongs to call \<open>k\<close>.\<close>

fun loops :: "(nat \<Rightarrow> int \<Rightarrow> env) \<Rightarrow> Logger \<Rightarrow> nat \<Rightarrow> MyThread \<Rightarrow> (bool list \<times> MyThread \<times> log_entry list) option" where
  "loops es l 0 t = Some ([], t, [])"
| "loops es l (Suc n) t =
     Option.bind (loops es l n t) (\<lambda>(rs, t1, out1).
       map_option (\<lambda>(r, t2, out2). (rs @ [r], t2, out1 @ out2)) (MyThread_threadLoop (es n) l t1))"

section \<open>What they write\<close>

definition clocked :: "env \<Rightarrow> bool" where
  "clocked e \<longleftrightarrow> getCurrentTimeMillis (clock_of e) \<noteq> None"

text \<open>The message of a plain macro, once its format is known to agree with its arguments.\<close>

lemma plain_message:
  assumes "vformat fmt (as @ [S []]) = Some body" and "clocked e" and "log_level sev \<le> g_activeLevel l"
  shows "\<exists>x. plain_log sev e at fmt as l = Some [x] \<and> stream_of x = g_fd l \<and>
    message x = log_head sev @ TAG at @ '','' @ site_name sev at @ '':'' @ decimal (line at) @ '' '' @
      body @ [CHR 0x0A]"
proof -
  from assms(2) obtain time where "getCurrentTimeMillis (clock_of e) = Some time"
    by (auto simp: clocked_def)
  from plain_written [OF assms(1) this] assms(3) show ?thesis by simp
qed

lemma set_level_state [simp]:
  "g_activeLevel (Logger_set_level 6 l) = 6" "g_fd (Logger_set_level n l) = g_fd l"
  by (simp_all add: Logger_set_level_def)

lemma those_singletons:
  "(\<And>q. q \<in> set qs \<Longrightarrow> g q = Some [f q]) \<Longrightarrow> map_option concat (those (map g qs)) = Some (map f qs)"
proof -
  assume "\<And>q. q \<in> set qs \<Longrightarrow> g q = Some [f q]"
  then have "those (map g qs) = Some (map (\<lambda>q. [f q]) qs)" by (induction qs) auto
  then show ?thesis by (simp add: concat_map_singleton)
qed

lemma decimal_small:
  "0 \<le> n \<Longrightarrow> n < 10 \<Longrightarrow> decimal n = [digit (nat n)]"
  "10 \<le> n \<Longrightarrow> n < 100 \<Longrightarrow> decimal n = [digit (nat n div 10), digit (nat n mod 10)]"
proof -
  show "decimal n = [digit (nat n)]" if "0 \<le> n" "n < 10"
    using that by (simp add: decimal_def digits.simps [of "nat n"] nat_less_iff)
  show "decimal n = [digit (nat n div 10), digit (nat n mod 10)]" if "10 \<le> n" "n < 100"
  proof -
    have "nat n < 100" "\<not> nat n < 10" using that by (simp_all add: nat_less_iff)
    then show ?thesis using that
      by (simp add: decimal_def digits.simps [of "nat n"] digits.simps [of "nat n div 10"] less_mult_imp_div_less)
  qed
qed

lemma loop_writes:
  assumes "clocked (es 31)" and "clocked (es 34)" and "0 \<le> g_activeLevel l"
    and "0 \<le> cnt t" and "cnt t < INT32_MAX"
  shows "\<exists>x y. MyThread_threadLoop es l t = Some (True, \<lparr>cnt = cnt t + 1, held = False\<rparr>, [x, y]) \<and>
    message x = ''FATAL: main,threadLoop:31 thread loop cnt: '' @ decimal (cnt t + 1) @ '' +'' @ [CHR 0x0A] \<and>
    message y = ''FATAL: main,threadLoop:34 thread loop cnt: '' @ decimal (cnt t + 1) @ [CHR 0x0A]"
proof -
  let ?c = "cnt t + 1"
  have "vformat ''thread loop cnt: %d +'' ([D ?c] @ [S []]) = Some (''thread loop cnt: '' @ decimal ?c @ '' +'')"
    "vformat ''thread loop cnt: %d'' ([D ?c] @ [S []]) = Some (''thread loop cnt: '' @ decimal ?c)" by simp_all
  note m = this [THEN plain_message]
  from m(1) [OF assms(1), of FATAL l "at_line ''threadLoop'' 31"]
    m(2) [OF assms(2), of FATAL l "at_line ''threadLoop'' 34"] assms(3)
  obtain x y where
    "plain_log FATAL (es 31) (at_line ''threadLoop'' 31) ''thread loop cnt: %d +'' [D ?c] l = Some [x]"
    "plain_log FATAL (es 34) (at_line ''threadLoop'' 34) ''thread loop cnt: %d'' [D ?c] l = Some [y]"
    "message x = ''FATAL: main,threadLoop:31 thread loop cnt: '' @ decimal ?c @ '' +'' @ [CHR 0x0A]"
    "message y = ''FATAL: main,threadLoop:34 thread loop cnt: '' @ decimal ?c @ [CHR 0x0A]"
    by (auto simp: log_levels at_line_def site_name_def decimal_small digit_def)
  then show ?thesis using assms(4,5)
    by (intro exI [of _ x] exI [of _ y])
      (simp add: MyThread_threadLoop_def Autolock_def Let_def i32_add_def machine_limits)
qed

lemma loop_overflows: "cnt t = INT32_MAX \<Longrightarrow> MyThread_threadLoop es l t = None"
  by (simp add: MyThread_threadLoop_def i32_add_def machine_limits)

lemma loops_counted:
  assumes "\<And>k n. clocked (es k n)" and "0 \<le> g_activeLevel l" and "cnt t = 0" and "int n \<le> INT32_MAX" and "\<not> held t"
  shows "\<exists>out. loops es l n t = Some (replicate n True, \<lparr>cnt = int n, held = False\<rparr>, out) \<and>
    length out = 2 * n"
  using assms(4)
proof (induction n)
  case 0
  then show ?case using assms(3,5) by (cases t) simp
next
  case (Suc n)
  then obtain out where out: "loops es l n t = Some (replicate n True, \<lparr>cnt = int n, held = False\<rparr>, out)"
    "length out = 2 * n" by auto
  have "int n < INT32_MAX" using Suc.prems by simp
  with loop_writes [of "es n" l "\<lparr>cnt = int n, held = False\<rparr>"] assms(1,2) obtain x y where
    "MyThread_threadLoop (es n) l \<lparr>cnt = int n, held = False\<rparr> =
      Some (True, \<lparr>cnt = int n + 1, held = False\<rparr>, [x, y])" by auto
  with out show ?case by (simp add: replicate_append_same add.commute)
qed

lemma loops_stuck: "loops es l n t = None \<Longrightarrow> n \<le> m \<Longrightarrow> loops es l m t = None"
  by (induction m) (auto simp: le_Suc_eq)

text \<open>The calls of a worker whose loop has always returned true and was never asked to exit.\<close>

lemma work_on:
  assumes "mRunning th" and "\<not> mExitPending th"
  shows "work (3 * n) (replicate n True) th Loop cbs = Some (Loop, th, cbs @ replicate n ThreadLoop)"
proof (induction n arbitrary: cbs)
  case 0
  then show ?case by simp
next
  case (Suc n)
  have "work (3 * Suc n) (replicate (Suc n) True) th Loop cbs =
      work (3 * n) (replicate n True) th Loop (cbs @ [ThreadLoop])"
    using assms by (simp add: numeral_eq_Suc)
  then show ?case using Suc by simp
qed

lemma worker_keeps_on:
  assumes "\<not> mExitPending th"
  shows "work (3 * n + 4) (replicate n True) th Begin [] =
    Some (Loop, th\<lparr>mRunning := True\<rparr>, ReadyToRun # replicate n ThreadLoop)"
proof -
  have "work (3 * n + 4) (replicate n True) th Begin [] =
      work (3 * n) (replicate n True) (th\<lparr>mRunning := True\<rparr>) Loop [ReadyToRun]"
    using assms by (simp add: numeral_eq_Suc Let_def)
  then show ?thesis using work_on [of "th\<lparr>mRunning := True\<rparr>"] assms by simp
qed

section \<open>Properties\<close>

text \<open>
  At the level the program sets, all eight prints at its start are written, each
  with its own head and line, fatal to the last trace; and the loop over the map writes its one
  element, read through the addresses the map holds as integers.
\<close>

theorem main_prints:
  assumes "\<forall>n. clocked (es n)"
  shows "\<exists>xs y l'. test_prints es l = Some (xs, l') \<and> print_map es ka va l' = Some [y] \<and>
    map message xs = map (\<lambda>s. s @ '' print test 1'' @ [CHR 0x0A])
      [''FATAL: main,main:49'', ''ERROR: main,main:50'', '' WARN: main,main:51'', '' INFO: main,main:52'',
       ''DEBUG: main,main:53'', ''TRACE1: main,main:54'', ''TRACE2: main,main:55'', ''TRACE3: main,main:56''] \<and>
    message y = ''FATAL: main,main:67 key:key???,value:122021'' @ [CHR 0x0A]"
proof -
  let ?l = "Logger_set_level 6 l"
  have "vformat ''print test %d'' ([D 1] @ [S []]) = Some ''print test 1''"
    by (simp add: decimal_small digit_def)
  note plain_message [OF this, of "es _" _ ?l "at_line ''main'' _"]
  then have p: "\<exists>x. plain_log sev (es n) (at_line ''main'' n) ''print test %d'' [D 1] ?l = Some [x] \<and>
      message x = log_head sev @ ''main,'' @ site_name sev (at_line ''main'' n) @ '':'' @ decimal n @
        '' print test 1'' @ [CHR 0x0A]" for sev n
    using assms severity_levels(2) [of sev] by (simp add: at_line_def) blast
  have "\<forall>q. \<exists>x. plain_log (fst q) (es (snd q)) (at_line ''main'' (snd q)) ''print test %d'' [D 1] ?l = Some [x] \<and>
      message x = log_head (fst q) @ ''main,'' @ site_name (fst q) (at_line ''main'' (snd q)) @ '':'' @
        decimal (snd q) @ '' print test 1'' @ [CHR 0x0A]"
    using p by blast
  then obtain f where f: "\<And>sev n. plain_log sev (es n) (at_line ''main'' n) ''print test %d'' [D 1] ?l = Some [f (sev, n)]"
      "\<And>sev n. message (f (sev, n)) = log_head sev @ ''main,'' @ site_name sev (at_line ''main'' n) @ '':'' @
        decimal n @ '' print test 1'' @ [CHR 0x0A]"
    by (metis fst_conv snd_conv)
  have "vformat ''key:%s,value:%d'' ([S ''key???'', D 122021] @ [S []]) = Some ''key:key???,value:122021''"
    by (simp add: decimal_def digits.simps digit_def)
  from plain_message [OF this, of "es 67" FATAL ?l "at_line ''main'' 67"] assms
  obtain y where y: "plain_log FATAL (es 67) (at_line ''main'' 67) ''key:%s,value:%d''
      [S ''key???'', D 122021] ?l = Some [y]"
    "message y = ''FATAL: main,main:67 key:key???,value:122021'' @ [CHR 0x0A]"
    by (auto simp: log_levels at_line_def site_name_def decimal_small digit_def)
  let ?qs = "[(FATAL, 49), (ERROR, 50), (WARNING, 51), (INFO, 52), (DEBUG, 53), (TRACE1, 54), (TRACE2, 55), (TRACE3, 56)]"
  have "map_option concat (those (map (\<lambda>(sev, n). plain_log sev (es n) (at_line ''main'' n)
      ''print test %d'' [D 1] ?l) ?qs)) = Some (map f ?qs)"
    by (rule those_singletons) (use f(1) in auto)
  then have "test_prints es l = Some (map f ?qs, ?l)" by (auto simp: test_prints_def Let_def)
  moreover have "print_map es ka va ?l = Some [y]"
    by (simp add: print_map_def um_insert_def Let_def y(1))
  moreover have "map message (map f ?qs) = map (\<lambda>s. s @ '' print test 1'' @ [CHR 0x0A])
      [''FATAL: main,main:49'', ''ERROR: main,main:50'', '' WARN: main,main:51'', '' INFO: main,main:52'',
       ''DEBUG: main,main:53'', ''TRACE1: main,main:54'', ''TRACE2: main,main:55'', ''TRACE3: main,main:56'']"
    by (simp add: f(2) at_line_def site_name_def decimal_small digit_def)
  ultimately show ?thesis using y(2) by blast
qed

theorem main_prints_witness:
  "\<exists>xs l'. test_prints (\<lambda>_. \<lparr>clock_of = None, pid_of = 1, tid_of = 2\<rparr>) logger_static = Some (xs, l') \<and>
    length xs = 8"
proof -
  have "\<forall>n::int. clocked \<lparr>clock_of = None, pid_of = 1, tid_of = 2\<rparr>"
    using log_clock.reading_failed by (simp add: clocked_def)
  from main_prints [OF this, of logger_static 0 0] obtain xs l' where
    "test_prints (\<lambda>_. \<lparr>clock_of = None, pid_of = 1, tid_of = 2\<rparr>) logger_static = Some (xs, l')"
    "length (map message xs) = 8" by auto
  then show ?thesis by auto
qed

text \<open>
  The thread of \<open>main\<close> never ends its loop by itself: each call of \<open>threadLoop\<close>
  returns true, so the worker calls it again and again until an exit is requested. The counter
  \<open>readyToRun\<close> sets to zero is the number of calls, two lines are written for each, and the call
  after the largest 32-bit integer overflows it.
\<close>

theorem main_thread_counts:
  assumes "\<forall>k n. clocked (es k n)" and "0 \<le> g_activeLevel l" and "\<not> held t" and "\<not> mExitPending th"
  shows "(int n \<le> INT32_MAX \<longrightarrow>
      (\<exists>out. loops es l n (MyThread_readyToRun t) = Some (replicate n True, \<lparr>cnt = int n, held = False\<rparr>, out) \<and>
        length out = 2 * n \<and>
        work (3 * n + 4) (replicate n True) th Begin [] =
          Some (Loop, th\<lparr>mRunning := True\<rparr>, ReadyToRun # replicate n ThreadLoop))) \<and>
    (INT32_MAX < int n \<longrightarrow> loops es l n (MyThread_readyToRun t) = None)"
proof -
  have t: "cnt (MyThread_readyToRun t) = 0" "\<not> held (MyThread_readyToRun t)"
    using assms(3) by (simp_all add: MyThread_readyToRun_def)
  note count = loops_counted [of es l "MyThread_readyToRun t", OF _ assms(2) t(1) _ t(2)]
  have "loops es l n (MyThread_readyToRun t) = None" if "INT32_MAX < int n"
  proof (rule loops_stuck)
    let ?m = "nat INT32_MAX"
    show "Suc ?m \<le> n" using that by (simp add: nat_less_iff Suc_le_eq INT32_MAX_def)
    have "int ?m = INT32_MAX" by (simp add: INT32_MAX_def)
    with count [of ?m] assms(1) loop_overflows [of "\<lparr>cnt = int ?m, held = False\<rparr>" "es ?m" l]
    show "loops es l (Suc ?m) (MyThread_readyToRun t) = None" by auto
  qed
  with count [of n] worker_keeps_on [OF assms(4)] assms(1) show ?thesis by auto
qed

theorem main_thread_counts_witness:
  "\<exists>out. loops (\<lambda>_ _. \<lparr>clock_of = None, pid_of = 1, tid_of = 2\<rparr>) logger_static 3
      (MyThread_readyToRun \<lparr>cnt = 77, held = False\<rparr>) =
    Some ([True, True, True], \<lparr>cnt = 3, held = False\<rparr>, out) \<and> length out = 6"
proof -
  have "\<forall>(k::nat) (n::int). clocked \<lparr>clock_of = None, pid_of = 1, tid_of = 2\<rparr>"
    using log_clock.reading_failed by (simp add: clocked_def)
  from main_thread_counts [OF this, of logger_static "\<lparr>cnt = 77, held = False\<rparr>" Thread_new 3]
  show ?thesis by (simp add: logger_static_def Thread_new_def INT32_MAX_def numeral_eq_Suc)
qed

end
