(* ===== verification/Main_Run.thy ===== *)
theory Main_Run
  imports MainCpp
begin

text \<open>
  The life of the thread of \<open>main.cpp\<close>: creation, \<open>run\<close>, \<open>requestExitAndWait\<close> and deletion, next to the
  worker that runs the thread's callbacks. \<open>main.cpp\<close> does not compile as it is: between the print before
  them and \<open>requestExitAndWait\<close> it calls \<open>pause\<close> and \<open>resume\<close>, which the library's \<open>Thread\<close> does not have.
  The program here is \<open>main\<close> with these two calls taken out. The calls of \<open>getchar\<close> change nothing here.
\<close>

section \<open>The program\<close>

text \<open>The counter of \<open>main\<close>, before each call on the thread.\<close>

datatype stage = SNew | SRun | SPrint | SExit | SWait | SDelete | SEnd

text \<open>
  \<open>main\<close> is thread 0, the worker is thread 2. \<open>mine\<close> holds the members of the class, and is null
  before the creation and after the deletion of the object. \<open>begun\<close> is a ghost: whether the worker
  had begun to run when \<open>main\<close> called \<open>requestExitAndWait\<close>.
\<close>

record prog =
  stage :: stage
  thr :: tsys
  mine :: "MyThread option"
  written :: "log_entry list"
  begun :: bool

definition print_at :: "(int \<Rightarrow> env) \<Rightarrow> Logger \<Rightarrow> string \<Rightarrow> int \<Rightarrow> string \<Rightarrow> prog \<Rightarrow> prog option" where
  "print_at es l f n fmt s =
     map_option (\<lambda>x. s\<lparr>written := written s @ x\<rparr>) (plain_log FATAL (es n) (at_line f n) fmt [] l)"

text \<open>Constructor and destructor; \<open>c0\<close> is what the uninitialised counter holds.\<close>

definition MyThread_new :: "(int \<Rightarrow> env) \<Rightarrow> Logger \<Rightarrow> int \<Rightarrow> prog \<Rightarrow> prog option" where
  "MyThread_new es l c0 s = map_option
     (\<lambda>s. s\<lparr>mine := Some \<lparr>cnt = c0, held = False\<rparr>\<rparr>) (print_at es l ''MyThread'' 12 ''thread new'' s)"

definition MyThread_delete :: "(int \<Rightarrow> env) \<Rightarrow> Logger \<Rightarrow> prog \<Rightarrow> prog option" where
  "MyThread_delete es l s = map_option
     (\<lambda>s. s\<lparr>mine := None\<rparr>) (print_at es l ''~MyThread'' 15 ''thread del'' s)"

text \<open>The calls up to the print before \<open>pause\<close>; \<open>result\<close> is what \<open>pthread_create\<close> returns.\<close>

fun main_start :: "(int \<Rightarrow> env) \<Rightarrow> Logger \<Rightarrow> int \<Rightarrow> int \<Rightarrow> stage \<Rightarrow> prog \<Rightarrow> prog option" where
  "main_start es l result c0 SNew s = map_option (\<lambda>s. s\<lparr>stage := SRun\<rparr>) (MyThread_new es l c0 s)"
| "main_start es l result c0 SRun s =
     map_option (\<lambda>t. s\<lparr>stage := SPrint, thr := t\<rparr>) (tstep (Run 0 2 result ''te'') (thr s))"
| "main_start es l result c0 SPrint s =
     map_option (\<lambda>s. s\<lparr>stage := SExit\<rparr>) (print_at es l ''main'' 73 ''pause'' s)"
| "main_start es l result c0 st s = None"

text \<open>The calls from \<open>requestExitAndWait\<close> on.\<close>

fun main_finish :: "(int \<Rightarrow> env) \<Rightarrow> Logger \<Rightarrow> stage \<Rightarrow> prog \<Rightarrow> prog option" where
  "main_finish es l SExit s = map_option
     (\<lambda>t. s\<lparr>stage := SWait, thr := t, begun := workers (thr s) 2 \<notin> {Absent, Begin}\<rparr>) (tstep (ExitAndWait 0) (thr s))"
| "main_finish es l SWait s =
     (case clients (thr s) 0 of
        Got r \<Rightarrow> Some (s\<lparr>stage := SDelete\<rparr>)
      | _ \<Rightarrow> map_option (\<lambda>t. s\<lparr>thr := t\<rparr>) (tstep (Recheck 0) (thr s)))"
| "main_finish es l SDelete s = map_option (\<lambda>s. s\<lparr>stage := SEnd\<rparr>) (MyThread_delete es l s)"
| "main_finish es l st s = None"

definition thread_main :: "(int \<Rightarrow> env) \<Rightarrow> Logger \<Rightarrow> int \<Rightarrow> int \<Rightarrow> stage \<Rightarrow> prog \<Rightarrow> prog option" where
  "thread_main es l result c0 st s =
     (if st \<in> {SNew, SRun, SPrint} then main_start es l result c0 st s else main_finish es l st s)"

text \<open>
  A step of the worker, in which a call of \<open>readyToRun\<close> or \<open>threadLoop\<close> is one step. \<open>None\<close> is the use
  of the deleted object, an overflow, or no step.
\<close>

definition work_next :: "(int \<Rightarrow> env) \<Rightarrow> Logger \<Rightarrow> prog \<Rightarrow> prog option" where
  "work_next es l s = Option.bind (mine s) (\<lambda>m.
     if workers (thr s) 2 = Loop then
       Option.bind (MyThread_threadLoop es l m) (\<lambda>(r, m', out).
         map_option (\<lambda>t. s\<lparr>thr := t, mine := Some m', written := written s @ out\<rparr>) (tstep (Work 2 r) (thr s)))
     else
       map_option (\<lambda>t. s\<lparr>thr := t, mine := Some (if workers (thr s) 2 = First then MyThread_readyToRun m else m)\<rparr>)
         (tstep (Work 2 True) (thr s)))"

text \<open>\<open>es\<close> in each step is what the prints of that step read of the clock and the identifiers.\<close>

datatype prog_act = Main_step "int \<Rightarrow> env" int int | Worker_step "int \<Rightarrow> env" | Spurious_wake

fun pdo :: "Logger \<Rightarrow> prog_act \<Rightarrow> prog \<Rightarrow> prog option" where
  "pdo l (Main_step es result c0) s = thread_main es l result c0 (stage s) s"
| "pdo l (Worker_step es) s = work_next es l s"
| "pdo l Spurious_wake s = map_option (\<lambda>t. s\<lparr>thr := t\<rparr>) (tstep (Spurious 0) (thr s))"

inductive pmove :: "Logger \<Rightarrow> prog \<Rightarrow> prog \<Rightarrow> bool" for l where
  pmove: "pdo l a s = Some t \<Longrightarrow> pmove l s t"

definition pstart :: prog where
  "pstart = \<lparr>stage = SNew, thr = tstart, mine = None, written = [], begun = False\<rparr>"

definition pinit :: "prog \<Rightarrow> bool" where "pinit s \<longleftrightarrow> s = pstart"

section \<open>The thread object inside the program\<close>

text \<open>The only worker is thread 2, the only client is \<open>main\<close>.\<close>

definition alone :: "tsys \<Rightarrow> bool" where
  "alone s \<longleftrightarrow> strict_inv s \<and> (\<forall>i. i \<noteq> 2 \<longrightarrow> workers s i = Absent) \<and>
     (\<forall>i. i \<noteq> 0 \<longrightarrow> clients s i = Free) \<and> mThread (obj s) \<noteq> Some 0"

definition ended_loop :: "worker \<Rightarrow> bool" where
  "ended_loop pc \<longleftrightarrow> pc \<in> {Leave, Exit, Done}"

text \<open>What \<open>main\<close> knows at each stage of the worker \<open>w\<close>, with its own call \<open>c\<close> and the ghost \<open>b\<close>.\<close>

fun knows :: "stage \<Rightarrow> worker \<Rightarrow> client \<Rightarrow> bool \<Rightarrow> bool" where
  "knows SNew w c b \<longleftrightarrow> w = Absent \<and> can_call c \<and> \<not> b"
| "knows SRun w c b \<longleftrightarrow> w = Absent \<and> can_call c \<and> \<not> b"
| "knows SWait w c b \<longleftrightarrow> (b \<longrightarrow> w \<noteq> Absent \<and> w \<noteq> Begin) \<and>
     (c = ExitWait \<or> c = ExitWoken \<or> ((\<exists>r. c = Got r) \<and> (b \<longrightarrow> ended_loop w)))"
| "knows SDelete w c b \<longleftrightarrow> can_call c \<and> (b \<longrightarrow> ended_loop w)"
| "knows SEnd w c b \<longleftrightarrow> can_call c \<and> (b \<longrightarrow> ended_loop w)"
| "knows _ w c b \<longleftrightarrow> can_call c \<and> \<not> b"

definition prog_inv :: "prog \<Rightarrow> bool" where
  "prog_inv s \<longleftrightarrow> alone (thr s) \<and> knows (stage s) (workers (thr s) 2) (clients (thr s) 0) (begun s) \<and>
     (mine s = None \<longleftrightarrow> stage s = SNew \<or> stage s = SEnd)"

lemma aloneD:
  assumes "alone s"
  shows "strict_inv s" "i \<noteq> 2 \<Longrightarrow> workers s i = Absent" "i \<noteq> 0 \<Longrightarrow> clients s i = Free" "mThread (obj s) \<noteq> Some 0"
    "mRunning (obj s) \<longleftrightarrow> inside (workers s 2)"
proof -
  show inv: "strict_inv s" "mThread (obj s) \<noteq> Some 0" using assms by (simp_all add: alone_def)
  show w: "workers s i = Absent" if "i \<noteq> 2" for i using assms that by (simp add: alone_def)
  show "clients s i = Free" if "i \<noteq> 0" for i using assms that by (simp add: alone_def)
  have "\<not> inside Absent" by (simp add: inside_def settled_def)
  then show "mRunning (obj s) \<longleftrightarrow> inside (workers s 2)"
    using inv(1) w unfolding strict_inv_def by metis
qed

lemma alone_strict:
  assumes "alone s" and "tstep a s = Some t" and "strict_ok a s"
  shows "strict_inv t"
proof (rule strict_inv_step [OF aloneD(1) [OF assms(1)]])
  show "tmove True s t" using tmove [OF assms(2), of True] assms(3) by blast
qed

lemma not_running: "\<not> inside w \<Longrightarrow> w \<noteq> Absent \<Longrightarrow> w \<noteq> Begin \<Longrightarrow> ended_loop w"
  by (cases w) (simp_all add: inside_def settled_def ended_loop_def)

lemma alone_work:
  assumes a: "alone s" and t: "tstep (Work 2 r) s = Some t"
  shows "alone t \<and> (knows st (workers s 2) (clients s 0) b \<longrightarrow> knows st (workers t 2) (clients t 0) b)"
proof -
  from t obtain pc ob cbs bc where w: "worker_step r (obj s) (workers s 2) = Some (pc, ob, cbs, bc)"
    "t = s\<lparr>obj := ob, workers := (workers s)(2 := pc), traces := (traces s)(2 := traces s 2 @ cbs),
       clients := (if bc then wake \<circ> clients s else clients s)\<rparr>"
    by (auto split: option.splits simp del: worker_step.simps)
  have "strict_inv t" using alone_strict [OF a t] by simp
  moreover have "clients t i = Free" if "i \<noteq> 0" for i using aloneD(3) [OF a that] w(2) by simp
  moreover have "mThread ob \<noteq> Some 0"
    using aloneD(4) [OF a] w(1) by (cases "workers s 2") (auto split: if_splits)
  ultimately have "alone t" using aloneD(2) [OF a] w(2) by (simp add: alone_def)
  moreover have "clients t 0 = clients s 0 \<or> clients s 0 = ExitWait \<and> clients t 0 = ExitWoken"
    if "clients s 0 = ExitWait \<or> clients s 0 = ExitWoken \<or> can_call (clients s 0)"
    using that w(2) by (cases "clients s 0") auto
  moreover have "workers s 2 \<noteq> Absent" "workers t 2 \<noteq> Absent" "workers t 2 \<noteq> Begin"
    "ended_loop (workers s 2) \<Longrightarrow> ended_loop (workers t 2)"
    using w by (cases "workers s 2"; auto simp: ended_loop_def split: if_splits)+
  ultimately show ?thesis by (cases st) auto
qed

lemma alone_client:
  assumes a: "alone s" and c: "mThread ob \<noteq> Some 0" "mRunning ob = mRunning (obj s)" "asleep c \<Longrightarrow> mRunning ob"
  shows "alone (s\<lparr>obj := ob, clients := (clients s)(0 := c)\<rparr>)"
  using aloneD [OF a] c unfolding alone_def strict_inv_def by (auto simp: asleep_def)

lemma exit_wait_knows:
  assumes "alone s" and "exit_wait t = (c, ob)" and "mRunning t = mRunning (obj s)" and "mThread t \<noteq> Some 0"
  shows "alone (s\<lparr>obj := ob, clients := (clients s)(0 := c)\<rparr>)"
    and "(b \<longrightarrow> workers s 2 \<noteq> Absent \<and> workers s 2 \<noteq> Begin) \<Longrightarrow> knows SWait (workers s 2) c b"
proof -
  have "mThread ob \<noteq> Some 0" "mRunning ob = mRunning (obj s)" "asleep c \<Longrightarrow> mRunning ob"
    using assms(2-4) by (auto simp: exit_wait_def asleep_def split: if_splits)
  then show "alone (s\<lparr>obj := ob, clients := (clients s)(0 := c)\<rparr>)" by (rule alone_client [OF assms(1)])
  show "knows SWait (workers s 2) c b" if "b \<longrightarrow> workers s 2 \<noteq> Absent \<and> workers s 2 \<noteq> Begin"
    using that aloneD(5) [OF assms(1)] assms(2,3) not_running
    by (auto simp: exit_wait_def split: if_splits)
qed

lemma print_at_frame:
  "print_at es l f n fmt s = Some t \<Longrightarrow> \<exists>x. t = s\<lparr>written := x\<rparr>"
  by (auto simp: print_at_def)

text \<open>The three calls on the thread.\<close>

lemma prog_inv_run:
  assumes inv: "prog_inv s" and st: "stage s = SRun" and u: "tstep (Run 0 2 result ''te'') (thr s) = Some u"
  shows "prog_inv (s\<lparr>stage := SPrint, thr := u\<rparr>)"
proof -
  have a: "alone (thr s)" and k: "knows SRun (workers (thr s) 2) (clients (thr s) 0) (begun s)"
    using inv st by (simp_all add: prog_inv_def)
  have "strict_ok (Run 0 2 result ''te'') (thr s)"
    using aloneD(2) [OF a] k by (simp add: settled_def) metis
  from alone_strict [OF a u this] have si: "strict_inv u" .
  obtain c ob where r: "run result 2 ''te'' (obj (thr s)) = (c, ob)" by fastforce
  with u have u': "u = (thr s)\<lparr>obj := ob, clients := (clients (thr s))(0 := Got c),
      workers := (if c = error_value NO_ERROR then (workers (thr s))(2 := Begin) else workers (thr s))\<rparr>"
    by (auto split: if_splits)
  have "mThread ob \<noteq> Some 0"
    using r aloneD(4) [OF a] by (auto simp: run_def createThread_def Let_def split: if_splits)
  with si u' have "alone u" using aloneD(2,3) [OF a] by (simp add: alone_def)
  then show ?thesis using k u' inv st by (simp add: prog_inv_def)
qed

lemma prog_inv_ask:
  assumes inv: "prog_inv s" and st: "stage s = SExit" and u: "tstep (ExitAndWait 0) (thr s) = Some u"
  shows "prog_inv (s\<lparr>stage := SWait, thr := u, begun := workers (thr s) 2 \<notin> {Absent, Begin}\<rparr>)"
proof -
  have a: "alone (thr s)" using inv by (simp add: prog_inv_def)
  let ?t0 = "(obj (thr s))\<lparr>mExitPending := True\<rparr>"
  obtain c ob where e: "exit_wait ?t0 = (c, ob)" by fastforce
  with u aloneD(4) [OF a] have u': "u = (thr s)\<lparr>obj := ob, clients := (clients (thr s))(0 := c)\<rparr>"
    by (auto simp: requestExitAndWait_def set_client_def split: if_splits)
  note x = exit_wait_knows [OF a e]
  have "alone u" using x(1) aloneD(4) [OF a] u' by simp
  moreover have "knows SWait (workers (thr s) 2) c (workers (thr s) 2 \<notin> {Absent, Begin})"
    using x(2) aloneD(4) [OF a] by simp
  ultimately show ?thesis using u' inv st by (simp add: prog_inv_def)
qed

lemma prog_inv_recheck:
  assumes inv: "prog_inv s" and st: "stage s = SWait" and u: "tstep (Recheck 0) (thr s) = Some u"
    and c: "\<nexists>r. clients (thr s) 0 = Got r"
  shows "prog_inv (s\<lparr>thr := u\<rparr>)"
proof -
  have a: "alone (thr s)" and k: "knows SWait (workers (thr s) 2) (clients (thr s) 0) (begun s)"
    using inv st by (simp_all add: prog_inv_def)
  with c u have c': "clients (thr s) 0 = ExitWoken" by auto
  obtain c1 ob where e: "exit_wait (obj (thr s)) = (c1, ob)" by fastforce
  with u c' have u': "u = (thr s)\<lparr>obj := ob, clients := (clients (thr s))(0 := c1)\<rparr>"
    by (simp add: set_client_def)
  note x = exit_wait_knows [OF a e refl aloneD(4) [OF a]]
  have "knows SWait (workers (thr s) 2) c1 (begun s)" using x(2) k by simp
  with x(1) u' inv st show ?thesis by (simp add: prog_inv_def)
qed

lemma prog_inv_start:
  assumes inv: "prog_inv s" and m: "main_start es l result c0 (stage s) s = Some t"
  shows "prog_inv t"
proof (cases "stage s")
  case SNew
  with m obtain x where "t = s\<lparr>written := x, mine := Some \<lparr>cnt = c0, held = False\<rparr>, stage := SRun\<rparr>"
    by (auto simp: MyThread_new_def dest: print_at_frame)
  with inv SNew show ?thesis by (simp add: prog_inv_def)
next
  case SRun
  with m prog_inv_run [OF inv] show ?thesis by (auto simp del: tstep.simps)
next
  case SPrint
  with m obtain x where "t = s\<lparr>written := x, stage := SExit\<rparr>" by (auto dest: print_at_frame)
  with inv SPrint show ?thesis by (simp add: prog_inv_def)
qed (use m in simp_all)

lemma prog_inv_finish:
  assumes inv: "prog_inv s" and m: "main_finish es l (stage s) s = Some t"
  shows "prog_inv t"
proof (cases "stage s")
  case SExit
  with m prog_inv_ask [OF inv] show ?thesis by (auto simp del: tstep.simps)
next
  case SWait
  show ?thesis
  proof (cases "\<exists>r. clients (thr s) 0 = Got r")
    case True
    with m SWait have "t = s\<lparr>stage := SDelete\<rparr>" by auto
    with True inv SWait show ?thesis by (auto simp: prog_inv_def)
  next
    case False
    with m SWait obtain u where "tstep (Recheck 0) (thr s) = Some u" "t = s\<lparr>thr := u\<rparr>"
      by (auto simp del: tstep.simps split: client.splits)
    with prog_inv_recheck [OF inv SWait _ False] show ?thesis by simp
  qed
next
  case SDelete
  with m obtain x where "t = s\<lparr>written := x, mine := None, stage := SEnd\<rparr>"
    by (auto simp: MyThread_delete_def dest: print_at_frame)
  with inv SDelete show ?thesis by (simp add: prog_inv_def)
qed (use m in simp_all)

lemma prog_inv_main:
  "prog_inv s \<Longrightarrow> thread_main es l result c0 (stage s) s = Some t \<Longrightarrow> prog_inv t"
  by (auto simp: thread_main_def intro: prog_inv_start prog_inv_finish split: if_splits)

lemma prog_inv_work:
  assumes inv: "prog_inv s" and w: "work_next es l s = Some t"
  shows "prog_inv t"
proof -
  from w obtain m where m: "mine s = Some m" by (auto simp: work_next_def bind_eq_Some_conv)
  obtain r m' x u where u: "tstep (Work 2 r) (thr s) = Some u"
    "t = s\<lparr>thr := u, mine := Some m', written := x\<rparr>"
  proof (cases "workers (thr s) 2 = Loop")
    case True
    with m w show thesis
      by (auto simp: work_next_def bind_eq_Some_conv simp del: tstep.simps intro: that)
  next
    case False
    with m w obtain u where "tstep (Work 2 True) (thr s) = Some u"
      "t = s\<lparr>thr := u, mine := Some (if workers (thr s) 2 = First then MyThread_readyToRun m else m)\<rparr>"
      by (auto simp: work_next_def simp del: tstep.simps)
    then show thesis by (intro that [of True u "written s"]) simp_all
  qed
  have "alone (thr s)" using inv by (simp add: prog_inv_def)
  from alone_work [OF this u(1), of "stage s" "begun s"] inv m show ?thesis
    by (simp add: prog_inv_def u(2))
qed

lemma prog_inv_spurious:
  assumes inv: "prog_inv s" and w: "tstep (Spurious 0) (thr s) = Some u"
  shows "prog_inv (s\<lparr>thr := u\<rparr>)"
proof -
  have a: "alone (thr s)" using inv by (simp add: prog_inv_def)
  from w have u: "u = (thr s)\<lparr>clients := (clients (thr s))(0 := wake (clients (thr s) 0))\<rparr>"
    "clients (thr s) 0 = ExitWait \<or> clients (thr s) 0 = JoinWait" by (auto split: if_splits)
  have "alone u"
    using alone_client [OF a, of "obj (thr s)" "wake (clients (thr s) 0)"] aloneD(4) [OF a] u(1) by simp
  with inv u show ?thesis by (cases "stage s") (auto simp: prog_inv_def)
qed

lemma prog_inv_reach:
  assumes "reach pinit (pmove l) s"
  shows "prog_inv s"
  using assms
proof (induction rule: reach.induct)
  case (reach_init s)
  have "tinit tstart" by (simp add: tinit_def)
  then have "strict_inv tstart" by (rule strictly.init_inv)
  then show ?case using reach_init
    by (simp add: pinit_def pstart_def prog_inv_def alone_def tstart_def Thread_new_def)
next
  case (reach_step s t)
  from reach_step.hyps(2) obtain a where a: "pdo l a s = Some t" by (auto elim: pmove.cases)
  show ?case
  proof (cases a)
    case (Main_step es result c0)
    with a prog_inv_main [OF reach_step.IH] show ?thesis by simp
  next
    case (Worker_step es)
    with a prog_inv_work [OF reach_step.IH] show ?thesis by simp
  next
    case Spurious_wake
    with a prog_inv_spurious [OF reach_step.IH] show ?thesis by (auto simp del: tstep.simps)
  qed
qed

section \<open>The end of the thread\<close>

text \<open>The worker's next step is on the deleted object.\<close>

definition uses_deleted :: "prog \<Rightarrow> bool" where
  "uses_deleted s \<longleftrightarrow> mine s = None \<and> workers (thr s) 2 \<noteq> Absent \<and> workers (thr s) 2 \<noteq> Done"


definition quiet_env :: "int \<Rightarrow> env" where
  "quiet_env n = \<lparr>clock_of = None, pid_of = 1, tid_of = 2\<rparr>"

text \<open>Runs in which the worker begins before, or only after, the object is deleted.\<close>

definition begun_run :: "prog_act list" where
  "begun_run = [Main_step quiet_env 0 77, Main_step quiet_env 0 0, Worker_step quiet_env, Worker_step quiet_env,
     Main_step quiet_env 0 0, Main_step quiet_env 0 0, Worker_step quiet_env,
     Main_step quiet_env 0 0, Main_step quiet_env 0 0, Main_step quiet_env 0 0]"

definition unbegun_run :: "prog_act list" where
  "unbegun_run = replicate 6 (Main_step quiet_env 0 0)"

lemma quiet_prints:
  "\<exists>x. plain_log FATAL (quiet_env 12) at ''thread new'' [] logger_static = Some x"
  "\<exists>x. plain_log FATAL (quiet_env 73) at ''pause'' [] logger_static = Some x"
  "\<exists>x. plain_log FATAL (quiet_env 15) at ''thread del'' [] logger_static = Some x"
proof -
  have c: "clocked (quiet_env n)" for n
    using log_clock.reading_failed by (simp add: clocked_def quiet_env_def)
  have l: "log_level FATAL \<le> g_activeLevel logger_static" by (simp add: log_levels logger_static_def)
  show "\<exists>x. plain_log FATAL (quiet_env 12) at ''thread new'' [] logger_static = Some x"
    using plain_message [OF _ c l, of "''thread new''" "[]"] by force
  show "\<exists>x. plain_log FATAL (quiet_env 73) at ''pause'' [] logger_static = Some x"
    using plain_message [OF _ c l, of "''pause''" "[]"] by force
  show "\<exists>x. plain_log FATAL (quiet_env 15) at ''thread del'' [] logger_static = Some x"
    using plain_message [OF _ c l, of "''thread del''" "[]"] by force
qed

lemma prog_runs:
  "\<exists>s. perform (pdo logger_static) begun_run pstart = Some s \<and> stage s = SEnd \<and> begun s \<and>
     uses_deleted s \<and> workers (thr s) 2 = Leave"
  "\<exists>s. perform (pdo logger_static) unbegun_run pstart = Some s \<and> stage s = SEnd \<and> \<not> begun s \<and>
     uses_deleted s \<and> workers (thr s) 2 = Begin"
proof -
  obtain x y z where p: "plain_log FATAL (quiet_env 12) (at_line ''MyThread'' 12) ''thread new'' [] logger_static = Some x"
    "plain_log FATAL (quiet_env 73) (at_line ''main'' 73) ''pause'' [] logger_static = Some y"
    "plain_log FATAL (quiet_env 15) (at_line ''~MyThread'' 15) ''thread del'' [] logger_static = Some z"
    using quiet_prints by metis
  show "\<exists>s. perform (pdo logger_static) begun_run pstart = Some s \<and> stage s = SEnd \<and> begun s \<and>
     uses_deleted s \<and> workers (thr s) 2 = Leave"
    by (simp add: begun_run_def pstart_def MyThread_new_def MyThread_delete_def print_at_def p thread_main_def work_next_def run_eval uses_deleted_def)
  show "\<exists>s. perform (pdo logger_static) unbegun_run pstart = Some s \<and> stage s = SEnd \<and> \<not> begun s \<and>
     uses_deleted s \<and> workers (thr s) 2 = Begin"
    by (simp add: unbegun_run_def pstart_def MyThread_new_def MyThread_delete_def print_at_def p thread_main_def run_eval uses_deleted_def numeral_eq_Suc)
qed

lemma prog_reach:
  assumes "perform (pdo l) as pstart = Some s"
  shows "reach pinit (pmove l) s"
proof (rule perform_reach [OF _ assms])
  show "reach pinit (pmove l) pstart" by (rule reach_init) (simp add: pinit_def)
  show "pmove l u v" if "pdo l a u = Some v" for a u v using that by (rule pmove)
qed


text \<open>Both cases happen.\<close>

lemma thread_deleted_early:
  "(\<exists>s. reach pinit (pmove logger_static) s \<and> uses_deleted s \<and> workers (thr s) 2 = Begin) \<and>
   (\<exists>s. reach pinit (pmove logger_static) s \<and> uses_deleted s \<and> begun s \<and> workers (thr s) 2 = Leave)"
  using prog_runs prog_reach by blast

end
